(* ===== verification/Prelude.thy ===== *)
theory Prelude
  imports Main "HOL-Library.Word" "HOL-Library.Monad_Syntax"
begin

text \<open>
  Shared vocabulary of the development: the machine-integer types of the Rust sources, the
  result type of fallible operations, checked and wrapping \<open>usize\<close> arithmetic, bounds-checked
  indexing, and the list and map lemmas that several components use. \<open>usize\<close> is 64 bits wide;
  byte offsets, lengths and tickets are natural numbers with the width written out where the
  code checks or wraps.
\<close>

section \<open>Types\<close>

type_synonym u8 = "8 word"
type_synonym u16 = "16 word"
type_synonym u32 = "32 word"
type_synonym u64 = "64 word"
type_synonym bytes = "u8 list"
type_synonym pubkey = "u8 list"

named_theorems unfold_ok "inversion of a successful step of a fallible computation"
named_theorems inv_intros "introduction rules of component invariants"

section \<open>Fallible computations\<close>

text \<open>
  \<open>Result<T, E>\<close> is \<open>'e + 'a\<close>, with \<open>Inl\<close> the error; \<open>res_bind\<close> is the \<open>?\<close> operator.
\<close>

definition res_bind :: "'e + 'a \<Rightarrow> ('a \<Rightarrow> 'e + 'b) \<Rightarrow> 'e + 'b" where
  "res_bind m f = (case m of Inl e \<Rightarrow> Inl e | Inr x \<Rightarrow> f x)"

lemma res_bind_simps [simp]:
  "res_bind (Inl e) f = Inl e"
  "res_bind (Inr x) f = f x"
  by (simp_all add: res_bind_def)

lemma res_bind_Inr [unfold_ok]:
  "res_bind m f = Inr y \<longleftrightarrow> (\<exists>x. m = Inr x \<and> f x = Inr y)"
  by (cases m) auto

lemma res_bind_Inl:
  "res_bind m f = Inl e \<longleftrightarrow> m = Inl e \<or> (\<exists>x. m = Inr x \<and> f x = Inl e)"
  by (cases m) auto

lemma res_bind_cong [fundef_cong]:
  "m = m' \<Longrightarrow> (\<And>x. m' = Inr x \<Longrightarrow> f x = g x) \<Longrightarrow> res_bind m f = res_bind m' g"
  by (cases m') auto

section \<open>Machine arithmetic\<close>

definition usize_bound :: nat where
  "usize_bound = 2 ^ 64"

definition checked_add :: "nat \<Rightarrow> nat \<Rightarrow> nat option" where
  "checked_add a b = (if a + b < usize_bound then Some (a + b) else None)"

definition checked_mul :: "nat \<Rightarrow> nat \<Rightarrow> nat option" where
  "checked_mul a b = (if a * b < usize_bound then Some (a * b) else None)"

definition wrapping_sub :: "nat \<Rightarrow> nat \<Rightarrow> nat" where
  "wrapping_sub a b = (if b \<le> a then a - b else usize_bound - (b - a))"

lemma checked_add_Some [simp]:
  "checked_add a b = Some c \<longleftrightarrow> c = a + b \<and> a + b < usize_bound"
  by (auto simp: checked_add_def)

lemma checked_mul_Some [simp]:
  "checked_mul a b = Some c \<longleftrightarrow> c = a * b \<and> a * b < usize_bound"
  by (auto simp: checked_mul_def)

lemma wrapping_sub_ge [simp]: "b \<le> a \<Longrightarrow> wrapping_sub a b = a - b"
  by (simp add: wrapping_sub_def)

section \<open>Bounds-checked indexing\<close>

text \<open>\<open>xs[i]\<close> of the source panics out of range; \<open>None\<close> stands for the panic.\<close>

definition nth_opt :: "'a list \<Rightarrow> nat \<Rightarrow> 'a option" where
  "nth_opt xs i = (if i < length xs then Some (xs ! i) else None)"

lemma nth_opt_Some [simp]: "nth_opt xs i = Some x \<longleftrightarrow> i < length xs \<and> xs ! i = x"
  by (auto simp: nth_opt_def)

lemma nth_opt_None [simp]: "nth_opt xs i = None \<longleftrightarrow> length xs \<le> i"
  by (auto simp: nth_opt_def)

lemma nth_opt_less: "i < length xs \<Longrightarrow> nth_opt xs i = Some (xs ! i)"
  by (simp add: nth_opt_def)

definition opt_list :: "'a option \<Rightarrow> 'a list" where
  "opt_list x = (case x of None \<Rightarrow> [] | Some y \<Rightarrow> [y])"

lemma set_opt_list [simp]: "set (opt_list x) = set_option x"
  by (cases x) (auto simp: opt_list_def)

lemma opt_list_simps [simp]: "opt_list None = []" "opt_list (Some y) = [y]"
  by (simp_all add: opt_list_def)

section \<open>Lists\<close>

lemma distinct_remdups_adj_sorted: "sorted xs \<Longrightarrow> distinct (remdups_adj (xs :: 'a :: linorder list))"
proof (induction xs rule: remdups_adj.induct)
  case (3 x y xs)
  then show ?case
    by (cases "x = y") (auto simp: order_less_le)
qed simp_all

text \<open>The two halves of a list around a position, as an order on its elements.\<close>

definition before_in :: "'a list \<Rightarrow> 'a \<Rightarrow> 'a \<Rightarrow> bool" where
  "before_in xs x y \<longleftrightarrow> (\<exists>us vs ws. xs = us @ x # vs @ y # ws)"

lemma before_in_appendI: "before_in xs x y \<Longrightarrow> before_in (xs @ ys) x y"
  by (force simp: before_in_def)

lemma before_in_snoc: "x \<in> set xs \<Longrightarrow> before_in (xs @ [y]) x y"
proof -
  assume "x \<in> set xs"
  then obtain us vs where "xs = us @ x # vs"
    by (auto dest: split_list)
  then have "xs @ [y] = us @ x # vs @ y # []"
    by simp
  then show ?thesis
    unfolding before_in_def by blast
qed

section \<open>Slices\<close>

text \<open>\<open>slice xs i j\<close> is \<open>&xs[i..j]\<close>; the checked form is \<open>None\<close> where the source panics.\<close>

definition slice :: "'a list \<Rightarrow> nat \<Rightarrow> nat \<Rightarrow> 'a list" where
  "slice xs i j = take (j - i) (drop i xs)"

definition slice_opt :: "'a list \<Rightarrow> nat \<Rightarrow> nat \<Rightarrow> 'a list option" where
  "slice_opt xs i j = (if i \<le> j \<and> j \<le> length xs then Some (slice xs i j) else None)"

lemma slice_opt_Some [simp]: "slice_opt xs i j = Some ys \<longleftrightarrow> i \<le> j \<and> j \<le> length xs \<and> ys = slice xs i j"
  by (auto simp: slice_opt_def)

lemma length_slice [simp]: "i \<le> j \<Longrightarrow> j \<le> length xs \<Longrightarrow> length (slice xs i j) = j - i"
  by (simp add: slice_def)

lemma slice_self [simp]: "slice xs i i = []"
  by (simp add: slice_def)

lemma slice_all [simp]: "slice xs 0 (length xs) = xs"
  by (simp add: slice_def)

lemma slice_append: "i \<le> j \<Longrightarrow> j \<le> k \<Longrightarrow> slice xs i j @ slice xs j k = slice xs i k"
proof -
  assume "i \<le> j" "j \<le> k"
  then have "take (k - i) (drop i xs) = take (j - i) (drop i xs) @ take (k - j) (drop (j - i) (drop i xs))"
    using take_add [of "j - i" "k - j" "drop i xs"] by simp
  then show ?thesis using \<open>i \<le> j\<close> by (simp add: slice_def)
qed

lemma slice_Suc: "i < length xs \<Longrightarrow> slice xs i (Suc i) = [xs ! i]"
  by (simp add: slice_def Cons_nth_drop_Suc [symmetric])

lemma slice_middle: "length pre = i \<Longrightarrow> slice (pre @ mid @ post) i (i + length mid) = mid"
  by (auto simp: slice_def)

lemma slice_shift: "length pre = p \<Longrightarrow> slice (pre @ xs) (p + i) (p + j) = slice xs i j"
  by (auto simp: slice_def)

section \<open>Little-endian bytes\<close>

fun le_nat :: "bytes \<Rightarrow> nat" where
  "le_nat [] = 0"
| "le_nat (b # bs) = unat b + 256 * le_nat bs"

fun nat_le :: "nat \<Rightarrow> nat \<Rightarrow> bytes" where
  "nat_le 0 n = []"
| "nat_le (Suc k) n = of_nat n # nat_le k (n div 256)"

lemma length_nat_le [simp]: "length (nat_le k n) = k"
  by (induction k arbitrary: n) simp_all

lemma unat_u8_less: "unat (b :: u8) < 256"
  using unsigned_less [of b] by simp

lemma unat_u16_less: "unat (n :: u16) < 65536"
  using unsigned_less [of n] by simp

lemma unat_u32_less: "unat (n :: u32) < 4294967296"
  using unsigned_less [of n] by simp

lemma unat_u64_less: "unat (n :: u64) < 18446744073709551616"
  using unsigned_less [of n] by simp

lemma u8_256: "(256 :: u8) = 0"
  by simp

lemma le_nat_bound: "le_nat bs < 256 ^ length bs"
proof (induction bs)
  case (Cons b bs)
  note unat_u8_less [of b]
  then have "unat b + 256 * le_nat bs < 256 * (le_nat bs + 1)" by simp
  also have "\<dots> \<le> 256 * 256 ^ length bs" using Cons by (intro mult_le_mono) simp_all
  finally show ?case by simp
qed simp

lemma le_nat_nat_le: "n < 256 ^ k \<Longrightarrow> le_nat (nat_le k n) = n"
proof (induction k arbitrary: n)
  case (Suc k)
  then have "n div 256 < 256 ^ k" by (auto simp: less_mult_imp_div_less mult.commute)
  then show ?case using Suc.IH by (simp add: unat_of_nat take_bit_eq_mod)
qed simp

lemma nat_le_le_nat: "nat_le (length bs) (le_nat bs) = bs"
proof (induction bs)
  case (Cons b bs)
  note unat_u8_less [of b]
  then have "(unat b + 256 * le_nat bs) div 256 = le_nat bs" by simp
  moreover have "(of_nat (unat b + 256 * le_nat bs) :: u8) = b"
    by (simp add: u8_256)
  ultimately show ?case using Cons by simp
qed simp

end
