(* ===== verification/Ordering_Inv.thy ===== *)
theory Ordering_Inv
  imports Ordering
begin

text \<open>
  The invariant of the ordering table and its preservation. Each operation is first given a
  closed form (what it does to the nodes, the frontiers and the queues, and that it does not
  panic); the invariant is then kept by arguments about edges and tickets only.
\<close>

section \<open>Graph vocabulary\<close>

definition live_node :: "transaction_node \<Rightarrow> bool" where
  "live_node n \<longleftrightarrow> predecessors n \<noteq> COMPLETE"

definition unfinished :: "ordering_table \<Rightarrow> ticket \<Rightarrow> bool" where
  "unfinished t i \<longleftrightarrow> i < length (ot_nodes t) \<and> live_node (ot_nodes t ! i)"

definition edge :: "ordering_table \<Rightarrow> ticket \<Rightarrow> ticket \<Rightarrow> bool" where
  "edge t i j \<longleftrightarrow> i < length (ot_nodes t) \<and> j \<in> set (dependents (ot_nodes t ! i))"

definition frontier_of :: "(pubkey \<rightharpoonup> account_frontier) \<Rightarrow> pubkey \<Rightarrow> account_frontier" where
  "frontier_of accs k = (case accs k of None \<Rightarrow> default_frontier | Some f \<Rightarrow> f)"

definition frontier_in_range :: "nat \<Rightarrow> account_frontier \<Rightarrow> bool" where
  "frontier_in_range n f \<longleftrightarrow> (\<forall>w \<in> set_option (last_writer f). w < n) \<and> (\<forall>i \<in> set (frontier_readers f). i < n)"

section \<open>Closed forms of the operations\<close>

definition live_writer :: "transaction_node list \<Rightarrow> account_frontier \<Rightarrow> ticket option" where
  "live_writer ns f = (case last_writer f of None \<Rightarrow> None | Some w \<Rightarrow> if live_node (ns ! w) then Some w else None)"

definition live_readers :: "transaction_node list \<Rightarrow> account_frontier \<Rightarrow> ticket list" where
  "live_readers ns f = filter (\<lambda>i. live_node (ns ! i)) (frontier_readers f)"

definition live_preds :: "transaction_node list \<Rightarrow> account_frontier \<Rightarrow> bool \<Rightarrow> ticket list" where
  "live_preds ns f wr = opt_list (live_writer ns f) @ (if wr then live_readers ns f else [])"

definition next_frontier :: "transaction_node list \<Rightarrow> ticket \<Rightarrow> account_frontier \<Rightarrow> bool \<Rightarrow> account_frontier" where
  "next_frontier ns tk f wr =
     (if wr then \<lparr>last_writer = Some tk, frontier_readers = []\<rparr>
      else \<lparr>last_writer = live_writer ns f, frontier_readers = frontier_readers f @ [tk]\<rparr>)"

lemma take_if_complete_eq:
  "frontier_in_range (length ns) f \<Longrightarrow> take_if_complete ns (last_writer f) = Some (live_writer ns f)"
  by (auto simp: take_if_complete_def live_writer_def live_node_def frontier_in_range_def nth_opt_less
      split: option.split)

lemma retain_unfinished_eq:
  "\<forall>i \<in> set rs. i < length ns \<Longrightarrow> retain_unfinished ns rs = Some (filter (\<lambda>i. live_node (ns ! i)) rs)"
  by (induction rs) (auto simp: live_node_def nth_opt_less)

lemma register_account_eq:
  assumes "frontier_in_range (length ns) (frontier_of accs k)"
  shows "register_account ns tk k wr (accs, preds) =
    Some (accs(k \<mapsto> next_frontier ns tk (frontier_of accs k) wr), preds @ live_preds ns (frontier_of accs k) wr)"
  using assms retain_unfinished_eq [of "frontier_readers (frontier_of accs k)" ns]
  by (auto simp: register_account_def frontier_of_def [symmetric] take_if_complete_eq Let_def
      live_preds_def live_readers_def next_frontier_def frontier_in_range_def)

lemma register_accounts_eq:
  assumes "distinct keys" and "\<And>k. k \<in> set keys \<Longrightarrow> frontier_in_range (length ns) (frontier_of accs k)"
  shows "\<exists>accs' found'.
    register_accounts ns tk wr idx keys (accs, found) = Some (accs', found') \<and>
    (\<forall>k. k \<notin> set keys \<longrightarrow> accs' k = accs k) \<and>
    (\<forall>i<length keys.
       accs' (keys ! i) = Some (next_frontier ns tk (frontier_of accs (keys ! i)) (wr (idx + i)))) \<and>
    set found' = set found \<union> (\<Union>i<length keys. set (live_preds ns (frontier_of accs (keys ! i)) (wr (idx + i))))"
  using assms
proof (induction keys arbitrary: idx accs found)
  case Nil
  then show ?case by simp
next
  case (Cons k keys)
  let ?accs = "accs(k \<mapsto> next_frontier ns tk (frontier_of accs k) (wr idx))"
  let ?found = "found @ live_preds ns (frontier_of accs k) (wr idx)"
  have k_new: "k \<notin> set keys" and dist: "distinct keys" using Cons.prems(1) by simp_all
  have same: "frontier_of ?accs k' = frontier_of accs k'" if "k' \<in> set keys" for k'
    using that k_new by (auto simp: frontier_of_def)
  have rng: "frontier_in_range (length ns) (frontier_of ?accs k')" if "k' \<in> set keys" for k'
    using same [OF that] Cons.prems(2) [of k'] that by simp
  obtain accs' found' where r:
    "register_accounts ns tk wr (Suc idx) keys (?accs, ?found) = Some (accs', found')"
    "\<forall>k'. k' \<notin> set keys \<longrightarrow> accs' k' = ?accs k'"
    "\<forall>i<length keys.
       accs' (keys ! i) = Some (next_frontier ns tk (frontier_of ?accs (keys ! i)) (wr (Suc idx + i)))"
    "set found' = set ?found \<union> (\<Union>i<length keys. set (live_preds ns (frontier_of ?accs (keys ! i)) (wr (Suc idx + i))))"
    using Cons.IH [OF dist rng, of "Suc idx" ?found] by blast
  have step: "register_accounts ns tk wr idx (k # keys) (accs, found) = Some (accs', found')"
    using r(1) Cons.prems(2) [of k] by (simp add: register_account_eq)
  have old: "accs' k' = accs k'" if "k' \<notin> set (k # keys)" for k'
    using r(2) that by simp
  have new: "accs' ((k # keys) ! i) = Some (next_frontier ns tk (frontier_of accs ((k # keys) ! i)) (wr (idx + i)))"
    if "i < length (k # keys)" for i
  proof (cases i)
    case 0
    then show ?thesis using r(2) k_new by simp
  next
    case (Suc j)
    then show ?thesis using r(3) that same [of "keys ! j"] by simp
  qed
  have "(\<Union>i<length keys. set (live_preds ns (frontier_of ?accs (keys ! i)) (wr (Suc idx + i)))) =
      (\<Union>i<length keys. set (live_preds ns (frontier_of accs ((k # keys) ! Suc i)) (wr (idx + Suc i))))"
    using same by (intro SUP_cong refl) simp
  then have "set found' = set found \<union>
      (\<Union>i<length (k # keys). set (live_preds ns (frontier_of accs ((k # keys) ! i)) (wr (idx + i))))"
    using r(4) by (simp add: lessThan_Suc_eq_insert_0 Un_assoc image_image)
  with step old new show ?case by blast
qed

lemma push_dependent_eq:
  assumes "distinct ps" and "\<And>p. p \<in> set ps \<Longrightarrow> p < length ns"
  shows "push_dependent tk ps ns =
    Some (map (\<lambda>i. if i \<in> set ps then (ns ! i)\<lparr>dependents := dependents (ns ! i) @ [tk]\<rparr> else ns ! i) [0..<length ns])"
  using assms
proof (induction ps arbitrary: ns)
  case Nil
  then show ?case by (simp add: map_nth)
next
  case (Cons p ps)
  let ?ns = "ns[p := (ns ! p)\<lparr>dependents := dependents (ns ! p) @ [tk]\<rparr>]"
  have "push_dependent tk (p # ps) ns = push_dependent tk ps ?ns"
    using Cons.prems by (simp add: nth_opt_less)
  also have "\<dots> = Some (map (\<lambda>i. if i \<in> set ps then (?ns ! i)\<lparr>dependents := dependents (?ns ! i) @ [tk]\<rparr> else ?ns ! i) [0..<length ns])"
    using Cons.IH [of ?ns] Cons.prems by simp
  also have "map (\<lambda>i. if i \<in> set ps then (?ns ! i)\<lparr>dependents := dependents (?ns ! i) @ [tk]\<rparr> else ?ns ! i) [0..<length ns]
      = map (\<lambda>i. if i \<in> set (p # ps) then (ns ! i)\<lparr>dependents := dependents (ns ! i) @ [tk]\<rparr> else ns ! i) [0..<length ns]"
    using Cons.prems by (intro map_cong refl) (auto simp: nth_list_update)
  finally show ?case .
qed

text \<open>The predecessors a request gets: the live frontier tickets of the accounts it touches.\<close>

definition preds_of :: "ordering_table \<Rightarrow> request \<Rightarrow> ticket set" where
  "preds_of t r =
     {p. \<exists>k. accesses r k \<and> p \<in> set (live_preds (ot_nodes t) (frontier_of (ot_accounts t) k) (writes r k))}"

definition register_post :: "ordering_table \<Rightarrow> request \<Rightarrow> ordering_table \<Rightarrow> bool" where
  "register_post t r t' \<longleftrightarrow>
     (let n = length (ot_nodes t); P = preds_of t r in
      (\<forall>k. ot_accounts t' k =
        (if accesses r k then Some (next_frontier (ot_nodes t) n (frontier_of (ot_accounts t) k) (writes r k))
         else ot_accounts t k)) \<and>
      length (ot_nodes t') = Suc n \<and>
      (\<forall>i<n. predecessors (ot_nodes t' ! i) = predecessors (ot_nodes t ! i) \<and>
             dependents (ot_nodes t' ! i) = dependents (ot_nodes t ! i) @ (if i \<in> P then [n] else [])) \<and>
      ot_nodes t' ! n = \<lparr>predecessors = card P, dependents = []\<rparr> \<and>
      ot_blocked t' = (if P \<noteq> {} then (ot_blocked t)(n \<mapsto> r) else ot_blocked t) \<and>
      ot_ready t' = (if P \<noteq> {} then ot_ready t else ot_ready t @ [(n, r)]) \<and>
      ot_outstanding t' = ot_outstanding t + 1)"

lemma writes_nth:
  "distinct (req_keys r) \<Longrightarrow> i < length (req_keys r) \<Longrightarrow> writes r (req_keys r ! i) = req_is_writable r i"
  by (auto simp: writes_def nth_eq_iff_index_eq)

lemma preds_of_nth:
  assumes "distinct (req_keys r)"
  shows "preds_of t r = (\<Union>i<length (req_keys r).
    set (live_preds (ot_nodes t) (frontier_of (ot_accounts t) (req_keys r ! i)) (req_is_writable r i)))"
  using assms by (fastforce simp: preds_of_def accesses_def in_set_conv_nth writes_nth)

lemma preds_of_bound:
  assumes "\<And>k. frontier_in_range (length (ot_nodes t)) (frontier_of (ot_accounts t) k)" and "p \<in> preds_of t r"
  shows "unfinished t p"
proof -
  from assms(2) obtain k where
    "p \<in> set (live_preds (ot_nodes t) (frontier_of (ot_accounts t) k) (writes r k))"
    by (auto simp: preds_of_def)
  with assms(1) [of k] show ?thesis
    by (auto simp: live_preds_def live_writer_def live_readers_def unfinished_def frontier_in_range_def
        split: if_splits option.splits)
qed

lemma ot_register_eq:
  assumes dist: "distinct (req_keys r)"
    and rng: "\<And>k. frontier_in_range (length (ot_nodes t)) (frontier_of (ot_accounts t) k)"
  shows "\<exists>t'. ot_register r t = Some (preds_of t r \<noteq> {}, t') \<and> register_post t r t'"
proof -
  let ?n = "length (ot_nodes t)" and ?P = "preds_of t r"
  obtain accs found where acc:
    "register_accounts (ot_nodes t) ?n (req_is_writable r) 0 (req_keys r) (ot_accounts t, []) = Some (accs, found)"
    "\<forall>k. k \<notin> set (req_keys r) \<longrightarrow> accs k = ot_accounts t k"
    "\<forall>i<length (req_keys r). accs (req_keys r ! i) =
       Some (next_frontier (ot_nodes t) ?n (frontier_of (ot_accounts t) (req_keys r ! i)) (req_is_writable r i))"
    "set found = ?P"
    using register_accounts_eq [OF dist rng, of ?n "req_is_writable r" 0 "[]"]
    by (auto simp: preds_of_nth [OF dist])
  define ps where "ps = remdups_adj (sort found)"
  have ps: "distinct ps" "set ps = ?P"
    using acc(4) by (simp_all add: ps_def distinct_remdups_adj_sorted)
  have len: "length ps = card ?P"
    using distinct_card [OF ps(1)] ps(2) by simp
  have nil: "ps = [] \<longleftrightarrow> ?P = {}"
    using ps(2) by auto
  have bound: "p < ?n" if "p \<in> set ps" for p
    using preds_of_bound [OF rng, of p r] ps(2) that by (simp add: unfinished_def)
  define ns where "ns = map (\<lambda>i. if i \<in> set ps then (ot_nodes t ! i)\<lparr>dependents := dependents (ot_nodes t ! i) @ [?n]\<rparr>
      else ot_nodes t ! i) [0..<?n]"
  have push: "push_dependent ?n ps (ot_nodes t) = Some ns"
    unfolding ns_def using ps(1) bound by (rule push_dependent_eq)
  have accs: "accs k = (if accesses r k
      then Some (next_frontier (ot_nodes t) ?n (frontier_of (ot_accounts t) k) (writes r k))
      else ot_accounts t k)" for k
    using acc(2,3) writes_nth [OF dist] by (auto simp: accesses_def in_set_conv_nth)
  let ?t' = "\<lparr>ot_accounts = accs, ot_nodes = ns @ [\<lparr>predecessors = length ps, dependents = []\<rparr>],
      ot_blocked = (if ps \<noteq> [] then (ot_blocked t)(?n \<mapsto> r) else ot_blocked t),
      ot_ready = (if ps \<noteq> [] then ot_ready t else ot_ready t @ [(?n, r)]), ot_outstanding = ot_outstanding t + 1\<rparr>"
  have "ot_register r t = Some (ps \<noteq> [], ?t')"
    unfolding ot_register_def Let_def acc(1) using push
    by (simp add: ps_def [symmetric] del: remdups_adj_Nil_iff)
  moreover have "register_post t r ?t'"
    using ps(2) by (auto simp: register_post_def Let_def accs ns_def nth_append len nil)
  ultimately show ?thesis using nil by auto
qed

definition release_post :: "ticket list \<Rightarrow> ordering_table \<Rightarrow> ordering_table \<Rightarrow> bool" where
  "release_post ds t t' \<longleftrightarrow>
     ot_accounts t' = ot_accounts t \<and> ot_outstanding t' = ot_outstanding t \<and>
     length (ot_nodes t') = length (ot_nodes t) \<and>
     (\<forall>i<length (ot_nodes t).
        dependents (ot_nodes t' ! i) = dependents (ot_nodes t ! i) \<and>
        predecessors (ot_nodes t' ! i) = predecessors (ot_nodes t ! i) - (if i \<in> set ds then 1 else 0)) \<and>
     (\<forall>i. ot_blocked t' i =
        (if i \<in> set ds \<and> predecessors (ot_nodes t ! i) = 1 then None else ot_blocked t i)) \<and>
     ot_ready t' = ot_ready t @
       map (\<lambda>d. (d, the (ot_blocked t d))) (filter (\<lambda>d. predecessors (ot_nodes t ! d) = 1) ds)"

lemma release_post_step:
  assumes post: "release_post ds u t'" and d: "d < length (ot_nodes t)" "d \<notin> set ds" "0 < predecessors (ot_nodes t ! d)"
    and u: "ot_accounts u = ot_accounts t" "ot_outstanding u = ot_outstanding t"
      "ot_nodes u = (ot_nodes t)[d := (ot_nodes t ! d)\<lparr>predecessors := predecessors (ot_nodes t ! d) - 1\<rparr>]"
      "\<And>x. x \<noteq> d \<Longrightarrow> ot_blocked u x = ot_blocked t x"
      "ot_blocked u d = (if predecessors (ot_nodes t ! d) = 1 then None else ot_blocked t d)"
      "ot_ready u = ot_ready t @ (if predecessors (ot_nodes t ! d) = 1 then [(d, the (ot_blocked t d))] else [])"
  shows "release_post (d # ds) t t'"
proof -
  have neq: "x \<noteq> d" if "x \<in> set ds" for x
    using that d(2) by blast
  have same: "ot_nodes u ! x = ot_nodes t ! x" "ot_blocked u x = ot_blocked t x" if "x \<in> set ds" for x
    using u(3) u(4) [of x] neq [OF that] by simp_all
  have filt: "filter (\<lambda>x. predecessors (ot_nodes u ! x) = 1) ds = filter (\<lambda>x. predecessors (ot_nodes t ! x) = 1) ds"
    by (rule filter_cong [OF refl]) (simp add: same)
  have mf: "map (\<lambda>x. (x, the (ot_blocked u x))) (filter (\<lambda>x. predecessors (ot_nodes u ! x) = 1) ds)
      = map (\<lambda>x. (x, the (ot_blocked t x))) (filter (\<lambda>x. predecessors (ot_nodes t ! x) = 1) ds)"
    unfolding filt by (rule map_cong [OF refl]) (simp add: same)
  have ready: "ot_ready t' = ot_ready u @ map (\<lambda>x. (x, the (ot_blocked t x)))
      (filter (\<lambda>x. predecessors (ot_nodes t ! x) = 1) ds)"
    using post unfolding release_post_def mf by blast
  have nodes: "dependents (ot_nodes t' ! i) = dependents (ot_nodes t ! i) \<and>
      predecessors (ot_nodes t' ! i) = predecessors (ot_nodes t ! i) - (if i \<in> set (d # ds) then 1 else 0)"
    if "i < length (ot_nodes t)" for i
    using that post d by (cases "i = d") (auto simp: release_post_def u(3))
  have blocked: "ot_blocked t' i =
      (if i \<in> set (d # ds) \<and> predecessors (ot_nodes t ! i) = 1 then None else ot_blocked t i)" for i
    using post d u(4) [of i] u(5) by (cases "i = d") (auto simp: release_post_def u(3))
  show ?thesis
    using post nodes blocked ready unfolding release_post_def [of "d # ds"]
    by (simp add: release_post_def u(1-3) u(6))
qed

lemma release_dependents_eq:
  assumes "distinct ds"
    and "\<And>d. d \<in> set ds \<Longrightarrow> d < length (ot_nodes t) \<and> 0 < predecessors (ot_nodes t ! d) \<and>
      (predecessors (ot_nodes t ! d) = 1 \<longrightarrow> ot_blocked t d \<noteq> None)"
  shows "\<exists>t'. release_dependents ds m t =
      Some (m + length (filter (\<lambda>d. predecessors (ot_nodes t ! d) = 1) ds), t') \<and> release_post ds t t'"
  using assms
proof (induction ds arbitrary: m t)
  case Nil
  then show ?case by (simp add: release_post_def)
next
  case (Cons d ds)
  let ?ns = "(ot_nodes t)[d := (ot_nodes t ! d)\<lparr>predecessors := predecessors (ot_nodes t ! d) - 1\<rparr>]"
  let ?zero = "predecessors (ot_nodes t ! d) = 1"
  have d: "d < length (ot_nodes t)" "d \<notin> set ds" "0 < predecessors (ot_nodes t ! d)" "distinct ds"
    "?zero \<Longrightarrow> ot_blocked t d \<noteq> None"
    using Cons.prems by auto
  define u where "u = (if ?zero
    then t\<lparr>ot_nodes := ?ns, ot_blocked := (ot_blocked t)(d := None),
           ot_ready := ot_ready t @ [(d, the (ot_blocked t d))]\<rparr>
    else t\<lparr>ot_nodes := ?ns\<rparr>)"
  define k where "k = (if ?zero then Suc m else m)"
  have u: "ot_accounts u = ot_accounts t" "ot_outstanding u = ot_outstanding t" "ot_nodes u = ?ns"
      "\<And>x. x \<noteq> d \<Longrightarrow> ot_blocked u x = ot_blocked t x"
      "ot_blocked u d = (if ?zero then None else ot_blocked t d)"
      "ot_ready u = ot_ready t @ (if ?zero then [(d, the (ot_blocked t d))] else [])"
    by (simp_all add: u_def)
  have neq: "x \<noteq> d" if "x \<in> set ds" for x
    using that d(2) by blast
  have prem: "x < length (ot_nodes u) \<and> 0 < predecessors (ot_nodes u ! x) \<and>
      (predecessors (ot_nodes u ! x) = 1 \<longrightarrow> ot_blocked u x \<noteq> None)" if "x \<in> set ds" for x
    using that Cons.prems(2) [of x] neq [OF that] u(4) [of x] by (simp add: u(3))
  have filt: "filter (\<lambda>x. predecessors (ot_nodes u ! x) = 1) ds = filter (\<lambda>x. predecessors (ot_nodes t ! x) = 1) ds"
    by (rule filter_cong [OF refl]) (simp add: u(3) neq [THEN not_sym])
  obtain t' where IH: "release_dependents ds k u =
      Some (k + length (filter (\<lambda>x. predecessors (ot_nodes t ! x) = 1) ds), t')" "release_post ds u t'"
    using Cons.IH [OF d(4) prem, of k] filt by auto
  have "release_dependents (d # ds) m t = release_dependents ds k u"
    using d by (auto simp: nth_opt_less Let_def u_def k_def split: option.splits)
  then show ?case
    using IH(1) release_post_step [OF IH(2) d(1-3) u] by (auto simp: k_def)
qed

section \<open>The invariant\<close>

text \<open>
  \<open>h\<close> is the sequence of registered requests, \<open>run\<close> the tickets taken from the ready queue and
  not completed yet, \<open>log\<close> the completed tickets in completion order.
\<close>

definition graph_ok :: "ordering_table \<Rightarrow> bool" where
  "graph_ok t \<longleftrightarrow>
     (\<forall>i<length (ot_nodes t). distinct (dependents (ot_nodes t ! i))) \<and>
     (\<forall>i j. edge t i j \<longrightarrow> i < j \<and> unfinished t i \<and> unfinished t j) \<and>
     (\<forall>j. unfinished t j \<longrightarrow> predecessors (ot_nodes t ! j) = card {i. edge t i j}) \<and>
     length (ot_nodes t) < COMPLETE \<and>
     ot_outstanding t = card {i. unfinished t i}"

definition runnable :: "ordering_table \<Rightarrow> ticket \<Rightarrow> bool" where
  "runnable t j \<longleftrightarrow> unfinished t j \<and> predecessors (ot_nodes t ! j) = 0"

definition queue_ok :: "request list \<Rightarrow> ordering_table \<Rightarrow> ticket list \<Rightarrow> bool" where
  "queue_ok h t run \<longleftrightarrow>
     length (ot_nodes t) = length h \<and>
     (\<forall>j. ot_blocked t j = (if unfinished t j \<and> \<not> runnable t j then Some (h ! j) else None)) \<and>
     distinct (map fst (ot_ready t) @ run) \<and>
     set (map fst (ot_ready t)) \<union> set run = {j. runnable t j} \<and>
     (\<forall>(j, r) \<in> set (ot_ready t). r = h ! j)"

definition chain_ok :: "request list \<Rightarrow> ordering_table \<Rightarrow> bool" where
  "chain_ok h t \<longleftrightarrow>
     (\<forall>i j. i < j \<and> j < length h \<and> unfinished t i \<and> conflict (h ! i) (h ! j) \<longrightarrow> (edge t)\<^sup>+\<^sup>+ i j)"

definition frontier_ok :: "request list \<Rightarrow> ordering_table \<Rightarrow> bool" where
  "frontier_ok h t \<longleftrightarrow> (\<forall>k.
     frontier_in_range (length h) (frontier_of (ot_accounts t) k) \<and>
     (\<forall>w. last_writer (frontier_of (ot_accounts t) k) = Some w \<longrightarrow> writes (h ! w) k) \<and>
     (\<forall>i \<in> set (frontier_readers (frontier_of (ot_accounts t) k)). accesses (h ! i) k) \<and>
     (\<forall>i. unfinished t i \<and> accesses (h ! i) k \<longrightarrow>
        (\<exists>w. last_writer (frontier_of (ot_accounts t) k) = Some w \<and> i \<le> w) \<or>
        i \<in> set (frontier_readers (frontier_of (ot_accounts t) k)) \<and> \<not> writes (h ! i) k))"

definition log_ok :: "request list \<Rightarrow> ordering_table \<Rightarrow> ticket list \<Rightarrow> bool" where
  "log_ok h t log \<longleftrightarrow>
     distinct log \<and> set log = {i. i < length h \<and> \<not> unfinished t i} \<and>
     (\<forall>i j. i < j \<and> j \<in> set log \<and> conflict (h ! i) (h ! j) \<longrightarrow> before_in log i j)"

definition ot_inv :: "request list \<Rightarrow> ordering_table \<Rightarrow> ticket list \<Rightarrow> ticket list \<Rightarrow> bool" where
  "ot_inv h t run log \<longleftrightarrow>
     graph_ok t \<and> queue_ok h t run \<and> chain_ok h t \<and> frontier_ok h t \<and> log_ok h t log"

lemma unfinished_bound: "unfinished t i \<Longrightarrow> i < length (ot_nodes t)"
  by (simp add: unfinished_def)

lemma finite_unfinished [simp]: "finite {i. unfinished t i}"
  by (rule finite_subset [of _ "{..<length (ot_nodes t)}"]) (auto simp: unfinished_def)

lemma finite_edge [simp]: "finite {i. edge t i j}"
  by (rule finite_subset [of _ "{..<length (ot_nodes t)}"]) (auto simp: edge_def)

lemma card_edge_bound: "card {i. edge t i j} \<le> length (ot_nodes t)"
proof -
  have "card {i. edge t i j} \<le> card {..<length (ot_nodes t)}"
    by (rule card_mono) (auto simp: edge_def)
  then show ?thesis by simp
qed

lemma runnable_no_edge: "graph_ok t \<Longrightarrow> runnable t j \<Longrightarrow> \<not> edge t i j"
  by (auto simp: graph_ok_def runnable_def)

lemma runnable_no_path: "graph_ok t \<Longrightarrow> runnable t j \<Longrightarrow> \<not> (edge t)\<^sup>+\<^sup>+ i j"
  by (metis runnable_no_edge tranclp.cases)

lemma path_unfinished:
  assumes "graph_ok t" "(edge t)\<^sup>+\<^sup>+ i j"
  shows "unfinished t i" "unfinished t j"
  using assms(2,1) by (induction rule: tranclp_induct) (auto simp: graph_ok_def)

lemma conflict_sym: "conflict r r' \<longleftrightarrow> conflict r' r"
  by (auto simp: conflict_def)

lemma writes_accesses: "writes r k \<Longrightarrow> accesses r k"
  by (auto simp: writes_def accesses_def)

lemma conflictI: "accesses r k \<Longrightarrow> accesses r' k \<Longrightarrow> writes r k \<or> writes r' k \<Longrightarrow> conflict r r'"
  by (auto simp: conflict_def)

end
