(* ===== verification/Ordering_Safety.thy ===== *)
theory Ordering_Safety
  imports Ordering_Inv
begin

text \<open>
  Every operation of the ordering table keeps \<^const>\<open>ot_inv\<close>: registration extends the graph by
  edges into the new ticket only, completion removes the edges out of a ticket that has none
  coming in, and dispatch moves a ticket from the ready queue to the running ones.
\<close>

section \<open>Registration\<close>

lemma register_postD:
  assumes "register_post t r t'"
  shows "ot_accounts t' k = (if accesses r k
      then Some (next_frontier (ot_nodes t) (length (ot_nodes t)) (frontier_of (ot_accounts t) k) (writes r k))
      else ot_accounts t k)"
    and "length (ot_nodes t') = Suc (length (ot_nodes t))"
    and "i < length (ot_nodes t) \<Longrightarrow> predecessors (ot_nodes t' ! i) = predecessors (ot_nodes t ! i)"
    and "i < length (ot_nodes t) \<Longrightarrow> dependents (ot_nodes t' ! i) =
      dependents (ot_nodes t ! i) @ (if i \<in> preds_of t r then [length (ot_nodes t)] else [])"
    and "predecessors (ot_nodes t' ! length (ot_nodes t)) = card (preds_of t r)"
    and "dependents (ot_nodes t' ! length (ot_nodes t)) = []"
    and "ot_blocked t' = (if preds_of t r \<noteq> {} then (ot_blocked t)(length (ot_nodes t) \<mapsto> r) else ot_blocked t)"
    and "ot_ready t' = (if preds_of t r \<noteq> {} then ot_ready t else ot_ready t @ [(length (ot_nodes t), r)])"
    and "ot_outstanding t' = ot_outstanding t + 1"
  using assms unfolding register_post_def Let_def by simp_all

lemma register_post_unfinished:
  assumes "register_post t r t'" "graph_ok t" "preds_of t r \<subseteq> {i. unfinished t i}"
  shows "unfinished t' i \<longleftrightarrow> unfinished t i \<or> i = length (ot_nodes t)"
proof -
  have "preds_of t r \<subseteq> {..<length (ot_nodes t)}"
    using assms(3) by (auto simp: unfinished_def)
  then have "card (preds_of t r) \<le> card {..<length (ot_nodes t)}"
    by (intro card_mono) auto
  then have "card (preds_of t r) \<noteq> COMPLETE"
    using assms(2) by (simp add: graph_ok_def)
  then show ?thesis
    using register_postD(2,3,5) [OF assms(1)] by (auto simp: unfinished_def live_node_def less_Suc_eq)
qed

lemma register_post_edge:
  assumes "register_post t r t'" "preds_of t r \<subseteq> {i. unfinished t i}"
  shows "edge t' i j \<longleftrightarrow> edge t i j \<or> i \<in> preds_of t r \<and> j = length (ot_nodes t)"
  using register_postD(2,4,6) [OF assms(1)] assms(2)
  by (auto simp: edge_def less_Suc_eq unfinished_def split: if_splits)

lemma graph_okD:
  assumes "graph_ok t"
  shows "i < length (ot_nodes t) \<Longrightarrow> distinct (dependents (ot_nodes t ! i))"
    and "edge t i j \<Longrightarrow> i < j" and "edge t i j \<Longrightarrow> unfinished t i" and "edge t i j \<Longrightarrow> unfinished t j"
    and "unfinished t j \<Longrightarrow> predecessors (ot_nodes t ! j) = card {i. edge t i j}"
    and "length (ot_nodes t) < COMPLETE" and "ot_outstanding t = card {i. unfinished t i}"
  using assms by (auto simp: graph_ok_def)

lemma graph_ok_register:
  assumes post: "register_post t r t'" and g: "graph_ok t" and P: "preds_of t r \<subseteq> {i. unfinished t i}"
    and cap: "Suc (length (ot_nodes t)) < COMPLETE"
  shows "graph_ok t'"
  unfolding graph_ok_def
proof (intro conjI allI impI)
  note unf = register_post_unfinished [OF post g P] and edg = register_post_edge [OF post P]
  let ?n = "length (ot_nodes t)"
  have no_in: "\<not> edge t i ?n" for i
    using graph_okD(4) [OF g, of i ?n] by (auto simp: unfinished_def)
  show "distinct (dependents (ot_nodes t' ! i))" if "i < length (ot_nodes t')" for i
  proof (cases "i = ?n")
    case True
    then show ?thesis using register_postD(6) [OF post] by simp
  next
    case False
    then have "i < ?n" using that register_postD(2) [OF post] by simp
    then show ?thesis
      using register_postD(4) [OF post] graph_okD(1) [OF g] no_in [of i] by (simp add: edge_def)
  qed
  show "i < j" "unfinished t' i" "unfinished t' j" if "edge t' i j" for i j
    using that P graph_okD(2-4) [OF g, of i j] by (auto simp: edg unf dest: unfinished_bound)
  show "predecessors (ot_nodes t' ! j) = card {i. edge t' i j}" if "unfinished t' j" for j
  proof (cases "j = ?n")
    case True
    then have "{i. edge t' i j} = preds_of t r" using edg no_in by auto
    then show ?thesis using register_postD(5) [OF post] True by simp
  next
    case False
    then have "unfinished t j" "{i. edge t' i j} = {i. edge t i j}" using that unf edg by auto
    then show ?thesis
      using register_postD(3) [OF post] graph_okD(5) [OF g] unfinished_bound by simp
  qed
  show "length (ot_nodes t') < COMPLETE"
    using cap register_postD(2) [OF post] by simp
  have "{i. unfinished t' i} = insert ?n {i. unfinished t i}"
    using unf by auto
  then show "ot_outstanding t' = card {i. unfinished t' i}"
    using register_postD(9) [OF post] graph_okD(7) [OF g] by (simp add: unfinished_def)
qed

lemma queue_okD:
  assumes "queue_ok h t run"
  shows "length (ot_nodes t) = length h"
    and "ot_blocked t j = (if unfinished t j \<and> \<not> runnable t j then Some (h ! j) else None)"
    and "distinct (map fst (ot_ready t) @ run)"
    and "set (map fst (ot_ready t)) \<union> set run = {j. runnable t j}"
    and "(j, r) \<in> set (ot_ready t) \<Longrightarrow> r = h ! j"
  using assms by (auto simp: queue_ok_def)

lemma runnable_bound: "runnable t j \<Longrightarrow> j < length (ot_nodes t)"
  by (simp add: runnable_def unfinished_def)

lemma queue_ok_ready_runnable: "queue_ok h t run \<Longrightarrow> (j, r) \<in> set (ot_ready t) \<Longrightarrow> runnable t j"
  using queue_okD(4) by force

lemma queue_ok_register:
  assumes post: "register_post t r t'" and g: "graph_ok t" and P: "preds_of t r \<subseteq> {i. unfinished t i}"
    and q: "queue_ok h t run"
  shows "queue_ok (h @ [r]) t' run"
  unfolding queue_ok_def
proof (intro conjI allI)
  note unf = register_post_unfinished [OF post g P] and n = queue_okD(1) [OF q]
  let ?n = "length (ot_nodes t)"
  have fin: "finite (preds_of t r)" using P finite_subset finite_unfinished by blast
  have runn: "runnable t' j \<longleftrightarrow> runnable t j \<or> j = ?n \<and> preds_of t r = {}" for j
  proof (cases "j < ?n")
    case True
    then show ?thesis using register_postD(3) [OF post] by (simp add: runnable_def unf)
  next
    case False
    then show ?thesis
      using register_postD(5) [OF post] fin unfinished_bound [of t j] by (auto simp: runnable_def unf)
  qed
  have fresh: "?n \<notin> set (map fst (ot_ready t)) \<union> set run" "\<not> runnable t ?n"
    using queue_okD(4) [OF q] runnable_bound [of t ?n] by auto
  show "length (ot_nodes t') = length (h @ [r])"
    using n register_postD(2) [OF post] by simp
  show "ot_blocked t' j = (if unfinished t' j \<and> \<not> runnable t' j then Some ((h @ [r]) ! j) else None)" for j
    using register_postD(7) [OF post] queue_okD(2) [OF q, of j] fresh(2) n unfinished_bound [of t j]
    by (cases "j = ?n") (auto simp: nth_append unf runn)
  show "distinct (map fst (ot_ready t') @ run)"
    "set (map fst (ot_ready t')) \<union> set run = {j. runnable t' j}"
    using register_postD(8) [OF post] queue_okD(3,4) [OF q] fresh runn by auto
  have "x = (h @ [r]) ! j" if "(j, x) \<in> set (ot_ready t')" for j x
  proof (cases "(j, x) \<in> set (ot_ready t)")
    case True
    then show ?thesis
      using queue_okD(5) [OF q True] runnable_bound [OF queue_ok_ready_runnable [OF q True]] n
      by (simp add: nth_append)
  next
    case False
    then show ?thesis
      using that register_postD(8) [OF post] n by (auto split: if_splits)
  qed
  then show "\<forall>(j, x) \<in> set (ot_ready t'). x = (h @ [r]) ! j" by blast
qed

lemma chain_okD:
  "chain_ok h t \<Longrightarrow> i < j \<Longrightarrow> j < length h \<Longrightarrow> unfinished t i \<Longrightarrow> conflict (h ! i) (h ! j) \<Longrightarrow> (edge t)\<^sup>+\<^sup>+ i j"
  by (simp add: chain_ok_def)

lemma frontier_okD:
  assumes "frontier_ok h t"
  shows "frontier_in_range (length h) (frontier_of (ot_accounts t) k)"
    and "last_writer (frontier_of (ot_accounts t) k) = Some w \<Longrightarrow> writes (h ! w) k"
    and "last_writer (frontier_of (ot_accounts t) k) = Some w \<Longrightarrow> w < length h"
    and "unfinished t i \<Longrightarrow> accesses (h ! i) k \<Longrightarrow>
        (\<exists>w. last_writer (frontier_of (ot_accounts t) k) = Some w \<and> i \<le> w) \<or>
        i \<in> set (frontier_readers (frontier_of (ot_accounts t) k)) \<and> \<not> writes (h ! i) k"
    and "i \<in> set (frontier_readers (frontier_of (ot_accounts t) k)) \<Longrightarrow> accesses (h ! i) k"
  using assms by (auto simp: frontier_ok_def frontier_in_range_def)

text \<open>A frontier writer that an unfinished access precedes is itself unfinished, and reached from it.\<close>

lemma frontier_writer_reached:
  assumes g: "graph_ok t" and c: "chain_ok h t" and f: "frontier_ok h t"
    and i: "unfinished t i" "accesses (h ! i) k"
    and w: "last_writer (frontier_of (ot_accounts t) k) = Some w" "i \<le> w"
  shows "unfinished t w" and "(edge t)\<^sup>*\<^sup>* i w"
proof -
  have "i = w \<or> (edge t)\<^sup>+\<^sup>+ i w"
  proof (cases "i = w")
    case False
    have "conflict (h ! i) (h ! w)"
      using frontier_okD(2) [OF f w(1)] i(2) writes_accesses conflictI by blast
    then show ?thesis
      using chain_okD [OF c] False w(2) frontier_okD(3) [OF f w(1)] i(1) by simp
  qed simp
  then show "unfinished t w" "(edge t)\<^sup>*\<^sup>* i w"
    using i(1) path_unfinished(2) [OF g] by (auto intro: tranclp_into_rtranclp)
qed

lemma live_writer_unfinished:
  "last_writer f = Some w \<Longrightarrow> unfinished t w \<Longrightarrow> live_writer (ot_nodes t) f = Some w"
  by (simp add: live_writer_def unfinished_def)

lemma path_to_preds:
  assumes g: "graph_ok t" and c: "chain_ok h t" and f: "frontier_ok h t"
    and i: "unfinished t i" and cf: "conflict (h ! i) r"
  shows "\<exists>p \<in> preds_of t r. (edge t)\<^sup>*\<^sup>* i p"
proof -
  from cf obtain k where k: "accesses (h ! i) k" "accesses r k" "writes (h ! i) k \<or> writes r k"
    by (auto simp: conflict_def)
  let ?f = "frontier_of (ot_accounts t) k"
  consider w where "last_writer ?f = Some w" "i \<le> w" | "i \<in> set (frontier_readers ?f)" "\<not> writes (h ! i) k"
    using frontier_okD(4) [OF f i k(1)] by blast
  then show ?thesis
  proof cases
    case 1
    note w = frontier_writer_reached [OF g c f i k(1) 1]
    have "w \<in> preds_of t r"
      using live_writer_unfinished [OF 1(1) w(1)] k(2) by (auto simp: preds_of_def live_preds_def)
    with w(2) show ?thesis by blast
  next
    case 2
    then have "i \<in> preds_of t r"
      using k i by (auto simp: preds_of_def live_preds_def live_readers_def unfinished_def)
    then show ?thesis by blast
  qed
qed

lemma preds_conflict:
  assumes f: "frontier_ok h t" and p: "p \<in> preds_of t r"
  shows "conflict (h ! p) r"
proof -
  obtain k where k: "accesses r k" "p \<in> set (live_preds (ot_nodes t) (frontier_of (ot_accounts t) k) (writes r k))"
    using p by (auto simp: preds_of_def)
  then consider "last_writer (frontier_of (ot_accounts t) k) = Some p"
    | "writes r k" "p \<in> set (frontier_readers (frontier_of (ot_accounts t) k))"
    by (auto simp: live_preds_def live_writer_def live_readers_def split: if_splits option.splits)
  then show ?thesis
    using frontier_okD(2) [OF f, of k p] frontier_okD(5) [OF f, of p k] k(1) conflictI writes_accesses by metis
qed

lemma chain_ok_register:
  assumes post: "register_post t r t'" and g: "graph_ok t" and P: "preds_of t r \<subseteq> {i. unfinished t i}"
    and n: "length (ot_nodes t) = length h" and c: "chain_ok h t" and f: "frontier_ok h t"
  shows "chain_ok (h @ [r]) t'"
  unfolding chain_ok_def
proof (intro allI impI, elim conjE)
  note unf = register_post_unfinished [OF post g P] and edg = register_post_edge [OF post P]
  have mono: "edge t x y \<Longrightarrow> edge t' x y" for x y using edg by simp
  fix i j
  assume ij: "i < j" "j < length (h @ [r])" "unfinished t' i" "conflict ((h @ [r]) ! i) ((h @ [r]) ! j)"
  have i: "unfinished t i" using ij unf n by auto
  show "(edge t')\<^sup>+\<^sup>+ i j"
  proof (cases "j = length h")
    case True
    then obtain p where p: "p \<in> preds_of t r" "(edge t)\<^sup>*\<^sup>* i p"
      using path_to_preds [OF g c f i] ij by (auto simp: nth_append)
    have "(edge t')\<^sup>*\<^sup>* i p"
      using p(2) mono by (metis mono_rtranclp)
    moreover have "edge t' p j"
      using p(1) True n edg by simp
    ultimately show ?thesis by (rule rtranclp_into_tranclp1)
  next
    case False
    then have "(edge t)\<^sup>+\<^sup>+ i j"
      using chain_okD [OF c, of i j] ij i by (simp add: nth_append)
    then show ?thesis
      by (induction rule: tranclp_induct) (auto intro: mono tranclp.intros)
  qed
qed

lemma frontier_ok_register:
  assumes post: "register_post t r t'" and g: "graph_ok t" and P: "preds_of t r \<subseteq> {i. unfinished t i}"
    and n: "length (ot_nodes t) = length h" and c: "chain_ok h t" and f: "frontier_ok h t"
  shows "frontier_ok (h @ [r]) t'"
proof -
  note unf = register_post_unfinished [OF post g P]
  let ?n = "length h"
  let ?f = "\<lambda>k. frontier_of (ot_accounts t) k" and ?f' = "\<lambda>k. frontier_of (ot_accounts t') k"
  have f': "?f' k = (if accesses r k then next_frontier (ot_nodes t) ?n (?f k) (writes r k) else ?f k)" for k
    using register_postD(1) [OF post, of k] n by (simp add: frontier_of_def)
  have live: "live_writer (ot_nodes t) (?f k) = Some w \<Longrightarrow> last_writer (?f k) = Some w" for k w
    by (auto simp: live_writer_def split: option.splits if_splits)
  have lw: "last_writer (?f' k) = Some w \<Longrightarrow> w = ?n \<and> writes r k \<or> last_writer (?f k) = Some w" for k w
    using live by (auto simp: f' next_frontier_def split: if_splits)
  have rng: "frontier_in_range (length (h @ [r])) (?f' k)" for k
    using frontier_okD(1) [OF f, of k] lw [of k]
    by (auto simp: frontier_in_range_def f' next_frontier_def less_Suc_eq split: if_splits)
  have wr: "writes ((h @ [r]) ! w) k" if "last_writer (?f' k) = Some w" for w k
    using lw [OF that] frontier_okD(2,3) [OF f, of k w] by (auto simp: nth_append)
  have rd: "accesses ((h @ [r]) ! i) k" if "i \<in> set (frontier_readers (?f' k))" for i k
    using that frontier_okD(1) [OF f, of k] frontier_okD(5) [OF f, of i k]
    by (auto simp: f' next_frontier_def nth_append frontier_in_range_def split: if_splits)
  have cover: "(\<exists>w. last_writer (?f' k) = Some w \<and> i \<le> w) \<or>
      i \<in> set (frontier_readers (?f' k)) \<and> \<not> writes ((h @ [r]) ! i) k"
    if i: "unfinished t' i" "accesses ((h @ [r]) ! i) k" for i k
  proof (cases "i = ?n")
    case True
    then show ?thesis using i(2) by (auto simp: f' next_frontier_def)
  next
    case False
    then have "unfinished t i" using i unf n by simp
    then have old: "unfinished t i" "i < ?n" "accesses (h ! i) k"
      using i(2) n unfinished_bound [of t i] by (auto simp: nth_append)
    have "(\<exists>w. live_writer (ot_nodes t) (?f k) = Some w \<and> i \<le> w) \<or>
        i \<in> set (frontier_readers (?f k)) \<and> \<not> writes (h ! i) k"
      using frontier_okD(4) [OF f old(1,3)] frontier_writer_reached(1) [OF g c f old(1,3)] live_writer_unfinished
      by blast
    then show ?thesis
      using frontier_okD(4) [OF f old(1,3)] old(2) by (auto simp: f' next_frontier_def nth_append)
  qed
  show ?thesis
    unfolding frontier_ok_def using rng wr rd cover by blast
qed

lemma log_okD:
  assumes "log_ok h t log"
  shows "distinct log" and "set log = {i. i < length h \<and> \<not> unfinished t i}"
    and "i < j \<Longrightarrow> j \<in> set log \<Longrightarrow> conflict (h ! i) (h ! j) \<Longrightarrow> before_in log i j"
  using assms by (auto simp: log_ok_def)

lemma log_ok_register:
  assumes "register_post t r t'" "graph_ok t" "preds_of t r \<subseteq> {i. unfinished t i}"
    and n: "length (ot_nodes t) = length h" and l: "log_ok h t log"
  shows "log_ok (h @ [r]) t' log"
proof -
  note unf = register_post_unfinished [OF assms(1-3)]
  have "set log = {i. i < length (h @ [r]) \<and> \<not> unfinished t' i}"
    using log_okD(2) [OF l] n unf by (auto simp: less_Suc_eq)
  moreover have "before_in log i j"
    if "i < j" "j \<in> set log" "conflict ((h @ [r]) ! i) ((h @ [r]) ! j)" for i j
    using that log_okD(2,3) [OF l] by (auto simp: nth_append)
  ultimately show ?thesis
    using log_okD(1) [OF l] by (simp add: log_ok_def)
qed

lemma ot_inv_register:
  assumes "ot_inv h t run log" and "distinct (req_keys r)" and "Suc (length h) < COMPLETE"
  shows "\<exists>b t'. ot_register r t = Some (b, t') \<and> ot_inv (h @ [r]) t' run log \<and>
    (b \<longleftrightarrow> (\<exists>i<length h. i \<notin> set log \<and> conflict (h ! i) r))"
proof -
  have inv: "graph_ok t" "queue_ok h t run" "chain_ok h t" "frontier_ok h t" "log_ok h t log"
    using assms(1) by (auto simp: ot_inv_def)
  note n = queue_okD(1) [OF inv(2)]
  have rng: "frontier_in_range (length (ot_nodes t)) (frontier_of (ot_accounts t) k)" for k
    using frontier_okD(1) [OF inv(4)] n by simp
  have P: "preds_of t r \<subseteq> {i. unfinished t i}"
    using preds_of_bound [OF rng] by blast
  obtain t' where t': "ot_register r t = Some (preds_of t r \<noteq> {}, t')" "register_post t r t'"
    using ot_register_eq [OF assms(2) rng] by blast
  note post = t'(2) inv(1) P
  have "ot_inv (h @ [r]) t' run log"
    unfolding ot_inv_def
    using graph_ok_register [OF post] queue_ok_register [OF post inv(2)] chain_ok_register [OF post n inv(3,4)]
      frontier_ok_register [OF post n inv(3,4)] log_ok_register [OF post n inv(5)] assms(3) n
    by simp
  moreover have "preds_of t r \<noteq> {} \<longleftrightarrow> (\<exists>i<length h. i \<notin> set log \<and> conflict (h ! i) r)"
  proof -
    have unf: "i < length h \<and> i \<notin> set log \<longleftrightarrow> unfinished t i" for i
      using log_okD(2) [OF inv(5)] n unfinished_bound [of t i] by auto
    show ?thesis
      using path_to_preds [OF inv(1,3,4), of _ r] preds_conflict [OF inv(4)] P unf by blast
  qed
  ultimately show ?thesis using t'(1) by blast
qed

section \<open>Completion\<close>

definition complete_post :: "ticket \<Rightarrow> ordering_table \<Rightarrow> ordering_table \<Rightarrow> bool" where
  "complete_post tk t t' \<longleftrightarrow>
     ot_accounts t' = ot_accounts t \<and>
     length (ot_nodes t') = length (ot_nodes t) \<and>
     (\<forall>i. unfinished t' i \<longleftrightarrow> unfinished t i \<and> i \<noteq> tk) \<and>
     (\<forall>i<length (ot_nodes t). dependents (ot_nodes t' ! i) = (if i = tk then [] else dependents (ot_nodes t ! i))) \<and>
     (\<forall>i. unfinished t' i \<longrightarrow> predecessors (ot_nodes t' ! i) =
        predecessors (ot_nodes t ! i) - (if edge t tk i then 1 else 0)) \<and>
     ot_outstanding t' = ot_outstanding t - 1 \<and>
     (\<forall>i. ot_blocked t' i = (if edge t tk i \<and> predecessors (ot_nodes t ! i) = 1 then None else ot_blocked t i)) \<and>
     ot_ready t' = ot_ready t @
       map (\<lambda>d. (d, the (ot_blocked t d)))
         (filter (\<lambda>d. predecessors (ot_nodes t ! d) = 1) (dependents (ot_nodes t ! tk)))"

lemma complete_postD:
  assumes "complete_post tk t t'"
  shows "ot_accounts t' = ot_accounts t" and "length (ot_nodes t') = length (ot_nodes t)"
    and "unfinished t' i \<longleftrightarrow> unfinished t i \<and> i \<noteq> tk"
    and "i < length (ot_nodes t) \<Longrightarrow> dependents (ot_nodes t' ! i) = (if i = tk then [] else dependents (ot_nodes t ! i))"
    and "unfinished t' i \<Longrightarrow> predecessors (ot_nodes t' ! i) = predecessors (ot_nodes t ! i) - (if edge t tk i then 1 else 0)"
    and "ot_outstanding t' = ot_outstanding t - 1"
    and "ot_blocked t' i = (if edge t tk i \<and> predecessors (ot_nodes t ! i) = 1 then None else ot_blocked t i)"
    and "ot_ready t' = ot_ready t @ map (\<lambda>d. (d, the (ot_blocked t d)))
      (filter (\<lambda>d. predecessors (ot_nodes t ! d) = 1) (dependents (ot_nodes t ! tk)))"
  using assms unfolding complete_post_def by blast+

lemma release_postD:
  assumes "release_post ds t t'"
  shows "ot_accounts t' = ot_accounts t" and "ot_outstanding t' = ot_outstanding t"
    and "length (ot_nodes t') = length (ot_nodes t)"
    and "i < length (ot_nodes t) \<Longrightarrow> dependents (ot_nodes t' ! i) = dependents (ot_nodes t ! i)"
    and "i < length (ot_nodes t) \<Longrightarrow>
      predecessors (ot_nodes t' ! i) = predecessors (ot_nodes t ! i) - (if i \<in> set ds then 1 else 0)"
    and "ot_blocked t' i = (if i \<in> set ds \<and> predecessors (ot_nodes t ! i) = 1 then None else ot_blocked t i)"
    and "ot_ready t' = ot_ready t @
      map (\<lambda>d. (d, the (ot_blocked t d))) (filter (\<lambda>d. predecessors (ot_nodes t ! d) = 1) ds)"
  using assms unfolding release_post_def by blast+

lemma complete_post_of_release:
  assumes g: "graph_ok t" and tk: "unfinished t tk"
    and u_def: "u = t\<lparr>ot_nodes := (ot_nodes t)[tk := \<lparr>predecessors = COMPLETE, dependents = []\<rparr>],
          ot_outstanding := wrapping_sub (ot_outstanding t) 1\<rparr>"
    and post: "release_post (dependents (ot_nodes t ! tk)) u t'"
  shows "complete_post tk t t'"
  unfolding complete_post_def
proof (intro conjI allI impI)
  let ?n = "length (ot_nodes t)" and ?ds = "dependents (ot_nodes t ! tk)"
  have lt: "tk < ?n" using tk by (rule unfinished_bound)
  have ds: "d \<in> set ?ds \<longleftrightarrow> edge t tk d" for d using lt by (simp add: edge_def)
  have len: "length (ot_nodes u) = ?n" by (simp add: u_def)
  have same: "ot_nodes u ! i = ot_nodes t ! i" if "i \<noteq> tk" for i using that by (simp add: u_def)
  have self: "\<not> edge t tk tk" using graph_okD(2) [OF g, of tk tk] by auto
  have preds: "predecessors (ot_nodes t' ! i) = (if i = tk then COMPLETE
      else predecessors (ot_nodes t ! i) - (if edge t tk i then 1 else 0))" if "i < ?n" for i
    using release_postD(5) [OF post, of i] that self lt by (auto simp: len ds u_def)
  have small: "predecessors (ot_nodes t ! i) - m \<noteq> COMPLETE" if "unfinished t i" for i m
    using graph_okD(5,6) [OF g] card_edge_bound [of t i] that by (metis diff_le_self leD le_trans)
  show "ot_accounts t' = ot_accounts t" "length (ot_nodes t') = ?n"
    using release_postD(1,3) [OF post] by (simp_all add: u_def)
  then show unf: "unfinished t' i \<longleftrightarrow> unfinished t i \<and> i \<noteq> tk" for i
    using preds [of i] small [of i 0] small [of i 1] graph_okD(4) [OF g, of tk i]
    by (auto simp: unfinished_def live_node_def split: if_splits)
  show "dependents (ot_nodes t' ! i) = (if i = tk then [] else dependents (ot_nodes t ! i))" if "i < ?n" for i
    using release_postD(4) [OF post, of i] that by (auto simp: len u_def)
  show "predecessors (ot_nodes t' ! i) = predecessors (ot_nodes t ! i) - (if edge t tk i then 1 else 0)"
    if "unfinished t' i" for i
    using that unf [of i] preds [of i] by (simp add: unfinished_def)
  have "0 < card {i. unfinished t i}" using tk by (auto simp: card_gt_0_iff)
  then show "ot_outstanding t' = ot_outstanding t - 1"
    using release_postD(2) [OF post] graph_okD(7) [OF g] by (simp add: u_def)
  have neq: "i \<noteq> tk" if "edge t tk i" for i using that self by auto
  show "ot_blocked t' i = (if edge t tk i \<and> predecessors (ot_nodes t ! i) = 1 then None else ot_blocked t i)" for i
    using release_postD(6) [OF post, of i] same [of i] neq [of i] by (auto simp: ds u_def)
  have "filter (\<lambda>d. predecessors (ot_nodes u ! d) = 1) ?ds = filter (\<lambda>d. predecessors (ot_nodes t ! d) = 1) ?ds"
    by (rule filter_cong [OF refl]) (simp add: same neq ds)
  then show "ot_ready t' = ot_ready t @
      map (\<lambda>d. (d, the (ot_blocked t d))) (filter (\<lambda>d. predecessors (ot_nodes t ! d) = 1) ?ds)"
    using release_postD(7) [OF post] by (simp add: u_def)
qed

lemma ot_complete_eq:
  assumes g: "graph_ok t" and q: "queue_ok h t run" and tk: "runnable t tk"
  shows "\<exists>t'. ot_complete tk t =
      Some (length (filter (\<lambda>d. predecessors (ot_nodes t ! d) = 1) (dependents (ot_nodes t ! tk))), t') \<and>
    complete_post tk t t'"
proof -
  let ?n = "length (ot_nodes t)" and ?ds = "dependents (ot_nodes t ! tk)"
  have lt: "tk < ?n" and unf: "unfinished t tk"
    using tk by (auto simp: runnable_def unfinished_def)
  define u where "u = t\<lparr>ot_nodes := (ot_nodes t)[tk := \<lparr>predecessors = COMPLETE, dependents = []\<rparr>],
          ot_outstanding := wrapping_sub (ot_outstanding t) 1\<rparr>"
  have ds: "d \<in> set ?ds \<longleftrightarrow> edge t tk d" for d
    using lt by (simp add: edge_def)
  have pos: "0 < predecessors (ot_nodes t ! d)" if "edge t tk d" for d
    using graph_okD(4,5) [OF g] that finite_edge [of t d] by (auto simp: card_gt_0_iff)
  have u_nodes: "ot_nodes u ! d = ot_nodes t ! d" if "d \<noteq> tk" for d
    using that by (simp add: u_def)
  have neq: "d \<noteq> tk" if "edge t tk d" for d
    using graph_okD(2) [OF g that] by simp
  have prem: "d < length (ot_nodes u) \<and> 0 < predecessors (ot_nodes u ! d) \<and>
      (predecessors (ot_nodes u ! d) = 1 \<longrightarrow> ot_blocked u d \<noteq> None)" if "d \<in> set ?ds" for d
  proof -
    have e: "edge t tk d" using that ds by simp
    have "ot_blocked t d \<noteq> None"
      using queue_okD(2) [OF q, of d] graph_okD(4) [OF g e] pos [OF e] by (simp add: runnable_def)
    then show ?thesis
      using u_nodes [OF neq [OF e]] pos [OF e] unfinished_bound [OF graph_okD(4) [OF g e]] by (simp add: u_def)
  qed
  have filt: "filter (\<lambda>d. predecessors (ot_nodes u ! d) = 1) ?ds = filter (\<lambda>d. predecessors (ot_nodes t ! d) = 1) ?ds"
    by (rule filter_cong [OF refl]) (simp add: u_nodes neq ds)
  obtain t' where t': "release_dependents ?ds 0 u = Some (length (filter (\<lambda>d. predecessors (ot_nodes t ! d) = 1) ?ds), t')"
      "release_post ?ds u t'"
    using release_dependents_eq [OF graph_okD(1) [OF g lt] prem, of 0] filt by auto
  have "ot_complete tk t = release_dependents ?ds 0 u"
    using lt by (simp add: ot_complete_def nth_opt_less u_def)
  moreover have "complete_post tk t t'"
    using complete_post_of_release [OF g unf u_def t'(2)] filt by simp
  ultimately show ?thesis using t'(1) by auto
qed

lemma complete_post_edge:
  "graph_ok t \<Longrightarrow> complete_post tk t t' \<Longrightarrow> edge t' i j \<longleftrightarrow> edge t i j \<and> i \<noteq> tk"
  using complete_postD(2,4) [of tk t t'] by (auto simp: edge_def split: if_splits)

lemma graph_ok_complete:
  assumes g: "graph_ok t" and post: "complete_post tk t t'" and tk: "runnable t tk"
  shows "graph_ok t'"
  unfolding graph_ok_def
proof (intro conjI allI impI)
  note unf = complete_postD(3) [OF post] and edg = complete_post_edge [OF g post]
  note no_in = runnable_no_edge [OF g tk]
  show "distinct (dependents (ot_nodes t' ! i))" if "i < length (ot_nodes t')" for i
    using that complete_postD(2,4) [OF post] graph_okD(1) [OF g] by simp
  show "i < j" "unfinished t' i" "unfinished t' j" if "edge t' i j" for i j
    using that graph_okD(2-4) [OF g, of i j] no_in [of i] by (auto simp: edg unf)
  show "predecessors (ot_nodes t' ! j) = card {i. edge t' i j}" if "unfinished t' j" for j
  proof -
    have "{i. edge t' i j} = {i. edge t i j} - {tk}" using edg by auto
    then have "card {i. edge t' i j} = card {i. edge t i j} - (if edge t tk j then 1 else 0)"
      by (simp add: card_Diff_singleton_if)
    then show ?thesis
      using that complete_postD(5) [OF post] graph_okD(5) [OF g] unf by simp
  qed
  show "length (ot_nodes t') < COMPLETE"
    using complete_postD(2) [OF post] graph_okD(6) [OF g] by simp
  have "{i. unfinished t' i} = {i. unfinished t i} - {tk}" using unf by auto
  then show "ot_outstanding t' = card {i. unfinished t' i}"
    using complete_postD(6) [OF post] graph_okD(7) [OF g] tk by (simp add: runnable_def)
qed

lemma queue_ok_complete:
  assumes g: "graph_ok t" and post: "complete_post tk t t'" and q: "queue_ok h t run" and tk: "tk \<in> set run"
  shows "queue_ok h t' (remove1 tk run)"
  unfolding queue_ok_def
proof (intro conjI allI)
  note unf = complete_postD(3) [OF post]
  let ?new = "filter (\<lambda>d. predecessors (ot_nodes t ! d) = 1) (dependents (ot_nodes t ! tk))"
  have run_tk: "runnable t tk" using queue_okD(4) [OF q] tk by auto
  then have lt: "tk < length (ot_nodes t)" by (rule runnable_bound)
  have new: "d \<in> set ?new \<longleftrightarrow> edge t tk d \<and> predecessors (ot_nodes t ! d) = 1" for d
    using lt by (auto simp: edge_def)
  have e: "unfinished t d \<and> d \<noteq> tk \<and> \<not> runnable t d" if "edge t tk d" for d
    using graph_okD(2,4) [OF g that] runnable_no_edge [OF g] that by auto
  have runn: "runnable t' j \<longleftrightarrow> runnable t j \<and> j \<noteq> tk \<or> j \<in> set ?new" for j
  proof (cases "unfinished t' j")
    case True
    then show ?thesis
      using complete_postD(5) [OF post True] unf [of j] e [of j] unfolding new
      by (auto simp: runnable_def)
  next
    case False
    then show ?thesis using unf [of j] e [of j] unfolding new by (auto simp: runnable_def)
  qed
  show "length (ot_nodes t') = length h"
    using complete_postD(2) [OF post] queue_okD(1) [OF q] by simp
  show "ot_blocked t' j = (if unfinished t' j \<and> \<not> runnable t' j then Some (h ! j) else None)" for j
    using complete_postD(7) [OF post, of j] queue_okD(2) [OF q, of j] unf [of j] runn [of j] e [of j] run_tk
    unfolding new by auto
  have ready: "map fst (ot_ready t') = map fst (ot_ready t) @ ?new"
    by (simp add: complete_postD(8) [OF post] comp_def)
  have "set ?new \<inter> {j. runnable t j} = {}" using e new by auto
  then show "distinct (map fst (ot_ready t') @ remove1 tk run)"
    using queue_okD(3,4) [OF q] graph_okD(1) [OF g lt] set_remove1_subset [of tk run]
    unfolding ready by (auto simp: distinct_remove1)
  show "set (map fst (ot_ready t')) \<union> set (remove1 tk run) = {j. runnable t' j}"
  proof -
    have "set (remove1 tk run) = set run - {tk}" and "tk \<notin> set (map fst (ot_ready t))"
      using queue_okD(3) [OF q] tk by auto
    then have "set (map fst (ot_ready t)) \<union> set (remove1 tk run) = {j. runnable t j} - {tk}"
      using queue_okD(4) [OF q] by blast
    then show ?thesis unfolding ready runn set_append by blast
  qed
  have "r = h ! j" if "(j, r) \<in> set (ot_ready t')" for j r
  proof (cases "j \<in> set ?new \<and> r = the (ot_blocked t j)")
    case True
    then have "edge t tk j" using new by blast
    with True show ?thesis using queue_okD(2) [OF q, of j] e [of j] by simp
  next
    case False
    then have "(j, r) \<in> set (ot_ready t)" using that by (auto simp: complete_postD(8) [OF post])
    then show ?thesis by (rule queue_okD(5) [OF q])
  qed
  then show "\<forall>(j, r) \<in> set (ot_ready t'). r = h ! j" by blast
qed

lemma chain_ok_complete:
  assumes g: "graph_ok t" and post: "complete_post tk t t'" and tk: "runnable t tk" and c: "chain_ok h t"
  shows "chain_ok h t'"
proof -
  note edg = complete_post_edge [OF g post]
  have "(edge t')\<^sup>+\<^sup>+ i j" if "(edge t)\<^sup>+\<^sup>+ i j" "i \<noteq> tk" for i j
    using that
  proof (induction rule: tranclp_induct)
    case (step y z)
    then have "y \<noteq> tk" using runnable_no_path [OF g tk] by auto
    with step show ?case using edg by (auto intro: tranclp.trancl_into_trancl)
  qed (auto simp: edg)
  then show ?thesis
    using c complete_postD(3) [OF post] by (simp add: chain_ok_def)
qed

lemma frontier_ok_complete: "complete_post tk t t' \<Longrightarrow> frontier_ok h t \<Longrightarrow> frontier_ok h t'"
  using complete_postD(1,3) [of tk t t'] by (simp add: frontier_ok_def)

lemma log_ok_complete:
  assumes g: "graph_ok t" and post: "complete_post tk t t'" and tk: "runnable t tk"
    and n: "length (ot_nodes t) = length h" and c: "chain_ok h t" and l: "log_ok h t log"
  shows "log_ok h t' (log @ [tk])"
proof -
  have lt: "tk < length h" and unf: "unfinished t tk"
    using tk n by (auto simp: runnable_def unfinished_def)
  have "before_in (log @ [tk]) i j" if ij: "i < j" "j \<in> set (log @ [tk])" "conflict (h ! i) (h ! j)" for i j
  proof (cases "j = tk")
    case True
    then have "\<not> unfinished t i"
      using chain_okD [OF c, of i tk] ij lt runnable_no_path [OF g tk] by auto
    then have "i \<in> set log" using log_okD(2) [OF l] ij True lt by simp
    then show ?thesis using True before_in_snoc by simp
  next
    case False
    then have "j \<in> set log" using ij by simp
    then show ?thesis using log_okD(3) [OF l ij(1) _ ij(3)] by (intro before_in_appendI) simp
  qed
  moreover have "distinct (log @ [tk])" using log_okD(1,2) [OF l] unf by simp
  moreover have "set (log @ [tk]) = {i. i < length h \<and> \<not> unfinished t' i}"
    using log_okD(2) [OF l] lt by (auto simp: complete_postD(3) [OF post])
  ultimately show ?thesis
    unfolding log_ok_def by blast
qed

lemma ot_inv_complete:
  assumes "ot_inv h t run log" and tk: "tk \<in> set run"
  shows "\<exists>m t'. ot_complete tk t = Some (m, t') \<and> ot_inv h t' (remove1 tk run) (log @ [tk]) \<and>
    length (ot_ready t') = length (ot_ready t) + m"
proof -
  have inv: "graph_ok t" "queue_ok h t run" "chain_ok h t" "frontier_ok h t" "log_ok h t log"
    using assms(1) by (auto simp: ot_inv_def)
  have r: "runnable t tk" using queue_okD(4) [OF inv(2)] tk by auto
  obtain m t' where t': "ot_complete tk t = Some (m, t')" "complete_post tk t t'"
      "length (ot_ready t') = length (ot_ready t) + m"
  proof -
    obtain t' where c: "ot_complete tk t =
        Some (length (filter (\<lambda>d. predecessors (ot_nodes t ! d) = 1) (dependents (ot_nodes t ! tk))), t')"
      "complete_post tk t t'"
      using ot_complete_eq [OF inv(1,2) r] by blast
    show thesis by (rule that [OF c]) (subst complete_postD(8) [OF c(2)], simp)
  qed
  show ?thesis
    using t' graph_ok_complete [OF inv(1) t'(2) r] queue_ok_complete [OF inv(1) t'(2) inv(2) tk]
      chain_ok_complete [OF inv(1) t'(2) r inv(3)] frontier_ok_complete [OF t'(2) inv(4)]
      log_ok_complete [OF inv(1) t'(2) r queue_okD(1) [OF inv(2)] inv(3,5)]
    unfolding ot_inv_def by blast
qed

section \<open>Dispatch and reset\<close>

lemma ot_inv_take:
  assumes "ot_inv h t run log" and "ot_take_ready t = (Some (tk, r), t')"
  shows "ot_inv h t' (tk # run) log" and "r = h ! tk" and "tk < length h"
proof -
  obtain rest where rest: "ot_ready t = (tk, r) # rest" "t' = t\<lparr>ot_ready := rest\<rparr>"
    using assms(2) by (auto simp: ot_take_ready_def split: list.splits)
  have same: "ot_nodes t' = ot_nodes t" "ot_accounts t' = ot_accounts t" "ot_blocked t' = ot_blocked t"
      "ot_outstanding t' = ot_outstanding t" "ot_ready t' = rest"
    by (simp_all add: rest(2))
  have eq: "unfinished t' = unfinished t" "edge t' = edge t" "runnable t' = runnable t"
    by (auto simp: fun_eq_iff unfinished_def edge_def runnable_def same)
  have q: "queue_ok h t run" using assms(1) by (simp add: ot_inv_def)
  have "queue_ok h t' (tk # run)"
    using q unfolding queue_ok_def eq same rest(1) by simp
  then show "ot_inv h t' (tk # run) log"
    using assms(1) unfolding ot_inv_def graph_ok_def chain_ok_def frontier_ok_def log_ok_def eq same by simp
  show "r = h ! tk" using queue_okD(5) [OF q] rest(1) by simp
  have "runnable t tk" using queue_ok_ready_runnable [OF q, of tk r] rest(1) by simp
  then show "tk < length h" using runnable_bound queue_okD(1) [OF q] by metis
qed

lemma ot_inv_empty: "ot_inv [] ot_empty [] []"
  by (simp add: ot_inv_def ot_empty_def graph_ok_def queue_ok_def chain_ok_def frontier_ok_def log_ok_def
      edge_def unfinished_def runnable_def frontier_of_def default_frontier_def frontier_in_range_def
      COMPLETE_def usize_bound_def)

lemma ot_inv_drained:
  assumes "ot_inv h t run log" and "ot_is_empty t"
  shows "run = []" and "ot_ready t = []" and "ot_blocked t = Map.empty" and "set log = {..<length h}"
proof -
  have inv: "graph_ok t" "queue_ok h t run" "log_ok h t log"
    using assms(1) by (auto simp: ot_inv_def)
  have none: "\<not> unfinished t i" for i
    using graph_okD(7) [OF inv(1)] assms(2) finite_unfinished [of t] by (auto simp: ot_is_empty_def)
  then have "set (map fst (ot_ready t)) \<union> set run = {}"
    using queue_okD(4) [OF inv(2)] by (simp add: runnable_def)
  then show "run = []" "ot_ready t = []" by auto
  show "ot_blocked t = Map.empty" using queue_okD(2) [OF inv(2)] none by auto
  show "set log = {..<length h}" using log_okD(2) [OF inv(3)] none by auto
qed

lemma ot_reset_drained:
  assumes "ot_inv h t run log" and "ot_is_empty t"
  shows "ot_reset t = ot_empty"
  using assms(2) by (simp add: ot_reset_def ot_empty_def ot_is_empty_def)

end
