(* ===== verification/Ordering_Serial.thy ===== *)
theory Ordering_Serial
  imports Ordering_Safety "HOL-Library.Multiset"
begin

text \<open>
  The ordering table as a transition system, and what it promises the engine. A run registers
  requests, takes ready ones, completes taken ones in any order the executors like, and resets
  the table once it is drained. The interface \<open>ordered_scheduler\<close> states the part of that
  promise the serialization argument needs; the reachable tables provide it.
\<close>

section \<open>Runs of the table\<close>

inductive ot_reach :: "request list \<Rightarrow> ordering_table \<Rightarrow> ticket list \<Rightarrow> ticket list \<Rightarrow> bool" where
  ot_init: "ot_reach [] ot_empty [] []"
| ot_reg: "ot_reach h t run log \<Longrightarrow> distinct (req_keys r) \<Longrightarrow> Suc (length h) < COMPLETE \<Longrightarrow>
    ot_register r t = Some (b, t') \<Longrightarrow> ot_reach (h @ [r]) t' run log"
| ot_take: "ot_reach h t run log \<Longrightarrow> ot_take_ready t = (Some (tk, r), t') \<Longrightarrow> ot_reach h t' (tk # run) log"
| ot_done: "ot_reach h t run log \<Longrightarrow> tk \<in> set run \<Longrightarrow> ot_complete tk t = Some (m, t') \<Longrightarrow>
    ot_reach h t' (remove1 tk run) (log @ [tk])"
| ot_rst: "ot_reach h t run log \<Longrightarrow> ot_is_empty t \<Longrightarrow> ot_reach [] (ot_reset t) [] []"

lemma ot_reach_inv: "ot_reach h t run log \<Longrightarrow> ot_inv h t run log"
proof (induction rule: ot_reach.induct)
  case (ot_reg h t run log r b t')
  then show ?case using ot_inv_register [OF ot_reg.IH ot_reg.hyps(2,3)] by auto
next
  case (ot_take h t run log tk r t')
  then show ?case using ot_inv_take(1) by blast
next
  case (ot_done h t run log tk m t')
  then show ?case using ot_inv_complete [OF ot_done.IH ot_done.hyps(2)] by auto
next
  case (ot_rst h t run log)
  then show ?case using ot_reset_drained ot_inv_empty by simp
qed (rule ot_inv_empty)

lemma ot_reach_graph: "ot_reach h t run log \<Longrightarrow> graph_ok t"
  and ot_reach_queue: "ot_reach h t run log \<Longrightarrow> queue_ok h t run"
  and ot_reach_chain: "ot_reach h t run log \<Longrightarrow> chain_ok h t"
  and ot_reach_log: "ot_reach h t run log \<Longrightarrow> log_ok h t log"
  using ot_reach_inv unfolding ot_inv_def by blast+

section \<open>Serialization from conflict order\<close>

lemma before_in_filter:
  assumes "before_in xs i j" "P i" "P j"
  shows "before_in (filter P xs) i j"
proof -
  obtain us vs ws where "xs = us @ i # vs @ j # ws" using assms(1) by (auto simp: before_in_def)
  then have "filter P xs = filter P us @ i # filter P vs @ j # filter P ws" using assms(2,3) by simp
  then show ?thesis unfolding before_in_def by blast
qed

lemma before_in_split:
  assumes "distinct (us @ m # vs)" "before_in (us @ m # vs) v m"
  shows "v \<notin> set vs"
proof -
  obtain as bs cs where eq: "us @ m # vs = (as @ v # bs) @ m # cs" using assms(2) by (auto simp: before_in_def)
  then have "us = as @ v # bs"
    using assms(1) by (subst (asm) append_Cons_eq_iff) auto
  then show ?thesis using assms(1) by auto
qed

lemma fold_move_last:
  assumes "\<And>v x. v \<in> set vs \<Longrightarrow> f v (f m x) = f m (f v x)"
  shows "fold f (m # vs) s = fold f (vs @ [m]) s"
  using assms by (induction vs arbitrary: s) simp_all

lemma sort_snoc_max: "\<forall>x \<in> set xs. x \<le> m \<Longrightarrow> sort (xs @ [m]) = sort xs @ [m :: nat]"
  by (rule properties_for_sort) (auto simp: sorted_append)

locale ordered_scheduler =
  fixes sched :: "'r list \<Rightarrow> nat list \<Rightarrow> nat list \<Rightarrow> bool" and confl :: "'r \<Rightarrow> 'r \<Rightarrow> bool"
  assumes sched_distinct: "sched h run log \<Longrightarrow> distinct log"
    and sched_bound: "sched h run log \<Longrightarrow> set log \<subseteq> {..<length h}"
    and sched_order: "sched h run log \<Longrightarrow> i < j \<Longrightarrow> j \<in> set log \<Longrightarrow> confl (h ! i) (h ! j) \<Longrightarrow> before_in log i j"
    and sched_run: "sched h run log \<Longrightarrow> i \<in> set run \<Longrightarrow> j \<in> set run \<Longrightarrow> i < j \<Longrightarrow> \<not> confl (h ! i) (h ! j)"
begin

definition order_kept :: "'r list \<Rightarrow> nat list \<Rightarrow> bool" where
  "order_kept h log \<longleftrightarrow> distinct log \<and>
     (\<forall>i j. i < j \<and> i \<in> set log \<and> j \<in> set log \<and> confl (h ! i) (h ! j) \<longrightarrow> before_in log i j)"

lemma sched_kept: "sched h run log \<Longrightarrow> order_kept h log"
  using sched_distinct sched_order unfolding order_kept_def by blast

lemma order_kept_filter: "order_kept h log \<Longrightarrow> order_kept h (filter P log)"
  by (auto simp: order_kept_def intro: before_in_filter)

lemma kept_serial:
  assumes "order_kept h log"
    and comm: "\<And>i j s. i < j \<Longrightarrow> \<not> confl (h ! i) (h ! j) \<Longrightarrow> f i (f j s) = f j (f i s)"
  shows "fold f log s = fold f (sort log) s"
  using assms(1)
proof (induction "length log" arbitrary: log s)
  case (Suc n)
  define m where "m = Max (set log)"
  have ne: "set log \<noteq> {}" using Suc.hyps(2) by auto
  then have "m \<in> set log" unfolding m_def by (intro Max_in) auto
  then obtain us vs where log: "log = us @ m # vs" by (auto dest: split_list)
  have d: "distinct (us @ m # vs)" using Suc.prems log by (simp add: order_kept_def)
  have max: "x < m" if "x \<in> set (us @ vs)" for x
  proof -
    have "x \<in> set log" using that log by auto
    then have "x \<le> m" unfolding m_def by (intro Max_ge) simp_all
    moreover have "x \<noteq> m" using that d by auto
    ultimately show ?thesis by simp
  qed
  have rest: "us @ vs = filter (\<lambda>x. x \<noteq> m) log"
  proof -
    have "filter (\<lambda>x. x \<noteq> m) us = us" "filter (\<lambda>x. x \<noteq> m) vs = vs"
      using d by (auto intro!: filter_True)
    then show ?thesis by (simp add: log)
  qed
  have "order_kept h (us @ vs)"
    unfolding rest using Suc.prems by (rule order_kept_filter)
  moreover have "n = length (us @ vs)" using Suc.hyps(2) log by simp
  ultimately have IH: "fold f (us @ vs) s = fold f (sort (us @ vs)) s" by (rule Suc.hyps(1) [rotated])
  have "f v (f m x) = f m (f v x)" if "v \<in> set vs" for v x
  proof (rule comm)
    show "v < m" using max that by simp
    show "\<not> confl (h ! v) (h ! m)"
      using before_in_split [OF d, of v] that \<open>v < m\<close> Suc.prems log by (auto simp: order_kept_def)
  qed
  then have "fold f log s = fold f ((us @ vs) @ [m]) s"
    using fold_move_last [of vs f m] log by simp
  also have "\<dots> = fold f (sort (us @ vs) @ [m]) s" using IH by simp
  also have "sort (us @ vs) @ [m] = sort ((us @ vs) @ [m])"
    using max by (intro sort_snoc_max [symmetric]) (simp add: less_imp_le)
  also have "\<dots> = sort log" unfolding log by (rule properties_for_sort [symmetric]) (auto simp: mset_sort)
  finally show ?case .
qed simp

end

interpretation ot: ordered_scheduler "\<lambda>h run log. \<exists>t. ot_reach h t run log" conflict
proof unfold_locales
  fix h run log i j
  assume "\<exists>t. ot_reach h t run log"
  then obtain t where t: "ot_reach h t run log" by blast
  note l = ot_reach_log [OF t] and q = ot_reach_queue [OF t] and g = ot_reach_graph [OF t]
  show "distinct log" "set log \<subseteq> {..<length h}" using log_okD(1,2) [OF l] by auto
  show "before_in log i j" if "i < j" "j \<in> set log" "conflict (h ! i) (h ! j)"
    using log_okD(3) [OF l that] .
  show "\<not> conflict (h ! i) (h ! j)" if ij: "i \<in> set run" "j \<in> set run" "i < j"
  proof
    assume c: "conflict (h ! i) (h ! j)"
    have r: "runnable t i" "runnable t j" using queue_okD(4) [OF q] ij by auto
    then have "(edge t)\<^sup>+\<^sup>+ i j"
      using chain_okD [OF ot_reach_chain [OF t] ij(3) _ _ c] queue_okD(1) [OF q] runnable_bound [OF r(2)]
      by (simp add: runnable_def)
    then show False using runnable_no_path [OF g r(2)] by blast
  qed
qed

section \<open>Execution over account states\<close>

text \<open>
  An execution of a request may change only the accounts it declares writable, and what it
  writes depends only on the accounts it declares.
\<close>

definition effect_framed :: "(request \<Rightarrow> (pubkey \<Rightarrow> 'v) \<Rightarrow> pubkey \<Rightarrow> 'v) \<Rightarrow> bool" where
  "effect_framed exec \<longleftrightarrow>
     (\<forall>r s k. \<not> writes r k \<longrightarrow> exec r s k = s k) \<and>
     (\<forall>r s s' k. (\<forall>k'. accesses r k' \<longrightarrow> s k' = s' k') \<and> writes r k \<longrightarrow> exec r s k = exec r s' k)"

lemma framed_commute:
  assumes "effect_framed exec" and nc: "\<not> conflict r r'"
  shows "exec r (exec r' s) = exec r' (exec r s)"
proof -
  have keep: "exec q x k = x k" if "\<not> writes q k" for q x k
    using assms(1) that by (simp add: effect_framed_def)
  have half: "exec a (exec b s) k = exec b (exec a s) k" if "\<not> conflict a b" "writes a k" for a b k
  proof -
    have "\<not> writes b k'" if "accesses a k'" for k'
      using that \<open>\<not> conflict a b\<close> writes_accesses conflictI by blast
    then have "\<forall>k'. accesses a k' \<longrightarrow> exec b s k' = s k'" and nb: "\<not> writes b k"
      using keep writes_accesses [OF that(2)] by auto
    then have "exec a (exec b s) k = exec a s k"
      using assms(1) that(2) unfolding effect_framed_def by blast
    then show ?thesis using keep [OF nb] by simp
  qed
  show ?thesis
  proof
    fix k
    show "exec r (exec r' s) k = exec r' (exec r s) k"
      using half [OF nc, of k] half [of r' r k] nc conflict_sym keep by metis
  qed
qed

lemma fold_nth_upt: "fold (\<lambda>i. f (h ! i)) [0..<length h] s = fold f h s"
proof -
  have "fold (\<lambda>i. f (h ! i)) [0..<length h] s = fold f (map ((!) h) [0..<length h]) s"
    by (simp add: fold_map comp_def)
  then show ?thesis by (simp add: map_nth)
qed

section \<open>Scripted runs\<close>

text \<open>A run given as a list of operations, for evaluating the table on concrete requests.\<close>

datatype ot_op = Reg request | Take | Done ticket

fun ot_step :: "ot_op \<Rightarrow> request list \<times> ordering_table \<times> ticket list \<times> ticket list \<Rightarrow>
    (request list \<times> ordering_table \<times> ticket list \<times> ticket list) option" where
  "ot_step (Reg r) (h, t, run, log) =
     (if distinct (req_keys r) \<and> Suc (length h) < COMPLETE
      then (case ot_register r t of None \<Rightarrow> None | Some (b, t') \<Rightarrow> Some (h @ [r], t', run, log)) else None)"
| "ot_step Take (h, t, run, log) =
     (case ot_take_ready t of (None, t') \<Rightarrow> None | (Some (tk, r), t') \<Rightarrow> Some (h, t', tk # run, log))"
| "ot_step (Done tk) (h, t, run, log) =
     (if tk \<in> set run
      then (case ot_complete tk t of None \<Rightarrow> None | Some (m, t') \<Rightarrow> Some (h, t', remove1 tk run, log @ [tk]))
      else None)"

fun ot_script :: "ot_op list \<Rightarrow> request list \<times> ordering_table \<times> ticket list \<times> ticket list \<Rightarrow>
    (request list \<times> ordering_table \<times> ticket list \<times> ticket list) option" where
  "ot_script [] st = Some st"
| "ot_script (p # ps) st = do { st' \<leftarrow> ot_step p st; ot_script ps st' }"

lemma ot_step_reach:
  assumes "ot_reach h t run log" "ot_step p (h, t, run, log) = Some (h', t', run', log')"
  shows "ot_reach h' t' run' log'"
  using assms by (cases p) (auto split: if_splits option.splits prod.splits intro: ot_reach.intros)

lemma ot_script_reach:
  "ot_reach h t run log \<Longrightarrow> ot_script ps (h, t, run, log) = Some (h', t', run', log') \<Longrightarrow> ot_reach h' t' run' log'"
proof (induction ps arbitrary: h t run log)
  case (Cons p ps)
  then obtain st where "ot_step p (h, t, run, log) = Some st" "ot_script ps st = Some (h', t', run', log')"
    by (auto simp: bind_eq_Some_conv)
  then show ?case using Cons.IH ot_step_reach [OF Cons.prems(1)] by (cases st) blast
qed simp

definition key_write :: "u8 \<Rightarrow> request" where
  "key_write b = \<lparr>req_keys = [[b]], req_is_writable = (\<lambda>_. True), req_signature = []\<rparr>"

lemmas ot_eval = ot_empty_def ot_register_def register_account_def take_if_complete_def ot_take_ready_def
  ot_complete_def default_frontier_def COMPLETE_def usize_bound_def key_write_def nth_opt_def Let_def

lemma script_two_writers:
  "\<exists>t. ot_reach [key_write 1, key_write 2, key_write 1] t [] [1, 0, 2] \<and> ot_is_empty t"
proof -
  have "\<exists>t. ot_script [Reg (key_write 1), Reg (key_write 2), Reg (key_write 1), Take, Take, Done 1, Done 0, Take, Done 2]
      ([], ot_empty, [], []) = Some ([key_write 1, key_write 2, key_write 1], t, [], [1, 0, 2]) \<and> ot_is_empty t"
    by (simp add: ot_eval ot_is_empty_def)
  then show ?thesis using ot_script_reach [OF ot_init] by blast
qed

lemma script_running:
  "\<exists>t. ot_reach [key_write 1, key_write 2, key_write 1] t [1, 0] [] \<and> ot_outstanding t = 3"
proof -
  have "\<exists>t. ot_script [Reg (key_write 1), Reg (key_write 2), Reg (key_write 1), Take, Take]
      ([], ot_empty, [], []) = Some ([key_write 1, key_write 2, key_write 1], t, [1, 0], []) \<and> ot_outstanding t = 3"
    by (simp add: ot_eval)
  then show ?thesis using ot_script_reach [OF ot_init] by blast
qed

section \<open>What the table guarantees\<close>

lemma drained_log:
  assumes "ot_reach h t run log" "ot_is_empty t"
  shows "sort log = [0..<length h]"
  using ot_inv_drained(4) [OF ot_reach_inv [OF assms(1)] assms(2)] log_okD(1) [OF ot_reach_log [OF assms(1)]]
  by (intro sorted_distinct_set_unique) (auto simp: atLeast0LessThan)

text \<open>
  C1. Deterministic parallel execution: whenever the table has drained, executing the requests
  in the order in which the executors completed them leaves every account as executing them one
  by one in the order of the input stream, for every execution function that changes only the
  accounts a request declares writable and reads only the accounts it declares.
\<close>

theorem ot_serializable:
  assumes "ot_reach h t run log" and "ot_is_empty t" and "effect_framed exec"
  shows "fold (\<lambda>i. exec (h ! i)) log s = fold exec h s"
proof -
  have "fold (\<lambda>i. exec (h ! i)) log s = fold (\<lambda>i. exec (h ! i)) (sort log) s"
    using framed_commute [OF assms(3)]
    by (intro ot.kept_serial [OF ot.sched_kept [of h run log]] exI [of _ t] assms(1)) blast
  then show ?thesis by (simp add: drained_log [OF assms(1,2)] fold_nth_upt)
qed

definition bump :: "request \<Rightarrow> (pubkey \<Rightarrow> nat) \<Rightarrow> pubkey \<Rightarrow> nat" where
  "bump r s k = (if writes r k then 2 * s k + 1 else s k)"

lemma bump_framed: "effect_framed bump"
  by (auto simp: effect_framed_def bump_def dest: writes_accesses)

theorem ot_serializable_witness:
  "fold (\<lambda>i. bump ([key_write 1, key_write 2, key_write 1] ! i)) [1, 0, 2] (\<lambda>_. 0)
    = fold bump [key_write 1, key_write 2, key_write 1] (\<lambda>_. 0)"
proof -
  obtain t where t: "ot_reach [key_write 1, key_write 2, key_write 1] t [] [1, 0, 2]" "ot_is_empty t"
    using script_two_writers by blast
  show ?thesis by (rule ot_serializable [OF t bump_framed])
qed

text \<open>
  C2. Conflicting requests complete in input order: in the completion log of every reachable
  table, a request is preceded by every earlier request it conflicts with.
\<close>

theorem ot_conflict_order:
  assumes "ot_reach h t run log" "i < j" "j \<in> set log" "conflict (h ! i) (h ! j)"
  shows "before_in log i j"
  using ot.sched_order assms by blast

theorem ot_conflict_order_witness: "before_in [1, 0, 2 :: nat] 0 2"
proof -
  have "conflict ([key_write 1, key_write 2, key_write 1] ! 0) ([key_write 1, key_write 2, key_write 1] ! 2)"
    by (auto simp: conflict_def accesses_def writes_def key_write_def)
  moreover obtain t where t: "ot_reach [key_write 1, key_write 2, key_write 1] t [] [1, 0, 2]"
    using script_two_writers by blast
  ultimately show ?thesis by (intro ot_conflict_order [OF t]) simp_all
qed

text \<open>
  C3. Requests handed to executors at the same time never conflict: two running requests have no
  account in common that one of them writes.
\<close>

theorem ot_running_disjoint:
  assumes "ot_reach h t run log" "i \<in> set run" "j \<in> set run" "i \<noteq> j"
  shows "\<not> conflict (h ! i) (h ! j)"
proof (cases "i < j")
  case True
  then show ?thesis using ot.sched_run [of h run log i j] assms(1-3) by blast
next
  case False
  then have "\<not> conflict (h ! j) (h ! i)" using ot.sched_run [of h run log j i] assms by force
  then show ?thesis by (simp add: conflict_sym)
qed

theorem ot_running_disjoint_witness:
  "\<not> conflict ([key_write 1, key_write 2, key_write 1] ! 0) ([key_write 1, key_write 2, key_write 1] ! 1)"
proof -
  obtain t where t: "ot_reach [key_write 1, key_write 2, key_write 1] t [1, 0] []" using script_running by blast
  show ?thesis by (rule ot_running_disjoint [OF t]) simp_all
qed

text \<open>
  C4. No operation panics on a reachable table: registering a request with distinct keys
  succeeds, and completing any running ticket succeeds and reports exactly the number of
  requests it appends to the ready queue.
\<close>

theorem ot_no_panic:
  assumes "ot_reach h t run log"
  shows "(distinct (req_keys r) \<and> Suc (length h) < COMPLETE \<longrightarrow> ot_register r t \<noteq> None) \<and>
    (\<forall>tk \<in> set run. \<exists>m t'. ot_complete tk t = Some (m, t') \<and> length (ot_ready t') = length (ot_ready t) + m)"
  using ot_inv_register [OF ot_reach_inv [OF assms]] ot_inv_complete [OF ot_reach_inv [OF assms]] by blast

theorem ot_no_panic_witness:
  "\<exists>t. ot_reach [key_write 1, key_write 2, key_write 1] t [1, 0] [] \<and> ot_register (key_write 3) t \<noteq> None
     \<and> (\<exists>m t'. ot_complete 0 t = Some (m, t') \<and> length (ot_ready t') = length (ot_ready t) + m)"
proof -
  obtain t where t: "ot_reach [key_write 1, key_write 2, key_write 1] t [1, 0] []" using script_running by blast
  show ?thesis
    using t ot_no_panic [OF t, of "key_write 3"]
    by (intro exI [of _ t]) (simp add: key_write_def COMPLETE_def usize_bound_def)
qed

lemma outstanding_ready_or_running:
  assumes "ot_reach h t run log" and "0 < ot_len t"
  shows "ot_ready t \<noteq> [] \<or> run \<noteq> []"
proof -
  note g = ot_reach_graph [OF assms(1)] and q = ot_reach_queue [OF assms(1)]
  have ne: "{i. unfinished t i} \<noteq> {}"
    using graph_okD(7) [OF g] assms(2) by (auto simp: ot_len_def card_gt_0_iff)
  define i where "i = Min {i. unfinished t i}"
  have i: "unfinished t i" and least: "\<And>j. unfinished t j \<Longrightarrow> i \<le> j"
    using Min_in [OF finite_unfinished ne] Min_le [OF finite_unfinished] by (auto simp: i_def)
  have "\<not> edge t j i" for j
    using graph_okD(2,3) [OF g, of j i] least [of j] by auto
  then have "runnable t i" using graph_okD(5) [OF g i] i by (simp add: runnable_def)
  then show ?thesis using queue_okD(4) [OF q] by auto
qed

text \<open>
  C5. Progress: while a request is outstanding, some request is ready or running, so the
  sequencer that waits for completions is never stuck.
\<close>

theorem ot_progress:
  assumes "ot_reach h t run log" and "0 < ot_len t"
  shows "ot_ready t \<noteq> [] \<or> run \<noteq> []"
  by (rule outstanding_ready_or_running [OF assms])

theorem ot_progress_witness:
  "\<exists>t run. ot_reach [key_write 1, key_write 2, key_write 1] t run [] \<and> 0 < ot_len t \<and> (ot_ready t \<noteq> [] \<or> run \<noteq> [])"
proof -
  obtain t where t: "ot_reach [key_write 1, key_write 2, key_write 1] t [1, 0] []" "ot_outstanding t = 3"
    using script_running by blast
  have len: "0 < ot_len t" using t(2) by (simp add: ot_len_def)
  show ?thesis using ot_progress [OF t(1) len] t(1) len by blast
qed

text \<open>
  C6. Maximal parallelism: registration reports a request blocked exactly when some earlier
  request that has not completed conflicts with it.
\<close>

theorem ot_register_blocked_iff:
  assumes "ot_reach h t run log" "distinct (req_keys r)" "Suc (length h) < COMPLETE" "ot_register r t = Some (b, t')"
  shows "b \<longleftrightarrow> (\<exists>i<length h. i \<notin> set log \<and> conflict (h ! i) r)"
  using ot_inv_register [OF ot_reach_inv [OF assms(1)] assms(2,3)] assms(4) by auto

theorem ot_register_blocked_iff_witness:
  "\<exists>t b t'. ot_register (key_write 2) t = Some (b, t') \<and> b"
proof -
  obtain t where t: "ot_reach [key_write 1, key_write 2, key_write 1] t [1, 0] []" using script_running by blast
  have k: "distinct (req_keys (key_write 2))" "Suc (length [key_write 1, key_write 2, key_write 1]) < COMPLETE"
    by (simp_all add: key_write_def COMPLETE_def usize_bound_def)
  then obtain b t' where b: "ot_register (key_write 2) t = Some (b, t')"
    using ot_inv_register [OF ot_reach_inv [OF t]] by blast
  have "conflict ([key_write 1, key_write 2, key_write 1] ! 1) (key_write 2)"
    by (auto simp: conflict_def accesses_def writes_def key_write_def)
  then have b using ot_register_blocked_iff [OF t k b] by (auto intro!: exI [of _ 1])
  then show ?thesis using b by blast
qed

end
