(* ===== verification/Keeper_Cache.thy ===== *)
theory Keeper_Cache
  imports Prelude "HOL-Library.Code_Target_Numeral"
begin

text \<open>
  The read-side caches of the keeper and transaction admission:
  \<^verbatim>\<open>keeper/src/cache.rs\<close> (\<^verbatim>\<open>ExpiringCache\<close>, \<^verbatim>\<open>BlocksCache\<close>, \<^verbatim>\<open>Caches\<close>),
  \<^verbatim>\<open>TransactionsAccessor::append\<close> and the block accessors of \<^verbatim>\<open>keeper/src/accessor.rs\<close>, and the
  block record of \<^verbatim>\<open>nucleus/src/ledger.rs\<close>. Slots are \<^verbatim>\<open>u64\<close>, kept as natural numbers with the
  overflowing addition \<open>None\<close>. The theory shows that the cache keeps its index and its expiry
  queue in step, that an entry survives every push before its expiry slot, and that a
  transaction is admitted at most once as long as signatures outlive block hashes.
\<close>

section \<open>Blocks\<close>

type_synonym slot = nat
type_synonym hash = bytes

record block =
  blk_slot :: slot
  blk_hash :: hash
  blk_time :: int
  blk_parent :: hash

section \<open>The expiring cache\<close>

definition EVICTION_LIMIT :: nat where
  "EVICTION_LIMIT = 16"

record 'k expiring_record =
  xr_key :: 'k
  xr_expires :: slot

record ('k, 'v) expiring_cache =
  xc_index :: "'k \<rightharpoonup> 'v"
  xc_queue :: "'k expiring_record list"
  xc_ttl :: slot

definition xr_expired :: "'k expiring_record \<Rightarrow> slot \<Rightarrow> bool" where
  "xr_expired r instant \<longleftrightarrow> xr_expires r \<le> instant"

definition xc_new :: "slot \<Rightarrow> ('k, 'v) expiring_cache" where
  "xc_new ttl = \<lparr>xc_index = Map.empty, xc_queue = [], xc_ttl = ttl\<rparr>"

text \<open>The bounded sweep at the head of a push: at most \<open>n\<close> expired entries leave the cache.\<close>

fun xc_evict :: "nat \<Rightarrow> slot \<Rightarrow> ('k, 'v) expiring_cache \<Rightarrow> ('k, 'v) expiring_cache" where
  "xc_evict 0 slot c = c"
| "xc_evict (Suc n) slot c =
     (case xc_queue c of
        [] \<Rightarrow> c
      | expired # rest \<Rightarrow>
          if xr_expired expired slot
          then xc_evict n slot (c\<lparr>xc_index := (xc_index c)(xr_key expired := None), xc_queue := rest\<rparr>)
          else c)"

definition xc_push :: "'k \<Rightarrow> 'v \<Rightarrow> slot \<Rightarrow> ('k, 'v) expiring_cache \<Rightarrow> (bool \<times> ('k, 'v) expiring_cache) option" where
  "xc_push key v slot c =
     (let c' = xc_evict EVICTION_LIMIT slot c in
      case xc_index c' key of
        Some _ \<Rightarrow> Some (False, c')
      | None \<Rightarrow> do {
          expires \<leftarrow> checked_add slot (xc_ttl c');
          Some (True, c'\<lparr>xc_index := (xc_index c')(key \<mapsto> v),
                         xc_queue := xc_queue c' @ [\<lparr>xr_key = key, xr_expires = expires\<rparr>]\<rparr>)
        })"

definition xc_get :: "'k \<Rightarrow> ('k, 'v) expiring_cache \<Rightarrow> 'v option" where
  "xc_get key c = xc_index c key"

definition xc_contains :: "'k \<Rightarrow> ('k, 'v) expiring_cache \<Rightarrow> bool" where
  "xc_contains key c \<longleftrightarrow> xc_index c key \<noteq> None"

definition xc_update :: "'k \<Rightarrow> 'v \<Rightarrow> ('k, 'v) expiring_cache \<Rightarrow> ('k, 'v) expiring_cache" where
  "xc_update key v c =
     (case xc_index c key of
        None \<Rightarrow> c
      | Some _ \<Rightarrow> c\<lparr>xc_index := (xc_index c)(key \<mapsto> v)\<rparr>)"

section \<open>The caches of the keeper\<close>

record blocks_cache =
  bc_latest :: block
  bc_history :: "(hash, slot) expiring_cache"

record 'st caches =
  ch_signatures :: "(bytes, 'st option) expiring_cache"
  ch_blocks :: blocks_cache

definition bc_new :: "block \<Rightarrow> slot \<Rightarrow> blocks_cache" where
  "bc_new latest ttl = \<lparr>bc_latest = latest, bc_history = xc_new ttl\<rparr>"

definition bc_push :: "block \<Rightarrow> blocks_cache \<Rightarrow> blocks_cache option" where
  "bc_push block bc = do {
     (_, h) \<leftarrow> xc_push (blk_hash block) (blk_slot block) (blk_slot block) (bc_history bc);
     Some \<lparr>bc_latest = block, bc_history = h\<rparr>
   }"

definition caches_new :: "block \<Rightarrow> slot \<Rightarrow> slot \<Rightarrow> 'st caches" where
  "caches_new latest block_ttl signature_ttl =
     \<lparr>ch_signatures = xc_new signature_ttl, ch_blocks = bc_new latest block_ttl\<rparr>"

definition restore_hash :: "slot \<Rightarrow> hash \<Rightarrow> 'st caches \<Rightarrow> 'st caches option" where
  "restore_hash slot hash ch = do {
     (_, h) \<leftarrow> xc_push hash slot slot (bc_history (ch_blocks ch));
     Some (ch\<lparr>ch_blocks := (ch_blocks ch)\<lparr>bc_history := h\<rparr>\<rparr>)
   }"

fun restore_signatures :: "bytes list \<Rightarrow> slot \<Rightarrow> 'st caches \<Rightarrow> 'st caches option" where
  "restore_signatures [] slot ch = Some ch"
| "restore_signatures (signature # rest) slot ch = do {
     (_, sigs) \<leftarrow> xc_push signature None slot (ch_signatures ch);
     restore_signatures rest slot (ch\<lparr>ch_signatures := sigs\<rparr>)
   }"

definition restore :: "block \<Rightarrow> bytes list \<Rightarrow> 'st caches \<Rightarrow> 'st caches option" where
  "restore block signatures ch = do {
     ch' \<leftarrow> restore_hash (blk_slot block) (blk_hash block) ch;
     restore_signatures signatures (blk_slot block) ch'
   }"

text \<open>Startup of an internally paced leader: only the latest boundary is restored.\<close>

definition leader_caches :: "block \<Rightarrow> slot \<Rightarrow> slot \<Rightarrow> 'st caches option" where
  "leader_caches latest block_ttl signature_ttl =
     restore_hash (blk_slot latest) (blk_hash latest) (caches_new latest block_ttl signature_ttl)"

section \<open>Admission\<close>

definition SIGNATURE_PREFIX_LEN :: nat where
  "SIGNATURE_PREFIX_LEN = 16"

definition signature_prefix :: "bytes \<Rightarrow> bytes" where
  "signature_prefix signature = take SIGNATURE_PREFIX_LEN signature"

datatype transaction_error = AlreadyProcessed | BlockhashNotFound

datatype keeper_error = LedgerClosed | MissingSysvar pubkey | SysvarCodec | StoreFailed

definition current_slot :: "'st caches \<Rightarrow> slot option" where
  "current_slot ch = checked_add (blk_slot (bc_latest (ch_blocks ch))) 1"

definition blocks_is_valid :: "hash \<Rightarrow> 'st caches \<Rightarrow> bool" where
  "blocks_is_valid hash ch = xc_contains hash (bc_history (ch_blocks ch))"

text \<open>
  \<^verbatim>\<open>TransactionsAccessor::append\<close>: the outer error is infrastructure failure, the inner one a
  rejected transaction. \<open>appender_open\<close> tells whether the ledger's append channel still accepts.
\<close>

definition transactions_append ::
    "bool \<Rightarrow> bytes \<Rightarrow> hash \<Rightarrow> 'st caches \<Rightarrow> ('st caches \<times> (keeper_error + (transaction_error + unit))) option" where
  "transactions_append appender_open signature recent_blockhash ch = do {
     slot \<leftarrow> current_slot ch;
     (fresh, sigs) \<leftarrow> xc_push (signature_prefix signature) None slot (ch_signatures ch);
     let ch = ch\<lparr>ch_signatures := sigs\<rparr>;
     Some (ch,
       if \<not> fresh then Inr (Inl AlreadyProcessed)
       else if \<not> blocks_is_valid recent_blockhash ch then Inr (Inl BlockhashNotFound)
       else if \<not> appender_open then Inl LedgerClosed
       else Inr (Inr ()))
   }"

text \<open>The cache part of \<^verbatim>\<open>commit_execution\<close>, of \<^verbatim>\<open>commit_replay\<close>, and the cached status lookup.\<close>

definition commit_status :: "bytes \<Rightarrow> 'st \<Rightarrow> 'st caches \<Rightarrow> 'st caches" where
  "commit_status signature status ch =
     ch\<lparr>ch_signatures := xc_update (signature_prefix signature) (Some status) (ch_signatures ch)\<rparr>"

definition replay_status :: "bytes \<Rightarrow> 'st \<Rightarrow> slot \<Rightarrow> 'st caches \<Rightarrow> 'st caches option" where
  "replay_status signature status slot ch = do {
     (_, sigs) \<leftarrow> xc_push (signature_prefix signature) (Some status) slot (ch_signatures ch);
     Some (ch\<lparr>ch_signatures := sigs\<rparr>)
   }"

definition cached_status :: "bytes \<Rightarrow> 'st caches \<Rightarrow> 'st option option" where
  "cached_status signature ch = xc_get (signature_prefix signature) (ch_signatures ch)"

section \<open>Deduplication with expiry as an interface\<close>

text \<open>
  What admission relies on: a push at slot \<open>t\<close> keeps every entry that expires after \<open>t\<close>, and
  reports a key fresh only if it had no such entry.
\<close>

locale dedup_cache =
  fixes push :: "'k \<Rightarrow> nat \<Rightarrow> 'c \<Rightarrow> (bool \<times> 'c) option"
    and expiry :: "'c \<Rightarrow> 'k \<Rightarrow> nat option"
    and ttl :: "'c \<Rightarrow> nat"
    and ok :: "'c \<Rightarrow> bool"
  assumes push_ok: "ok c \<Longrightarrow> push k t c = Some (b, c') \<Longrightarrow> ok c' \<and> ttl c' = ttl c"
    and push_fresh: "ok c \<Longrightarrow> push k t c = Some (True, c') \<Longrightarrow> expiry c' k = Some (t + ttl c)"
    and push_stale: "ok c \<Longrightarrow> push k t c = Some (True, c') \<Longrightarrow> expiry c k = Some e \<Longrightarrow> e \<le> t"
    and push_keep: "ok c \<Longrightarrow> push k t c = Some (b, c') \<Longrightarrow> expiry c x = Some e \<Longrightarrow> t < e \<Longrightarrow> expiry c' x = Some e"
begin

lemma push_again:
  assumes "ok c" "expiry c k = Some e" "t < e" "push k t c = Some (b, c')"
  shows "\<not> b"
  using push_stale [OF assms(1) _ assms(2), of t c'] assms(3,4) by (cases b) auto

end

definition xc_expiry :: "('k, 'v) expiring_cache \<Rightarrow> 'k \<Rightarrow> slot option" where
  "xc_expiry c = map_of (map (\<lambda>r. (xr_key r, xr_expires r)) (xc_queue c))"

definition xc_ok :: "('k, 'v) expiring_cache \<Rightarrow> bool" where
  "xc_ok c \<longleftrightarrow> distinct (map xr_key (xc_queue c)) \<and> dom (xc_index c) = xr_key ` set (xc_queue c)"

lemma xc_new_ok [simp]: "xc_ok (xc_new ttl)"
  by (simp add: xc_ok_def xc_new_def)

lemma xc_evict_queue:
  "\<exists>swept. xc_queue c = swept @ xc_queue (xc_evict n slot c) \<and> length swept \<le> n \<and>
     (\<forall>r \<in> set swept. xr_expired r slot) \<and>
     xc_index (xc_evict n slot c) = (xc_index c) |` (- (xr_key ` set swept)) \<and>
     xc_ttl (xc_evict n slot c) = xc_ttl c \<and>
     (length swept = n \<or> xc_queue (xc_evict n slot c) = [] \<or> \<not> xr_expired (hd (xc_queue (xc_evict n slot c))) slot)"
proof (induction n slot c rule: xc_evict.induct)
  case (2 n slot c)
  show ?case
  proof (cases "xc_queue c")
    case (Cons r rest)
    show ?thesis
    proof (cases "xr_expired r slot")
      case True
      let ?c = "c\<lparr>xc_index := (xc_index c)(xr_key r := None), xc_queue := rest\<rparr>"
      let ?e = "xc_evict n slot ?c"
      from "2.IH" [OF Cons True] obtain swept where w:
        "xc_queue ?c = swept @ xc_queue ?e" "length swept \<le> n" "\<forall>r \<in> set swept. xr_expired r slot"
        "xc_index ?e = xc_index ?c |` (- (xr_key ` set swept))" "xc_ttl ?e = xc_ttl ?c"
        "length swept = n \<or> xc_queue ?e = [] \<or> \<not> xr_expired (hd (xc_queue ?e)) slot"
        by blast
      have e: "xc_evict (Suc n) slot c = ?e" using Cons True by simp
      have "xc_index ?e = xc_index c |` (- (xr_key ` set (r # swept)))"
        unfolding w(4) by (auto simp: restrict_map_def fun_eq_iff)
      then show ?thesis
        unfolding e using w(1-3,5,6) Cons True by (intro exI [of _ "r # swept"]) auto
    qed (simp add: Cons restrict_map_def)
  qed (simp add: restrict_map_def)
qed (simp add: restrict_map_def)

lemma xc_evict_props:
  assumes "xc_ok c"
  shows "xc_ok (xc_evict n slot c)" "xc_ttl (xc_evict n slot c) = xc_ttl c"
    and "xc_expiry c k = Some e \<Longrightarrow> slot < e \<Longrightarrow> xc_expiry (xc_evict n slot c) k = Some e"
    and "xc_expiry (xc_evict n slot c) k = Some e \<Longrightarrow> xc_expiry c k = Some e"
proof -
  obtain swept where q: "xc_queue c = swept @ xc_queue (xc_evict n slot c)" "\<forall>r \<in> set swept. xr_expired r slot"
    "xc_index (xc_evict n slot c) = (xc_index c) |` (- (xr_key ` set swept))" "xc_ttl (xc_evict n slot c) = xc_ttl c"
    using xc_evict_queue [of c n slot] by blast
  have d: "distinct (map xr_key swept @ map xr_key (xc_queue (xc_evict n slot c)))"
    using assms q(1) by (metis map_append xc_ok_def)
  have dm: "dom (xc_index c) = xr_key ` set swept \<union> xr_key ` set (xc_queue (xc_evict n slot c))"
    using assms q(1) by (metis image_Un set_append xc_ok_def)
  show "xc_ttl (xc_evict n slot c) = xc_ttl c" by (rule q(4))
  show "xc_ok (xc_evict n slot c)"
    using d dm by (auto simp: xc_ok_def q(3))
  let ?kv = "\<lambda>r. (xr_key r, xr_expires r)"
  have ex: "xc_expiry c x = (if x \<in> xr_key ` set swept then map_of (map ?kv swept) x else xc_expiry (xc_evict n slot c) x)" for x
  proof -
    have "xc_expiry c = map_of (map ?kv (xc_queue (xc_evict n slot c))) ++ map_of (map ?kv swept)"
      unfolding xc_expiry_def by (subst q(1)) simp
    moreover have "map_of (map ?kv swept) x = None \<longleftrightarrow> x \<notin> xr_key ` set swept"
      by (simp add: map_of_eq_None_iff image_image)
    ultimately show ?thesis by (auto simp: xc_expiry_def map_add_def split: option.splits)
  qed
  have sw: "k \<notin> xr_key ` set swept" if "xc_expiry (xc_evict n slot c) k = Some e"
    using that d by (force simp: xc_expiry_def dest!: map_of_SomeD)
  then show "xc_expiry (xc_evict n slot c) k = Some e \<Longrightarrow> xc_expiry c k = Some e"
    by (simp add: ex)
  show "xc_expiry (xc_evict n slot c) k = Some e" if "xc_expiry c k = Some e" "slot < e"
  proof -
    have "map_of (map ?kv swept) k \<noteq> Some e"
      using q(2) that(2) by (force simp: xr_expired_def dest!: map_of_SomeD)
    then show ?thesis using that(1) by (simp add: ex split: if_splits)
  qed
qed

lemma xc_index_expiry:
  assumes "xc_ok c"
  shows "xc_index c k = None \<longleftrightarrow> xc_expiry c k = None"
proof -
  have a: "xc_index c k = None \<longleftrightarrow> k \<notin> dom (xc_index c)" by (simp add: domIff)
  have b: "xc_expiry c k = None \<longleftrightarrow> k \<notin> xr_key ` set (xc_queue c)"
    unfolding xc_expiry_def map_of_eq_None_iff by (simp add: image_image)
  have "dom (xc_index c) = xr_key ` set (xc_queue c)" using assms unfolding xc_ok_def by (rule conjunct2)
  then show ?thesis unfolding a b by (rule arg_cong)
qed

lemma xc_push_cases:
  assumes "xc_push k v t c = Some (b, c')"
  obtains (old) "\<not> b" "c' = xc_evict EVICTION_LIMIT t c" "xc_index c' k \<noteq> None"
  | (new) c0 where "b" "c0 = xc_evict EVICTION_LIMIT t c" "xc_index c0 k = None"
      "c' = c0\<lparr>xc_index := (xc_index c0)(k \<mapsto> v), xc_queue := xc_queue c0 @ [\<lparr>xr_key = k, xr_expires = t + xc_ttl c0\<rparr>]\<rparr>"
proof (cases "xc_index (xc_evict EVICTION_LIMIT t c) k")
  case None
  then show ?thesis using assms by (intro new [OF _ refl]) (auto simp: xc_push_def Let_def bind_eq_Some_conv)
next
  case (Some _)
  then show ?thesis using assms by (intro old) (simp_all add: xc_push_def Let_def)
qed

lemma xc_snoc_expiry:
  assumes "xc_ok c0" "xc_index c0 k = None"
  shows "xc_expiry (c0\<lparr>xc_index := i, xc_queue := xc_queue c0 @ [\<lparr>xr_key = k, xr_expires = e\<rparr>]\<rparr>) = (xc_expiry c0)(k \<mapsto> e)"
proof -
  have none: "xc_expiry c0 k = None" using assms(2) xc_index_expiry [OF assms(1)] by (rule iffD1 [rotated])
  have "xc_expiry (c0\<lparr>xc_index := i, xc_queue := xc_queue c0 @ [\<lparr>xr_key = k, xr_expires = e\<rparr>]\<rparr>) = [k \<mapsto> e] ++ xc_expiry c0"
    by (cases c0) (simp add: xc_expiry_def)
  also have "\<dots> = (xc_expiry c0)(k \<mapsto> e)"
    using none by (intro ext) (simp add: map_add_def split: option.split)
  finally show ?thesis .
qed

lemma xc_snoc_ok:
  "xc_ok c0 \<Longrightarrow> xc_index c0 k = None \<Longrightarrow>
   xc_ok (c0\<lparr>xc_index := (xc_index c0)(k \<mapsto> v), xc_queue := xc_queue c0 @ [\<lparr>xr_key = k, xr_expires = e\<rparr>]\<rparr>)"
  by (cases c0) (auto simp: xc_ok_def)

lemma xc_push_old:
  assumes "xc_push k v t c = Some (False, c')"
  shows "c' = xc_evict EVICTION_LIMIT t c"
  using assms by (rule xc_push_cases) auto

lemma xc_push_new:
  assumes ok: "xc_ok c" and push: "xc_push k v t c = Some (True, c')"
  shows "xc_expiry c' = (xc_expiry (xc_evict EVICTION_LIMIT t c))(k \<mapsto> t + xc_ttl c)"
    and "xc_expiry (xc_evict EVICTION_LIMIT t c) k = None" and "xc_ok c'" and "xc_ttl c' = xc_ttl c"
    and "xc_queue c' = xc_queue (xc_evict EVICTION_LIMIT t c) @ [\<lparr>xr_key = k, xr_expires = t + xc_ttl c\<rparr>]"
proof -
  let ?e = "xc_evict EVICTION_LIMIT t c"
  let ?n = "?e\<lparr>xc_index := (xc_index ?e)(k \<mapsto> v), xc_queue := xc_queue ?e @ [\<lparr>xr_key = k, xr_expires = t + xc_ttl c\<rparr>]\<rparr>"
  note ev = xc_evict_props(1,2) [OF ok, where n = EVICTION_LIMIT and slot = t]
  have free: "xc_index ?e k = None" and c': "c' = ?n" using push by (auto elim: xc_push_cases simp: ev(2))
  show "xc_expiry c' = (xc_expiry ?e)(k \<mapsto> t + xc_ttl c)" unfolding c' by (rule xc_snoc_expiry [OF ev(1) free])
  show "xc_expiry ?e k = None" using free xc_index_expiry [OF ev(1)] by (rule iffD1 [rotated])
  show "xc_ok c'" unfolding c' by (rule xc_snoc_ok [OF ev(1) free])
  show "xc_ttl c' = xc_ttl c" unfolding c' using ev(2) by (cases ?e) simp
  show "xc_queue c' = xc_queue ?e @ [\<lparr>xr_key = k, xr_expires = t + xc_ttl c\<rparr>]" unfolding c' by (cases ?e) simp
qed

interpretation expiring: dedup_cache "\<lambda>k :: 'k. xc_push k (v :: 'v)" xc_expiry xc_ttl xc_ok
proof
  fix c c' :: "('k, 'v) expiring_cache" and k x t b e
  assume ok: "xc_ok c"
  note ev = xc_evict_props [OF ok, where n = EVICTION_LIMIT and slot = t]
  note new = xc_push_new [OF ok, of k v t c']
  show "xc_ok c' \<and> xc_ttl c' = xc_ttl c" if "xc_push k v t c = Some (b, c')"
    using that new(3,4) ev(1,2) xc_push_old [of k v t c c'] by (cases b) auto
  show "xc_expiry c' k = Some (t + xc_ttl c)" if "xc_push k v t c = Some (True, c')"
    using new(1) [OF that] by simp
  show "e \<le> t" if "xc_push k v t c = Some (True, c')" "xc_expiry c k = Some e"
    using new(2) [OF that(1)] ev(3) [OF that(2)] by fastforce
  show "xc_expiry c' x = Some e" if "xc_push k v t c = Some (b, c')" "xc_expiry c x = Some e" "t < e"
    using that(1) new(1,2) ev(3) [OF that(2,3)] xc_push_old [of k v t c c'] by (cases b) auto
qed

section \<open>Runs of the admission path\<close>

text \<open>
  A run of an internally paced leader: the blocks it has appended, the transactions it has
  admitted (signature and recent block hash), and the caches. Consecutive boundaries have
  consecutive slots, as the block ticker produces them; any number of submissions, in any
  order, and committed statuses fall in between.
\<close>

inductive admission_run :: "slot \<Rightarrow> slot \<Rightarrow> block list \<Rightarrow> (bytes \<times> hash) list \<Rightarrow> 'st caches \<Rightarrow> bool"
  for bttl sttl where
  adm_start: "leader_caches latest bttl sttl = Some ch \<Longrightarrow> admission_run bttl sttl [latest] [] ch"
| adm_submit: "admission_run bttl sttl bs adm ch \<Longrightarrow> transactions_append appender_open sig h ch = Some (ch', r) \<Longrightarrow>
    admission_run bttl sttl bs (if r = Inr (Inr ()) then adm @ [(sig, h)] else adm) ch'"
| adm_commit: "admission_run bttl sttl bs adm ch \<Longrightarrow> admission_run bttl sttl bs adm (commit_status sig status ch)"
| adm_block: "admission_run bttl sttl bs adm ch \<Longrightarrow> current_slot ch = Some (blk_slot block) \<Longrightarrow>
    bc_push block (ch_blocks ch) = Some bc \<Longrightarrow> admission_run bttl sttl (bs @ [block]) adm (ch\<lparr>ch_blocks := bc\<rparr>)"

subsection \<open>The block history holds exactly the recent blocks\<close>

definition history_ok :: "slot \<Rightarrow> block list \<Rightarrow> blocks_cache \<Rightarrow> bool" where
  "history_ok bttl bs bc \<longleftrightarrow>
     xc_ok (bc_history bc) \<and> xc_ttl (bc_history bc) = bttl \<and>
     sorted_wrt (<) (map xr_expires (xc_queue (bc_history bc))) \<and>
     (\<forall>r \<in> set (xc_queue (bc_history bc)).
        blk_slot (bc_latest bc) < xr_expires r \<and> xr_expires r \<le> blk_slot (bc_latest bc) + bttl \<and>
        (\<exists>b \<in> set bs. blk_hash b = xr_key r \<and> xr_expires r = blk_slot b + bttl)) \<and>
     (\<forall>b \<in> set bs. blk_slot b \<le> blk_slot (bc_latest bc))"

lemma sorted_less_const: "sorted_wrt (<) (xs :: nat list) \<Longrightarrow> \<forall>x \<in> set xs. x = y \<Longrightarrow> length xs \<le> 1"
  by (cases xs; cases "tl xs") auto

lemma history_swept:
  assumes "history_ok bttl bs bc" and r: "r \<in> set (xc_queue (xc_evict EVICTION_LIMIT (Suc (blk_slot (bc_latest bc))) (bc_history bc)))"
  shows "Suc (blk_slot (bc_latest bc)) < xr_expires r"
proof -
  let ?L = "blk_slot (bc_latest bc)" and ?c = "bc_history bc"
  let ?rest = "xc_queue (xc_evict EVICTION_LIMIT (Suc ?L) ?c)"
  obtain swept where sw: "xc_queue ?c = swept @ ?rest" "\<forall>r \<in> set swept. xr_expired r (Suc ?L)"
    and stop: "length swept = EVICTION_LIMIT \<or> ?rest = [] \<or> \<not> xr_expired (hd ?rest) (Suc ?L)"
    using xc_evict_queue by blast
  have sorted: "sorted_wrt (<) (map xr_expires swept @ map xr_expires ?rest)"
    using assms(1) by (simp add: history_ok_def sw(1) flip: map_append)
  have live: "?L < xr_expires x" if "x \<in> set swept" for x
    using assms(1) that unfolding history_ok_def sw(1) by auto
  have "length (map xr_expires swept) \<le> 1"
  proof (rule sorted_less_const [of _ "Suc ?L"])
    show "\<forall>x \<in> set (map xr_expires swept). x = Suc ?L"
      using live sw(2) by (fastforce simp: xr_expired_def)
  qed (use sorted in \<open>simp add: sorted_wrt_append\<close>)
  then have "?rest = [] \<or> \<not> xr_expired (hd ?rest) (Suc ?L)" using stop by (auto simp: EVICTION_LIMIT_def)
  then show ?thesis using sorted r by (cases ?rest) (auto simp: sorted_wrt_append xr_expired_def)
qed

lemma history_push:
  assumes ok: "history_ok bttl bs bc" and "0 < bttl" and slot: "blk_slot b = Suc (blk_slot (bc_latest bc))"
    and push: "bc_push b bc = Some bc'"
  shows "history_ok bttl (bs @ [b]) bc'"
proof -
  let ?L = "blk_slot (bc_latest bc)" and ?c = "bc_history bc"
  let ?e = "xc_evict EVICTION_LIMIT (Suc ?L) ?c"
  obtain f h where h: "xc_push (blk_hash b) (Suc ?L) (Suc ?L) ?c = Some (f, h)" and bc': "bc' = \<lparr>bc_latest = b, bc_history = h\<rparr>"
    using push by (auto simp: bc_push_def slot bind_eq_Some_conv)
  have c: "xc_ok ?c" "xc_ttl ?c = bttl" using ok by (auto simp: history_ok_def)
  obtain swept where sw: "xc_queue ?c = swept @ xc_queue ?e" using xc_evict_queue by blast
  have sorted: "sorted_wrt (<) (map xr_expires (xc_queue ?e))"
    using ok by (simp add: history_ok_def sw sorted_wrt_append)
  have old: "xr_expires r \<le> ?L + bttl \<and> (\<exists>b \<in> set bs. blk_hash b = xr_key r \<and> xr_expires r = blk_slot b + bttl)"
    if "r \<in> set (xc_queue ?e)" for r
    using ok that unfolding history_ok_def sw by auto
  have slots: "\<forall>b \<in> set bs. blk_slot b \<le> ?L" using ok by (simp add: history_ok_def)
  note keep = expiring.push_ok [OF c(1) h] and live = history_swept [OF ok]
  show ?thesis
  proof (cases f)
    case True
    then have q: "xc_queue h = xc_queue ?e @ [\<lparr>xr_key = blk_hash b, xr_expires = Suc ?L + bttl\<rparr>]"
      using xc_push_new(5) [OF c(1)] h c(2) by simp
    show ?thesis
      unfolding history_ok_def bc' using keep slots sorted old live assms(2)
      by (fastforce simp: q slot c sorted_wrt_append less_Suc_eq_le)
  next
    case False
    then have q: "xc_queue h = xc_queue ?e" using xc_push_old [of "blk_hash b" "Suc ?L" "Suc ?L" ?c h] h by simp
    show ?thesis
      unfolding history_ok_def bc' using keep slots sorted old live by (fastforce simp: q slot c)
  qed
qed

subsection \<open>Admitted transactions stay recorded while their block hash is accepted\<close>

definition recorded :: "slot \<Rightarrow> block list \<Rightarrow> 'st caches \<Rightarrow> bytes \<times> hash \<Rightarrow> bool" where
  "recorded bttl bs ch tx \<longleftrightarrow> (\<exists>b \<in> set bs. blk_hash b = snd tx \<and>
     (blk_slot b + bttl \<le> blk_slot (bc_latest (ch_blocks ch)) \<or>
      (\<exists>e. xc_expiry (ch_signatures ch) (signature_prefix (fst tx)) = Some e \<and> blk_slot b + bttl < e)))"

definition admission_ok :: "slot \<Rightarrow> slot \<Rightarrow> block list \<Rightarrow> (bytes \<times> hash) list \<Rightarrow> 'st caches \<Rightarrow> bool" where
  "admission_ok bttl sttl bs adm ch \<longleftrightarrow>
     history_ok bttl bs (ch_blocks ch) \<and> xc_ok (ch_signatures ch) \<and> xc_ttl (ch_signatures ch) = sttl \<and>
     (\<forall>tx \<in> set adm. recorded bttl bs ch tx)"

lemma valid_hash_block:
  assumes "history_ok bttl bs (ch_blocks ch)" "blocks_is_valid h ch"
  obtains b where "b \<in> set bs" "blk_hash b = h" "blk_slot (bc_latest (ch_blocks ch)) < blk_slot b + bttl"
    "blk_slot b \<le> blk_slot (bc_latest (ch_blocks ch))"
proof -
  let ?c = "bc_history (ch_blocks ch)"
  have "h \<in> dom (xc_index ?c)" using assms(2) by (auto simp: blocks_is_valid_def xc_contains_def)
  then obtain r where r: "r \<in> set (xc_queue ?c)" "h = xr_key r"
    using assms(1) by (auto simp: history_ok_def xc_ok_def)
  then show ?thesis using assms(1) that by (auto simp: history_ok_def)
qed

lemma append_cases:
  assumes "transactions_append appender_open sig h ch = Some (ch', r)"
  obtains fresh where
    "xc_push (signature_prefix sig) None (Suc (blk_slot (bc_latest (ch_blocks ch)))) (ch_signatures ch) = Some (fresh, ch_signatures ch')"
    "ch_blocks ch' = ch_blocks ch" "r = Inr (Inr ()) \<Longrightarrow> fresh \<and> blocks_is_valid h ch"
  using assms
  by (auto simp: transactions_append_def current_slot_def blocks_is_valid_def bind_eq_Some_conv Let_def split: if_splits)

lemma recorded_submit:
  assumes ok: "xc_ok (ch_signatures ch)" and rec: "recorded bttl bs ch tx"
    and push: "xc_push k None (Suc (blk_slot (bc_latest (ch_blocks ch)))) (ch_signatures ch) = Some (fresh, ch_signatures ch')"
    and same: "ch_blocks ch' = ch_blocks ch"
  shows "recorded bttl bs ch' tx"
  using rec unfolding recorded_def same
  by (meson expiring.push_keep [OF ok push] Suc_leI le_less_trans not_le)

lemma admission_submit:
  assumes "admission_ok bttl sttl bs adm ch" "bttl \<le> sttl" "transactions_append appender_open sig h ch = Some (ch', r)"
  shows "admission_ok bttl sttl bs (if r = Inr (Inr ()) then adm @ [(sig, h)] else adm) ch'"
proof -
  let ?L = "blk_slot (bc_latest (ch_blocks ch))"
  have ok: "history_ok bttl bs (ch_blocks ch)" "xc_ok (ch_signatures ch)" "xc_ttl (ch_signatures ch) = sttl"
    and rec: "\<forall>tx \<in> set adm. recorded bttl bs ch tx"
    using assms(1) by (auto simp: admission_ok_def)
  obtain fresh where push: "xc_push (signature_prefix sig) None (Suc ?L) (ch_signatures ch) = Some (fresh, ch_signatures ch')"
    and same: "ch_blocks ch' = ch_blocks ch" and adm: "r = Inr (Inr ()) \<Longrightarrow> fresh \<and> blocks_is_valid h ch"
    using append_cases [OF assms(3)] by blast
  have "recorded bttl bs ch' (sig, h)" if r: "r = Inr (Inr ())"
  proof -
    obtain b where "b \<in> set bs" "blk_hash b = h" "blk_slot b \<le> ?L"
      using valid_hash_block [OF ok(1)] adm [OF r] by blast
    moreover have "xc_expiry (ch_signatures ch') (signature_prefix sig) = Some (Suc ?L + sttl)"
      using expiring.push_fresh [OF ok(2)] push adm [OF r] ok(3) by auto
    ultimately show ?thesis using assms(2) by (fastforce simp: recorded_def)
  qed
  then show ?thesis
    using expiring.push_ok [OF ok(2) push] ok recorded_submit [OF ok(2) _ push same] rec
    by (auto simp: admission_ok_def same)
qed

lemma commit_status_expiry:
  "xc_expiry (ch_signatures (commit_status sig st ch)) = xc_expiry (ch_signatures ch)"
  "xc_ok (ch_signatures ch) \<Longrightarrow> xc_ok (ch_signatures (commit_status sig st ch))"
  "xc_ttl (ch_signatures (commit_status sig st ch)) = xc_ttl (ch_signatures ch)"
  "ch_blocks (commit_status sig st ch) = ch_blocks ch"
  by (auto simp: commit_status_def xc_update_def xc_expiry_def xc_ok_def split: option.split)

lemma admission_block:
  assumes "admission_ok bttl sttl bs adm ch" "0 < bttl" "current_slot ch = Some (blk_slot b)"
    and push: "bc_push b (ch_blocks ch) = Some bc"
  shows "admission_ok bttl sttl (bs @ [b]) adm (ch\<lparr>ch_blocks := bc\<rparr>)"
proof -
  have slot: "blk_slot b = Suc (blk_slot (bc_latest (ch_blocks ch)))"
    using assms(3) by (simp add: current_slot_def)
  have latest: "bc_latest bc = b" using push by (auto simp: bc_push_def bind_eq_Some_conv)
  have "recorded bttl (bs @ [b]) (ch\<lparr>ch_blocks := bc\<rparr>) tx" if "recorded bttl bs ch tx" for tx
    using that by (fastforce simp: recorded_def latest slot)
  then show ?thesis
    using assms(1) history_push [OF _ assms(2) slot push] by (auto simp: admission_ok_def)
qed

lemma leader_caches_ok:
  assumes "leader_caches latest bttl sttl = Some ch" "0 < bttl"
  shows "admission_ok bttl sttl [latest] [] ch"
proof -
  obtain f h where push: "xc_push (blk_hash latest) (blk_slot latest) (blk_slot latest) (xc_new bttl) = Some (f, h)"
    and ch: "ch = \<lparr>ch_signatures = xc_new sttl, ch_blocks = \<lparr>bc_latest = latest, bc_history = h\<rparr>\<rparr>"
    using assms(1) by (auto simp: leader_caches_def restore_hash_def caches_new_def bc_new_def bind_eq_Some_conv)
  have "xc_queue h = [\<lparr>xr_key = blk_hash latest, xr_expires = blk_slot latest + bttl\<rparr>]"
    using push by (auto simp: xc_push_def xc_new_def EVICTION_LIMIT_def numeral_eq_Suc bind_eq_Some_conv)
  moreover have "xc_ok h \<and> xc_ttl h = bttl" using expiring.push_ok [OF xc_new_ok push] by (simp add: xc_new_def)
  ultimately show ?thesis using assms(2) by (simp add: admission_ok_def history_ok_def ch xc_new_def xc_ok_def)
qed

lemma admission_run_ok:
  "admission_run bttl sttl bs adm ch \<Longrightarrow> 0 < bttl \<Longrightarrow> bttl \<le> sttl \<Longrightarrow> admission_ok bttl sttl bs adm ch"
proof (induction rule: admission_run.induct)
  case (adm_commit bs adm ch sig status)
  then show ?case by (simp add: admission_ok_def recorded_def commit_status_expiry)
qed (simp_all add: leader_caches_ok admission_submit admission_block)

lemma resubmission_rejected:
  assumes ok: "admission_ok bttl sttl bs adm ch" and uniq: "distinct (map blk_hash bs)" and "(sig, h) \<in> set adm"
    and app: "transactions_append appender_open sig h ch = Some (ch', r)"
  shows "r \<noteq> Inr (Inr ())"
proof
  assume r: "r = Inr (Inr ())"
  let ?L = "blk_slot (bc_latest (ch_blocks ch))"
  obtain push: "xc_push (signature_prefix sig) None (Suc ?L) (ch_signatures ch) = Some (True, ch_signatures ch')"
    and valid: "blocks_is_valid h ch"
    using append_cases [OF app] r by (metis (full_types))
  have hist: "history_ok bttl bs (ch_blocks ch)" and sigs: "xc_ok (ch_signatures ch)" and rec: "recorded bttl bs ch (sig, h)"
    using ok assms(3) by (auto simp: admission_ok_def)
  obtain b where b: "b \<in> set bs" "blk_hash b = h" "?L < blk_slot b + bttl"
    by (rule valid_hash_block [OF hist valid])
  have "b' = b" if "b' \<in> set bs" "blk_hash b' = h" for b'
    using inj_onD [OF conjunct2 [OF uniq [unfolded distinct_map]]] that b by metis
  then obtain e where "xc_expiry (ch_signatures ch) (signature_prefix sig) = Some e" "blk_slot b + bttl < e"
    using rec b(3) unfolding recorded_def fst_conv snd_conv by (metis not_le)
  then show False
    using expiring.push_again [OF sigs _ _ push] b(3) by fastforce
qed

text \<open>
  C34. No transaction is admitted twice. In every run of a leader whose signature entries live at
  least as long as its block hashes and whose blocks have distinct hashes, the admitted
  transactions, identified by signature and recent block hash, are pairwise different, however
  submissions, committed statuses and block boundaries interleave and although expired entries
  are only swept in bounded steps.
\<close>

theorem admitted_once:
  assumes "admission_run bttl sttl bs adm ch" and "0 < bttl" and "bttl \<le> sttl" and "distinct (map blk_hash bs)"
  shows "distinct adm"
  using assms
proof (induction rule: admission_run.induct)
  case (adm_submit bs adm ch appender_open sig h ch' r)
  note ok = admission_run_ok [OF adm_submit.hyps(1) adm_submit.prems(1,2)]
  have "(sig, h) \<notin> set adm" if "r = Inr (Inr ())"
    using resubmission_rejected [OF ok adm_submit.prems(3) _ adm_submit.hyps(2)] that by blast
  then show ?case using adm_submit.IH adm_submit.prems by simp
qed simp_all

definition sample_block :: "nat \<Rightarrow> block" where
  "sample_block n = \<lparr>blk_slot = n, blk_hash = [of_nat n], blk_time = 0, blk_parent = []\<rparr>"

fun submit_all :: "(bytes \<times> hash) list \<Rightarrow> (bytes \<times> hash) list \<times> 'st caches \<Rightarrow> ((bytes \<times> hash) list \<times> 'st caches) option" where
  "submit_all [] st = Some st"
| "submit_all ((sig, h) # rest) (adm, ch) = do {
     (ch', r) \<leftarrow> transactions_append True sig h ch;
     submit_all rest (if r = Inr (Inr ()) then adm @ [(sig, h)] else adm, ch')
   }"

lemma submit_all_run:
  "admission_run bttl sttl bs adm ch \<Longrightarrow> submit_all txs (adm, ch) = Some (adm', ch') \<Longrightarrow>
   admission_run bttl sttl bs adm' ch' \<and> ch_blocks ch' = ch_blocks ch"
proof (induction txs arbitrary: adm ch)
  case (Cons tx txs)
  obtain sig h where tx: "tx = (sig, h)" by (cases tx)
  obtain ch1 r where s: "transactions_append True sig h ch = Some (ch1, r)"
    "submit_all txs (if r = Inr (Inr ()) then adm @ [(sig, h)] else adm, ch1) = Some (adm', ch')"
    using Cons.prems(2) by (auto simp: tx bind_eq_Some_conv)
  then show ?case using Cons.IH [OF adm_submit [OF Cons.prems(1) s(1)] s(2)] append_cases [OF s(1)] by metis
qed simp

definition resubmitting_leader :: "((bytes \<times> hash) list \<times> unit caches) option" where
  "resubmitting_leader = do {
     ch0 \<leftarrow> leader_caches (sample_block 0) 1 1;
     (adm1, ch1) \<leftarrow> submit_all [([7], [0]), ([7], [0]), ([8], [5])] ([], ch0);
     bc \<leftarrow> bc_push (sample_block 1) (ch_blocks ch1);
     submit_all [([7], [0]), ([9], [1]), ([9], [1])] (adm1, ch1\<lparr>ch_blocks := bc\<rparr>)
   }"

lemma resubmitting_leader_eq: "map_option fst resubmitting_leader = Some [([7], [0]), ([9], [1])]"
  by code_simp

theorem admitted_once_witness:
  "\<exists>ch :: unit caches. admission_run 1 1 [sample_block 0, sample_block 1] [([7], [0]), ([9], [1])] ch \<and>
     distinct [([7], [0]), ([9 :: u8], [1 :: u8])]"
proof -
  obtain ch :: "unit caches" where "resubmitting_leader = Some ([([7], [0]), ([9], [1])], ch)"
    using resubmitting_leader_eq by auto
  then obtain ch0 adm1 ch1 bc where
    s: "leader_caches (sample_block 0) 1 1 = Some ch0" "submit_all [([7], [0]), ([7], [0]), ([8], [5])] ([], ch0) = Some (adm1, ch1)"
      "bc_push (sample_block 1) (ch_blocks ch1) = Some bc"
      "submit_all [([7], [0]), ([9], [1]), ([9], [1])] (adm1, ch1\<lparr>ch_blocks := bc\<rparr>) = Some ([([7], [0]), ([9], [1])], ch)"
    by (auto simp: resubmitting_leader_def bind_eq_Some_conv)
  note run1 = submit_all_run [OF adm_start [OF s(1)] s(2)]
  have "bc_latest (ch_blocks ch1) = sample_block 0"
    using run1 s(1) by (auto simp: leader_caches_def restore_hash_def caches_new_def bc_new_def bind_eq_Some_conv)
  then have slot: "current_slot ch1 = Some (blk_slot (sample_block 1))"
    by (simp add: current_slot_def sample_block_def usize_bound_def)
  have run: "admission_run 1 1 [sample_block 0, sample_block 1] [([7], [0]), ([9], [1])] ch"
    using submit_all_run [OF adm_block [OF conjunct1 [OF run1] slot s(3)] s(4)] by simp
  show ?thesis using run admitted_once [OF run] by (auto simp: sample_block_def)
qed

end
