(* ===== verification/Executors.thy ===== *)
theory Executors
  imports Ordering_Serial Keeper_Cache
begin

text \<open>
  The executor pool of the sequencer, \<^verbatim>\<open>processor/src/sequencer/pool.rs\<close>, with the messages,
  events and handles of \<^verbatim>\<open>processor/src/executor.rs\<close>. Availability is the 64-bit set of the
  source, one bit per executor. A handle is its id, the messages its worker has not received
  yet, and whether the worker still receives; the two-message bound of the channel, which only
  delays a sender, is left out. \<open>None\<close> is a panic: an index out of range, a shift
  beyond the word, or a failed debug assertion. The theory shows that the word is the set of
  idle executors and interprets the pool as the allocator the sequencer dispatches through.
\<close>

section \<open>Messages, events and handles\<close>

type_synonym executor_id = nat

datatype executor_message = TransactionMsg ticket request | BlockMsg block

datatype executor_event = Completed executor_id ticket | Failed executor_id

datatype service = TransactionExecutor executor_id | TransactionSimulator

datatype processor_error = StateError keeper_error | ServiceUnavailable service | Internal

record executor_handle =
  eh_id :: executor_id
  eh_queue :: "executor_message list"
  eh_open :: bool

definition handle_send :: "executor_message \<Rightarrow> executor_handle \<Rightarrow> processor_error + executor_handle" where
  "handle_send message h =
     (if eh_open h then Inr (h\<lparr>eh_queue := eh_queue h @ [message]\<rparr>)
      else Inl (ServiceUnavailable (TransactionExecutor (eh_id h))))"

section \<open>The pool\<close>

definition MAX_EXECUTORS :: nat where
  "MAX_EXECUTORS = 64"

record executors =
  ex_handles :: "executor_handle list"
  ex_events :: "executor_event list"
  ex_available :: u64

definition trailing_zeros :: "u64 \<Rightarrow> nat" where
  "trailing_zeros w = (case find (bit w) [0..<64] of None \<Rightarrow> 64 | Some i \<Rightarrow> i)"

definition executors_new :: "executor_handle list \<Rightarrow> executor_event list \<Rightarrow> executors option" where
  "executors_new handles events =
     (let count = length handles in
      if MAX_EXECUTORS < count then None
      else Some \<lparr>ex_handles = handles, ex_events = events,
                 ex_available = (if count = 0 then 0 else drop_bit (MAX_EXECUTORS - count) (- 1))\<rparr>)"

definition ex_capacity :: "executors \<Rightarrow> nat" where
  "ex_capacity e = length (ex_handles e)"

definition ex_first_available :: "executors \<Rightarrow> executor_id option" where
  "ex_first_available e = (let i = trailing_zeros (ex_available e) in if i \<noteq> MAX_EXECUTORS then Some i else None)"

definition ex_dispatch :: "executor_id \<Rightarrow> ticket \<times> request \<Rightarrow> executors \<Rightarrow> (executors \<times> (processor_error + unit)) option" where
  "ex_dispatch i ready e =
     (if MAX_EXECUTORS \<le> i \<or> and (ex_available e) (push_bit i 1) = 0 then None
      else do {
        h \<leftarrow> nth_opt (ex_handles e) i;
        Some (case handle_send (TransactionMsg (fst ready) (snd ready)) h of
                Inl error \<Rightarrow> (e, Inl error)
              | Inr h' \<Rightarrow> (e\<lparr>ex_handles := (ex_handles e)[i := h'],
                             ex_available := and (ex_available e) (not (push_bit i 1))\<rparr>, Inr ()))
      })"

definition ex_release :: "executor_id \<Rightarrow> executors \<Rightarrow> executors option" where
  "ex_release i e =
     (if MAX_EXECUTORS \<le> i \<or> and (ex_available e) (push_bit i 1) \<noteq> 0 then None
      else Some (e\<lparr>ex_available := or (ex_available e) (push_bit i 1)\<rparr>))"

fun send_block :: "block \<Rightarrow> executor_handle list \<Rightarrow> executor_handle list \<times> (processor_error + unit)" where
  "send_block block [] = ([], Inr ())"
| "send_block block (executor # rest) =
     (case handle_send (BlockMsg block) executor of
        Inl error \<Rightarrow> (executor # rest, Inl error)
      | Inr executor' \<Rightarrow> (let (rest', r) = send_block block rest in (executor' # rest', r)))"

definition ex_transition :: "block \<Rightarrow> executors \<Rightarrow> executors \<times> (processor_error + unit)" where
  "ex_transition block e = (let (hs, r) = send_block block (ex_handles e) in (e\<lparr>ex_handles := hs\<rparr>, r))"

section \<open>The availability word is a set of executors\<close>

definition idle_set :: "executors \<Rightarrow> executor_id set" where
  "idle_set e = {i. bit (ex_available e) i}"

lemma and_push_bit_eq: "i < 64 \<Longrightarrow> and (w :: u64) (push_bit i 1) = 0 \<longleftrightarrow> \<not> bit w i"
proof
  assume "i < 64" "and w (push_bit i 1) = 0"
  then have "\<not> bit (and w (push_bit i 1)) i" by simp
  then show "\<not> bit w i" using \<open>i < 64\<close> by (simp add: bit_simps)
qed (auto intro!: bit_eqI simp: bit_simps)

lemmas and_bit_eq = and_push_bit_eq [unfolded push_bit_of_1]

lemma idle_bound: "i \<in> idle_set e \<Longrightarrow> i < 64"
  using bit_imp_le_length [of "ex_available e" i] by (simp add: idle_set_def)

lemma trailing_zeros_bit:
  "trailing_zeros w = i \<Longrightarrow> i \<noteq> 64 \<Longrightarrow> bit w i"
  "trailing_zeros w = 64 \<Longrightarrow> w = 0"
proof -
  show "bit w i" if "trailing_zeros w = i" "i \<noteq> 64"
    using that by (auto simp: trailing_zeros_def find_Some_iff split: option.splits)
  show "w = 0" if "trailing_zeros w = 64"
  proof -
    have "find (bit w) [0..<64] = None"
      using that by (auto simp: trailing_zeros_def find_Some_iff split: option.splits)
    then show ?thesis by (intro bit_eqI) (auto simp: find_None_iff)
  qed
qed

lemma trailing_zeros_code [code]:
  "trailing_zeros w = (if w = 0 then 64 else case find (bit w) [0..<64] of None \<Rightarrow> 64 | Some i \<Rightarrow> i)"
  by (auto simp: trailing_zeros_def find_Some_iff split: option.split)

lemma idle_new:
  assumes "executors_new hs evs = Some e"
  shows "idle_set e = {..<length hs}" and "ex_handles e = hs" and "ex_events e = evs"
proof -
  have e: "e = \<lparr>ex_handles = hs, ex_events = evs, ex_available = (if length hs = 0 then 0 else drop_bit (64 - length hs) (- 1))\<rparr>"
    and n: "length hs \<le> 64"
    using assms by (simp_all only: executors_new_def Let_def MAX_EXECUTORS_def split: if_splits) simp_all
  have "bit (drop_bit (64 - length hs) (- 1 :: u64)) i \<longleftrightarrow> i < length hs" if "length hs \<noteq> 0" for i
    unfolding bit_drop_bit_eq comp_def using n that by (simp add: less_diff_conv2)
  then have "bit (ex_available e) i \<longleftrightarrow> i < length hs" for i
    unfolding e by (cases "length hs = 0") (simp_all only: executors.simps if_True if_False refl simp_thms bit_0_eq, simp)
  then show "idle_set e = {..<length hs}" unfolding idle_set_def by blast
  show "ex_handles e = hs" "ex_events e = evs" by (simp_all add: e)
qed

lemma first_available_props:
  "ex_first_available e = Some i \<Longrightarrow> i \<in> idle_set e"
  "ex_first_available e = None \<Longrightarrow> idle_set e = {}"
  using trailing_zeros_bit [of "ex_available e"]
  by (auto simp: ex_first_available_def Let_def idle_set_def MAX_EXECUTORS_def split: if_splits)

lemma idle_clear: "i < 64 \<Longrightarrow> idle_set (e\<lparr>ex_handles := hs, ex_available := and (ex_available e) (not (push_bit i 1))\<rparr>) = idle_set e - {i}"
  using idle_bound [of _ e] by (auto simp: idle_set_def bit_simps)

lemma idle_update: "i < 64 \<Longrightarrow> idle_set (e\<lparr>ex_available := or (ex_available e) (push_bit i 1)\<rparr>) = insert i (idle_set e)"
  by (auto simp: idle_set_def bit_simps)

lemma dispatch_eq:
  assumes "i \<in> idle_set e" "i < length (ex_handles e)" "eh_open (ex_handles e ! i)"
  shows "\<exists>e'. ex_dispatch i (tk, r) e = Some (e', Inr ()) \<and> idle_set e' = idle_set e - {i} \<and> ex_events e' = ex_events e \<and>
    ex_handles e' = (ex_handles e)[i := (ex_handles e ! i)\<lparr>eh_queue := eh_queue (ex_handles e ! i) @ [TransactionMsg tk r]\<rparr>]"
  using assms idle_bound [OF assms(1)] idle_clear [of i e]
  by (simp add: ex_dispatch_def MAX_EXECUTORS_def nth_opt_def handle_send_def and_bit_eq idle_set_def)

lemma dispatch_closed:
  assumes "i \<in> idle_set e" "i < length (ex_handles e)" "\<not> eh_open (ex_handles e ! i)"
  shows "ex_dispatch i ready e = Some (e, Inl (ServiceUnavailable (TransactionExecutor (eh_id (ex_handles e ! i)))))"
  using assms idle_bound [OF assms(1)]
  by (simp add: ex_dispatch_def MAX_EXECUTORS_def nth_opt_def handle_send_def and_bit_eq idle_set_def)

lemma release_eq:
  assumes "i \<notin> idle_set e" "i < 64"
  shows "\<exists>e'. ex_release i e = Some e' \<and> idle_set e' = insert i (idle_set e) \<and> ex_handles e' = ex_handles e \<and> ex_events e' = ex_events e"
  using assms idle_update [of i e] by (simp add: ex_release_def MAX_EXECUTORS_def and_bit_eq idle_set_def)

lemma dispatch_cases:
  assumes "ex_dispatch i j p = Some (p', r)"
  obtains (sent) hs where "i \<in> idle_set p" "i < 64" "r = Inr ()"
      "p' = p\<lparr>ex_handles := hs, ex_available := and (ex_available p) (not (push_bit i 1))\<rparr>"
  | (closed) err where "r = Inl err" "p' = p"
proof -
  have g: "i < 64" "and (ex_available p) (push_bit i 1) \<noteq> 0"
    using assms unfolding ex_dispatch_def MAX_EXECUTORS_def by (metis not_le option.distinct(1))+
  have idle: "i \<in> idle_set p" using g and_push_bit_eq [OF g(1)] unfolding idle_set_def by blast
  obtain h where h: "nth_opt (ex_handles p) i = Some h"
    using assms unfolding ex_dispatch_def by (cases "nth_opt (ex_handles p) i") (auto simp: nth_opt_def split: if_splits)
  show ?thesis
  proof (cases "handle_send (TransactionMsg (fst j) (snd j)) h")
    case (Inl err)
    then show ?thesis using assms unfolding ex_dispatch_def h by (intro closed) (auto split: if_splits)
  next
    case (Inr h')
    then show ?thesis using assms unfolding ex_dispatch_def h by (intro sent [OF idle g(1)]) (auto split: if_splits)
  qed
qed

lemma release_cases:
  assumes "ex_release i p = Some p'"
  shows "i \<notin> idle_set p" "i < 64" "p' = p\<lparr>ex_available := or (ex_available p) (push_bit i 1)\<rparr>"
proof -
  have g: "i < 64" "and (ex_available p) (push_bit i 1) = 0"
    using assms unfolding ex_release_def MAX_EXECUTORS_def by (metis not_le option.distinct(1))+
  show "i \<notin> idle_set p" using g and_push_bit_eq [OF g(1)] unfolding idle_set_def by blast
  show "i < 64" by (rule g(1))
  show "p' = p\<lparr>ex_available := or (ex_available p) (push_bit i 1)\<rparr>"
    using assms g by (simp add: ex_release_def MAX_EXECUTORS_def)
qed

section \<open>The pool as an allocator\<close>

locale worker_pool =
  fixes idle :: "'p \<Rightarrow> nat set"
    and first :: "'p \<Rightarrow> nat option"
    and dispatch :: "nat \<Rightarrow> 'j \<Rightarrow> 'p \<Rightarrow> ('p \<times> ('e + unit)) option"
    and release :: "nat \<Rightarrow> 'p \<Rightarrow> 'p option"
  assumes finite_idle: "finite (idle p)"
    and first_idle: "first p = Some i \<Longrightarrow> i \<in> idle p"
    and first_none: "first p = None \<Longrightarrow> idle p = {}"
    and dispatch_idle: "dispatch i j p = Some (p', Inr ()) \<Longrightarrow> i \<in> idle p \<and> idle p' = idle p - {i}"
    and dispatch_fails: "dispatch i j p = Some (p', Inl err) \<Longrightarrow> p' = p"
    and release_idle: "release i p = Some p' \<Longrightarrow> i \<notin> idle p \<and> idle p' = insert i (idle p)"
begin

lemma dispatch_first_decreases:
  assumes "first p = Some i" "dispatch i j p = Some (p', Inr ())"
  shows "card (idle p') < card (idle p)"
  using first_idle [OF assms(1)] dispatch_idle [OF assms(2)] finite_idle [of p] by (metis card_Diff1_less)

lemma release_after_dispatch:
  assumes "dispatch i j p = Some (p', Inr ())" "release i p' = Some p''"
  shows "idle p'' = idle p"
  using dispatch_idle [OF assms(1)] release_idle [OF assms(2)] by auto

end

interpretation executors: worker_pool idle_set ex_first_available ex_dispatch ex_release
proof
  fix p p' i j err
  show "finite (idle_set p)" using idle_bound by (intro finite_subset [of "idle_set p" "{..<64}"]) auto
  show "i \<in> idle_set p \<and> idle_set p' = idle_set p - {i}" if "ex_dispatch i j p = Some (p', Inr ())"
    using that by (rule dispatch_cases) (simp_all only: idle_clear, simp_all)
  show "p' = p" if "ex_dispatch i j p = Some (p', Inl err)"
    using that by (rule dispatch_cases) simp_all
  show "i \<notin> idle_set p \<and> idle_set p' = insert i (idle_set p)" if "ex_release i p = Some p'"
    unfolding release_cases(3) [OF that] using release_cases(1,2) [OF that] idle_update by blast
qed (fact first_available_props)+

lemma send_block_open:
  assumes "\<forall>h \<in> set hs. eh_open h"
  shows "send_block b hs = (map (\<lambda>h. h\<lparr>eh_queue := eh_queue h @ [BlockMsg b]\<rparr>) hs, Inr ())"
  using assms by (induction hs) (simp_all add: handle_send_def)

lemma send_block_ok:
  assumes "send_block b hs = (hs', Inr ())"
  shows "hs' = map (\<lambda>h. h\<lparr>eh_queue := eh_queue h @ [BlockMsg b]\<rparr>) hs \<and> (\<forall>h \<in> set hs. eh_open h)"
  using assms by (induction hs arbitrary: hs') (auto simp: handle_send_def split: if_splits prod.splits)

end
