(* ===== verification/Svm_Context.thy ===== *)
theory Svm_Context
  imports Keeper_Cache
begin

text \<open>
  The execution context of a worker and the block-derived account state:
  \<^verbatim>\<open>solana/program-runtime/src/sysvar_cache.rs\<close> (the sysvars a program reads through
  \<^verbatim>\<open>sol_get_sysvar\<close>), \<^verbatim>\<open>SvmContext::new\<close> and \<^verbatim>\<open>SvmContext::transition\<close> of
  \<^verbatim>\<open>processor/src/svm.rs\<close>, and \<^verbatim>\<open>update_sysvars\<close> and \<^verbatim>\<open>BlocksAccessor::append\<close> of
  \<^verbatim>\<open>keeper/src/accessor.rs\<close>. The sysvar account ids and the (de)serialization of the sysvar types
  belong to third-party crates and are the fields of \<open>sysvar_env\<close>. Rent and feature
  refreshes of the context are constant between two resets and left out.
\<close>

section \<open>Sysvars\<close>

datatype sysvar =
  ClockVar | EpochScheduleVar | EpochRewardsVar | RentVar | SlotHashesVar | LastRestartSlotVar | FeesVar | RecentBlockhashesVar

record 'a sysvar_env =
  se_id :: "sysvar \<Rightarrow> pubkey"
  se_decodes :: "sysvar \<Rightarrow> bytes \<Rightarrow> bool"
  se_data :: "'a \<Rightarrow> bytes"
  se_set_data :: "bytes \<Rightarrow> 'a \<Rightarrow> 'a option"
  se_add_hash :: "slot \<Rightarrow> hash \<Rightarrow> bytes \<Rightarrow> bytes option"
  se_clock :: "block \<Rightarrow> bytes"

type_synonym 'a accounts = "pubkey \<rightharpoonup> 'a"

record sysvar_cache =
  sc_clock :: "bytes option"
  sc_epoch_schedule :: "bytes option"
  sc_epoch_rewards :: "bytes option"
  sc_rent :: "bytes option"
  sc_slot_hashes :: "bytes option"
  sc_last_restart_slot :: "bytes option"
  sc_fees :: "bytes option"
  sc_recent_blockhashes :: "bytes option"

definition sysvar_cache_reset :: sysvar_cache where
  "sysvar_cache_reset = \<lparr>sc_clock = None, sc_epoch_schedule = None, sc_epoch_rewards = None, sc_rent = None,
     sc_slot_hashes = None, sc_last_restart_slot = None, sc_fees = None, sc_recent_blockhashes = None\<rparr>"

text \<open>The callback of \<^verbatim>\<open>fill_missing_entries\<close>: the account's data, kept only if it decodes.\<close>

definition fill_entry :: "'a sysvar_env \<Rightarrow> 'a accounts \<Rightarrow> sysvar \<Rightarrow> bytes option \<Rightarrow> bytes option" where
  "fill_entry se accs v cached =
     (case cached of
        Some data \<Rightarrow> Some data
      | None \<Rightarrow>
          (case accs (se_id se v) of
             None \<Rightarrow> None
           | Some acc \<Rightarrow> if se_decodes se v (se_data se acc) then Some (se_data se acc) else None))"

definition fill_missing_entries :: "'a sysvar_env \<Rightarrow> 'a accounts \<Rightarrow> sysvar_cache \<Rightarrow> sysvar_cache" where
  "fill_missing_entries se accs c =
     \<lparr>sc_clock = fill_entry se accs ClockVar (sc_clock c),
      sc_epoch_schedule = fill_entry se accs EpochScheduleVar (sc_epoch_schedule c),
      sc_epoch_rewards = fill_entry se accs EpochRewardsVar (sc_epoch_rewards c),
      sc_rent = fill_entry se accs RentVar (sc_rent c),
      sc_slot_hashes = fill_entry se accs SlotHashesVar (sc_slot_hashes c),
      sc_last_restart_slot = fill_entry se accs LastRestartSlotVar (sc_last_restart_slot c),
      sc_fees = fill_entry se accs FeesVar (sc_fees c),
      sc_recent_blockhashes = fill_entry se accs RecentBlockhashesVar (sc_recent_blockhashes c)\<rparr>"

definition set_clock :: "bytes \<Rightarrow> sysvar_cache \<Rightarrow> sysvar_cache" where
  "set_clock data c = c\<lparr>sc_clock := Some data\<rparr>"

text \<open>What \<^verbatim>\<open>sol_get_sysvar\<close> serves.\<close>

definition sysvar_id_to_buffer :: "'a sysvar_env \<Rightarrow> pubkey \<Rightarrow> sysvar_cache \<Rightarrow> bytes option" where
  "sysvar_id_to_buffer se sysvar_id c =
     (if sysvar_id = se_id se ClockVar then sc_clock c
      else if sysvar_id = se_id se EpochScheduleVar then sc_epoch_schedule c
      else if sysvar_id = se_id se EpochRewardsVar then sc_epoch_rewards c
      else if sysvar_id = se_id se RentVar then sc_rent c
      else if sysvar_id = se_id se SlotHashesVar then sc_slot_hashes c
      else if sysvar_id = se_id se LastRestartSlotVar then sc_last_restart_slot c
      else None)"

section \<open>The execution context\<close>

record svm_context =
  sv_slot :: slot
  sv_blockhash :: hash
  sv_cache :: sysvar_cache

text \<open>\<open>None\<close> is the overflow of \<^verbatim>\<open>block.slot + 1\<close> in \<^verbatim>\<open>Keeper::clock\<close>.\<close>

definition svm_new :: "'a sysvar_env \<Rightarrow> block \<Rightarrow> 'a accounts \<Rightarrow> svm_context option" where
  "svm_new se latest accs = do {
     slot \<leftarrow> checked_add (blk_slot latest) 1;
     Some \<lparr>sv_slot = slot, sv_blockhash = blk_hash latest, sv_cache = fill_missing_entries se accs sysvar_cache_reset\<rparr>
   }"

definition svm_transition :: "'a sysvar_env \<Rightarrow> block \<Rightarrow> svm_context \<Rightarrow> svm_context" where
  "svm_transition se block ctx =
     ctx\<lparr>sv_slot := Suc (blk_slot block), sv_blockhash := blk_hash block,
         sv_cache := set_clock (se_clock se block) (sv_cache ctx)\<rparr>"

section \<open>The keeper at a block boundary\<close>

text \<open>
  What the scheduling and execution paths share: the caches, the account state and its slot.
  The outcome of the system calls behind an append is an input.
\<close>

record ('st, 'a) keeper =
  kp_caches :: "'st caches"
  kp_accounts :: "'a accounts"
  kp_slot :: slot

record keeper_io =
  io_appender_open :: bool
  io_store_ok :: bool
  io_set_slot_ok :: bool

definition update_sysvars :: "'a sysvar_env \<Rightarrow> block \<Rightarrow> 'a accounts \<Rightarrow> keeper_error + 'a accounts" where
  "update_sysvars se block accs =
     (case accs (se_id se SlotHashesVar) of
        None \<Rightarrow> Inl (MissingSysvar (se_id se SlotHashesVar))
      | Some hacc \<Rightarrow>
          (case accs (se_id se ClockVar) of
             None \<Rightarrow> Inl (MissingSysvar (se_id se ClockVar))
           | Some cacc \<Rightarrow>
               (case Option.bind (se_add_hash se (blk_slot block) (blk_hash block) (se_data se hacc)) (\<lambda>d. se_set_data se d hacc) of
                  None \<Rightarrow> Inl SysvarCodec
                | Some hacc' \<Rightarrow>
                    (case se_set_data se (se_clock se block) cacc of
                       None \<Rightarrow> Inl SysvarCodec
                     | Some cacc' \<Rightarrow> Inr (accs(se_id se SlotHashesVar \<mapsto> hacc', se_id se ClockVar \<mapsto> cacc'))))))"

definition blocks_append :: "'a sysvar_env \<Rightarrow> keeper_io \<Rightarrow> block \<Rightarrow> bool \<Rightarrow> ('st, 'a) keeper \<Rightarrow>
    (('st, 'a) keeper \<times> (keeper_error + unit)) option" where
  "blocks_append se io block replay kp =
     (if \<not> replay \<and> \<not> io_appender_open io then Some (kp, Inl LedgerClosed)
      else do {
        bc \<leftarrow> bc_push block (ch_blocks (kp_caches kp));
        let kp = kp\<lparr>kp_caches := (kp_caches kp)\<lparr>ch_blocks := bc\<rparr>\<rparr>;
        Some (case update_sysvars se block (kp_accounts kp) of
                Inl e \<Rightarrow> (kp, Inl e)
              | Inr accs \<Rightarrow>
                  if \<not> io_store_ok io then (kp, Inl StoreFailed)
                  else if \<not> io_set_slot_ok io then (kp\<lparr>kp_accounts := accs, kp_slot := blk_slot block\<rparr>, Inl StoreFailed)
                  else (kp\<lparr>kp_accounts := accs, kp_slot := blk_slot block\<rparr>, Inr ()))
      })"

end
