(* ===== verification/Sequencer.thy ===== *)
theory Sequencer
  imports Executors Svm_Context
begin

text \<open>
  The transaction sequencer, \<^verbatim>\<open>processor/src/sequencer/mod.rs\<close>: admission and registration of
  transactions, dispatch of ready work, executor events, backpressure, draining, and the block
  boundary with its hash chain. An operation returns the sequencer it leaves and the result of
  the Rust method, \<open>None\<close> when the code panics. \<open>blake3\<close> and the signing key are parameters; the
  state of the hasher is the bytes fed to it. Metrics are omitted.
\<close>

section \<open>The block-hash chain\<close>

record block_hasher =
  bh_current :: bytes
  bh_parent :: hash

definition bh_new :: "hash \<Rightarrow> block_hasher" where
  "bh_new parent = \<lparr>bh_current = parent, bh_parent = parent\<rparr>"

definition bh_update :: "bytes \<Rightarrow> block_hasher \<Rightarrow> block_hasher" where
  "bh_update signature bh = bh\<lparr>bh_current := bh_current bh @ signature\<rparr>"

definition bh_finalize :: "(bytes \<Rightarrow> hash) \<Rightarrow> block_hasher \<Rightarrow> hash" where
  "bh_finalize blake3 bh = blake3 (bh_current bh)"

definition bh_advance :: "hash \<Rightarrow> block_hasher \<Rightarrow> block_hasher" where
  "bh_advance hash bh = bh\<lparr>bh_parent := hash, bh_current := hash\<rparr>"

section \<open>The sequencer\<close>

definition MAX_PENDING_EXECUTOR_TXNS :: nat where
  "MAX_PENDING_EXECUTOR_TXNS = 16"

record execution_request =
  er_request :: request
  er_blockhash :: hash

type_synonym signed_block = "block \<times> bytes"

datatype block_input = Production block | Replay signed_block

record ('st, 'a) sequencer =
  sq_state :: "('st, 'a) keeper"
  sq_ordering :: ordering_table
  sq_hasher :: block_hasher
  sq_executors :: executors
  sq_slot :: slot
  sq_replay :: bool

definition clamp :: "nat \<Rightarrow> nat \<Rightarrow> nat \<Rightarrow> nat" where
  "clamp n lo hi = max lo (min n hi)"

definition sequencer_new :: "nat \<Rightarrow> ('st, 'a) keeper \<Rightarrow> bool \<Rightarrow> ('st, 'a) sequencer option" where
  "sequencer_new executors state replay = do {
     let count = clamp executors 1 MAX_EXECUTORS;
     let handles = map (\<lambda>i. \<lparr>eh_id = i, eh_queue = [], eh_open = True\<rparr>) [0..<count];
     pool \<leftarrow> executors_new handles [];
     slot \<leftarrow> current_slot (kp_caches state);
     Some \<lparr>sq_state = state, sq_ordering = ot_empty,
           sq_hasher = bh_new (blk_hash (bc_latest (ch_blocks (kp_caches state)))),
           sq_executors = pool, sq_slot = slot, sq_replay = replay\<rparr>
   }"

definition accepting :: "('st, 'a) sequencer \<Rightarrow> bool" where
  "accepting s \<longleftrightarrow> ot_len (sq_ordering s) < MAX_PENDING_EXECUTOR_TXNS * ex_capacity (sq_executors s)"

function dispatch_ready :: "('st, 'a) sequencer \<Rightarrow> (('st, 'a) sequencer \<times> (processor_error + unit)) option" where
  "dispatch_ready s =
     (case ex_first_available (sq_executors s) of
        None \<Rightarrow> Some (s, Inr ())
      | Some i \<Rightarrow>
          (case ot_take_ready (sq_ordering s) of
             (None, t) \<Rightarrow> Some (s, Inr ())
           | (Some transaction, t) \<Rightarrow>
               (case ex_dispatch i transaction (sq_executors s) of
                  None \<Rightarrow> None
                | Some (e, Inl error) \<Rightarrow> Some (s\<lparr>sq_ordering := t, sq_executors := e\<rparr>, Inl error)
                | Some (e, Inr _) \<Rightarrow> dispatch_ready (s\<lparr>sq_ordering := t, sq_executors := e\<rparr>))))"
  by pat_completeness auto
termination
  by (relation "measure (\<lambda>s. length (ot_ready (sq_ordering s)))")
    (auto simp: ot_take_ready_def split: list.splits)

text \<open>
  \<open>schedule\<close> reports a rejected transaction to its submitter, here \<open>Inr (Some error)\<close>, and keeps
  running; the outer error stops the sequencer. Its first half is the admission through the
  keeper, skipped in replay, its second half the registration of an admitted transaction.
\<close>

definition admit :: "keeper_io \<Rightarrow> execution_request \<Rightarrow> ('st, 'a) sequencer \<Rightarrow>
    (('st, 'a) sequencer \<times> (keeper_error + (transaction_error + unit))) option" where
  "admit io request s =
     (if sq_replay s then Some (s, Inr (Inr ()))
      else do {
        (ch, r) \<leftarrow> transactions_append (io_appender_open io) (req_signature (er_request request)) (er_blockhash request)
                    (kp_caches (sq_state s));
        Some (s\<lparr>sq_state := (sq_state s)\<lparr>kp_caches := ch\<rparr>\<rparr>, r)
      })"

definition register_admitted :: "request \<Rightarrow> ('st, 'a) sequencer \<Rightarrow> (('st, 'a) sequencer \<times> (processor_error + unit)) option" where
  "register_admitted r s = do {
     (blocked, t) \<leftarrow> ot_register r (sq_ordering s);
     dispatch_ready (s\<lparr>sq_hasher := bh_update (req_signature r) (sq_hasher s), sq_ordering := t\<rparr>)
   }"

definition schedule :: "keeper_io \<Rightarrow> execution_request \<Rightarrow> ('st, 'a) sequencer \<Rightarrow>
    (('st, 'a) sequencer \<times> (processor_error + transaction_error option)) option" where
  "schedule io request s =
     (case admit io request s of
        None \<Rightarrow> None
      | Some (s1, Inl e) \<Rightarrow> Some (s1, Inl (StateError e))
      | Some (s1, Inr (Inl error)) \<Rightarrow> Some (s1, Inr (Some error))
      | Some (s1, Inr (Inr _)) \<Rightarrow>
          map_option (\<lambda>(s2, r). (s2, map_sum id (\<lambda>_. None) r)) (register_admitted (er_request request) s1))"

definition handle_event :: "executor_event \<Rightarrow> ('st, 'a) sequencer \<Rightarrow> (('st, 'a) sequencer \<times> (processor_error + unit)) option" where
  "handle_event event s =
     (case event of
        Failed i \<Rightarrow> Some (s, Inl (ServiceUnavailable (TransactionExecutor i)))
      | Completed i ticket \<Rightarrow> do {
          e \<leftarrow> ex_release i (sq_executors s);
          (released, t) \<leftarrow> ot_complete ticket (sq_ordering s);
          dispatch_ready (s\<lparr>sq_executors := e, sq_ordering := t\<rparr>)
        })"

text \<open>\<^verbatim>\<open>self.executors.events.recv()\<close> takes the oldest event.\<close>

definition recv_event :: "('st, 'a) sequencer \<Rightarrow> (executor_event \<times> ('st, 'a) sequencer) option" where
  "recv_event s =
     (case ex_events (sq_executors s) of
        [] \<Rightarrow> None
      | event # rest \<Rightarrow> Some (event, s\<lparr>sq_executors := (sq_executors s)\<lparr>ex_events := rest\<rparr>\<rparr>))"

section \<open>Block boundaries\<close>

text \<open>
  \<open>finalize\<close> awaits the drain between its two halves, so it is split there: choosing and checking
  the block, and applying it once the ordering table is empty.
\<close>

definition finalize_begin :: "(bytes \<Rightarrow> hash) \<Rightarrow> (block \<Rightarrow> bytes) \<Rightarrow> block_input \<Rightarrow> ('st, 'a) sequencer \<Rightarrow>
    processor_error + signed_block" where
  "finalize_begin blake3 sign input s =
     (case input of
        Production block \<Rightarrow>
          (let block = block\<lparr>blk_parent := bh_parent (sq_hasher s), blk_hash := bh_finalize blake3 (sq_hasher s)\<rparr>
           in Inr (block, sign block))
      | Replay (block, signature) \<Rightarrow>
          if blk_parent block \<noteq> bh_parent (sq_hasher s) \<or> blk_hash block \<noteq> bh_finalize blake3 (sq_hasher s)
          then Inl Internal else Inr (block, signature))"

definition finalize_end :: "'a sysvar_env \<Rightarrow> keeper_io \<Rightarrow> signed_block \<Rightarrow> ('st, 'a) sequencer \<Rightarrow>
    (('st, 'a) sequencer \<times> (processor_error + unit)) option" where
  "finalize_end se io block s =
     (case ex_transition (fst block) (sq_executors s) of
        (e, Inl error) \<Rightarrow> Some (s\<lparr>sq_executors := e\<rparr>, Inl error)
      | (e, Inr _) \<Rightarrow> do {
          (kp, r) \<leftarrow> blocks_append se io (fst block) (sq_replay s) (sq_state s);
          let s = s\<lparr>sq_executors := e, sq_state := kp\<rparr>;
          (case r of
             Inl error \<Rightarrow> Some (s, Inl (StateError error))
           | Inr _ \<Rightarrow> do {
               let s = s\<lparr>sq_hasher := bh_advance (blk_hash (fst block)) (sq_hasher s)\<rparr>;
               slot \<leftarrow> current_slot (kp_caches kp);
               Some (s\<lparr>sq_slot := slot\<rparr>, Inr ())
             })
        })"

end
