(* ===== verification/Sequencer_Engine.thy ===== *)
theory Sequencer_Engine
  imports Sequencer
begin

text \<open>
  The sequencer and its executor threads running together: the worker loop of
  \<^verbatim>\<open>processor/src/executor.rs\<close>, the message loop of \<^verbatim>\<open>Sequencer::process\<close> with the drain it
  awaits at boundaries, barriers and shutdown, and every interleaving of the two. A worker reads
  accounts, commits its result and reports completion in separate steps. The theories over it show that
  the engine never panics and keeps its work bounded, that draining terminates, and that whatever
  the interleaving the account state at a quiescent point is the one of executing the admitted
  transactions and boundaries one by one.
\<close>

section \<open>Workers\<close>

text \<open>
  The SVM, \<open>w_exec\<close>, maps the context of a worker, a request and the accounts to the accounts
  after execution; \<open>w_status\<close> is the recorded status. Hashing, signing and the sysvar codecs are
  the other parameters.
\<close>

record ('st, 'a) world =
  w_blake3 :: "bytes \<Rightarrow> hash"
  w_sign :: "block \<Rightarrow> bytes"
  w_sysvars :: "'a sysvar_env"
  w_exec :: "svm_context \<Rightarrow> request \<Rightarrow> 'a accounts \<Rightarrow> 'a accounts"
  w_status :: "svm_context \<Rightarrow> request \<Rightarrow> 'a accounts \<Rightarrow> 'st"

datatype ('st, 'a) activity = Waiting | Running ticket request "'a accounts" 'st | Finished ticket | Stopped ticket

record ('st, 'a) worker =
  wk_svm :: svm_context
  wk_activity :: "('st, 'a) activity"

datatype after_drain = FinishBlock signed_block bool | Quiesce | Terminate

datatype phase = Processing | Draining after_drain | Paused | Halted

record ('st, 'a) engine =
  eg_seq :: "('st, 'a) sequencer"
  eg_phase :: phase
  eg_workers :: "('st, 'a) worker list"

abbreviation eg_pool :: "('st, 'a) engine \<Rightarrow> executors" where
  "eg_pool g \<equiv> sq_executors (eg_seq g)"

abbreviation eg_handles :: "('st, 'a) engine \<Rightarrow> executor_handle list" where
  "eg_handles g \<equiv> ex_handles (sq_executors (eg_seq g))"

abbreviation eg_events :: "('st, 'a) engine \<Rightarrow> executor_event list" where
  "eg_events g \<equiv> ex_events (sq_executors (eg_seq g))"

abbreviation eg_accounts :: "('st, 'a) engine \<Rightarrow> 'a accounts" where
  "eg_accounts g \<equiv> kp_accounts (sq_state (eg_seq g))"

definition set_worker :: "executor_id \<Rightarrow> ('st, 'a) worker \<Rightarrow> ('st, 'a) engine \<Rightarrow> ('st, 'a) engine" where
  "set_worker i wk g = g\<lparr>eg_workers := (eg_workers g)[i := wk]\<rparr>"

definition on_pool :: "(executors \<Rightarrow> executors) \<Rightarrow> ('st, 'a) engine \<Rightarrow> ('st, 'a) engine" where
  "on_pool f g = g\<lparr>eg_seq := (eg_seq g)\<lparr>sq_executors := f (eg_pool g)\<rparr>\<rparr>"

definition set_handle :: "executor_id \<Rightarrow> executor_handle \<Rightarrow> executors \<Rightarrow> executors" where
  "set_handle i h e = e\<lparr>ex_handles := (ex_handles e)[i := h]\<rparr>"

definition send_event :: "executor_event \<Rightarrow> executors \<Rightarrow> executors" where
  "send_event event e = e\<lparr>ex_events := ex_events e @ [event]\<rparr>"

text \<open>One receive of the worker loop; \<open>None\<close> while there is nothing to receive.\<close>

definition worker_recv :: "('st, 'a) world \<Rightarrow> executor_id \<Rightarrow> ('st, 'a) engine \<Rightarrow> ('st, 'a) engine option" where
  "worker_recv w i g = do {
     wk \<leftarrow> nth_opt (eg_workers g) i;
     h \<leftarrow> nth_opt (eg_handles g) i;
     (case wk_activity wk of
        Waiting \<Rightarrow>
          (case eh_queue h of
             [] \<Rightarrow> None
           | TransactionMsg tk r # rest \<Rightarrow>
               Some (on_pool (set_handle i (h\<lparr>eh_queue := rest\<rparr>)) (set_worker i (wk\<lparr>wk_activity :=
                 Running tk r (w_exec w (wk_svm wk) r (eg_accounts g)) (w_status w (wk_svm wk) r (eg_accounts g))\<rparr>) g))
           | BlockMsg b # rest \<Rightarrow>
               Some (on_pool (set_handle i (h\<lparr>eh_queue := rest\<rparr>))
                 (set_worker i (wk\<lparr>wk_svm := svm_transition (w_sysvars w) b (wk_svm wk)\<rparr>) g)))
      | _ \<Rightarrow> None)
   }"

text \<open>The commit of \<^verbatim>\<open>TransactionExecutor::process\<close>, live or replayed: accounts and signature status.\<close>

definition commit_request :: "bool \<Rightarrow> slot \<Rightarrow> request \<Rightarrow> 'a accounts \<Rightarrow> 'st \<Rightarrow> ('st, 'a) keeper \<Rightarrow> ('st, 'a) keeper option" where
  "commit_request replay slot r out status kp = do {
     ch \<leftarrow> (if replay then replay_status (req_signature r) status slot (kp_caches kp)
            else Some (commit_status (req_signature r) status (kp_caches kp)));
     Some (kp\<lparr>kp_caches := ch, kp_accounts := (\<lambda>k. if writes r k then out k else kp_accounts kp k)\<rparr>)
   }"

definition worker_commit :: "executor_id \<Rightarrow> ('st, 'a) engine \<Rightarrow> ('st, 'a) engine option" where
  "worker_commit i g = do {
     wk \<leftarrow> nth_opt (eg_workers g) i;
     (case wk_activity wk of
        Running tk r out status \<Rightarrow> do {
          kp \<leftarrow> commit_request (sq_replay (eg_seq g)) (sv_slot (wk_svm wk)) r out status (sq_state (eg_seq g));
          Some (set_worker i (wk\<lparr>wk_activity := Finished tk\<rparr>) (g\<lparr>eg_seq := (eg_seq g)\<lparr>sq_state := kp\<rparr>\<rparr>))
        }
      | _ \<Rightarrow> None)
   }"

definition worker_report :: "executor_id \<Rightarrow> ('st, 'a) engine \<Rightarrow> ('st, 'a) engine option" where
  "worker_report i g = do {
     wk \<leftarrow> nth_opt (eg_workers g) i;
     (case wk_activity wk of
        Finished tk \<Rightarrow> Some (on_pool (send_event (Completed i tk)) (set_worker i (wk\<lparr>wk_activity := Waiting\<rparr>) g))
      | _ \<Rightarrow> None)
   }"

text \<open>A failed \<^verbatim>\<open>process\<close>: the receiver is dropped before the failure is reported.\<close>

definition worker_fail :: "executor_id \<Rightarrow> ('st, 'a) engine \<Rightarrow> ('st, 'a) engine option" where
  "worker_fail i g = do {
     wk \<leftarrow> nth_opt (eg_workers g) i;
     h \<leftarrow> nth_opt (eg_handles g) i;
     (case wk_activity wk of
        Running tk r out status \<Rightarrow>
          Some (on_pool (send_event (Failed i) \<circ> set_handle i (h\<lparr>eh_open := False\<rparr>))
            (set_worker i (wk\<lparr>wk_activity := Stopped tk\<rparr>) g))
      | _ \<Rightarrow> None)
   }"

section \<open>The message loop\<close>

definition outcome_phase :: "phase \<Rightarrow> processor_error + 'x \<Rightarrow> phase" where
  "outcome_phase p r = (case r of Inl _ \<Rightarrow> Halted | Inr _ \<Rightarrow> p)"

text \<open>The head of \<^verbatim>\<open>drain\<close>, then its loop condition with what the caller does after the drain.\<close>

definition drain_begin :: "after_drain \<Rightarrow> ('st, 'a) engine \<Rightarrow> ('st, 'a) engine option" where
  "drain_begin c g = do {
     (s, r) \<leftarrow> dispatch_ready (eg_seq g);
     Some (g\<lparr>eg_seq := s, eg_phase := outcome_phase (Draining c) r\<rparr>)
   }"

definition drain_end :: "('st, 'a) world \<Rightarrow> keeper_io \<Rightarrow> after_drain \<Rightarrow> ('st, 'a) engine \<Rightarrow> ('st, 'a) engine option" where
  "drain_end w io c g =
     (let s = (eg_seq g)\<lparr>sq_ordering := ot_reset (sq_ordering (eg_seq g))\<rparr> in
      case c of
        FinishBlock block pause \<Rightarrow> do {
          (s, r) \<leftarrow> finalize_end (w_sysvars w) io block s;
          Some (g\<lparr>eg_seq := s, eg_phase := outcome_phase (if pause then Paused else Processing) r\<rparr>)
        }
      | Quiesce \<Rightarrow> Some (g\<lparr>eg_seq := s, eg_phase := Paused\<rparr>)
      | Terminate \<Rightarrow> Some (g\<lparr>eg_seq := s, eg_phase := Halted\<rparr>))"

definition process_event :: "('st, 'a) engine \<Rightarrow> ('st, 'a) engine option" where
  "process_event g = do {
     (event, s) \<leftarrow> recv_event (eg_seq g);
     (s, r) \<leftarrow> handle_event event s;
     Some (g\<lparr>eg_seq := s, eg_phase := outcome_phase (eg_phase g) r\<rparr>)
   }"

datatype stream_item = TxItem request | BlockItem block

text \<open>
  The steps of the engine, with the items they add to the stream of admitted transactions and
  applied boundaries. A submitted request has distinct account keys, which sanitization
  establishes, and the table has room for its ticket.
\<close>

inductive engine_step :: "('st, 'a) world \<Rightarrow> ('st, 'a) engine \<Rightarrow> stream_item list \<Rightarrow> ('st, 'a) engine \<Rightarrow> bool" for w where
  es_submit: "eg_phase g = Processing \<Longrightarrow> accepting (eg_seq g) \<Longrightarrow> distinct (req_keys (er_request request)) \<Longrightarrow>
    Suc (length (ot_nodes (sq_ordering (eg_seq g)))) < COMPLETE \<Longrightarrow> schedule io request (eg_seq g) = Some (s, r) \<Longrightarrow>
    engine_step w g (if r = Inr None then [TxItem (er_request request)] else []) (g\<lparr>eg_seq := s, eg_phase := outcome_phase Processing r\<rparr>)"
| es_block: "eg_phase g = Processing \<Longrightarrow> accepting (eg_seq g) \<Longrightarrow>
    finalize_begin (w_blake3 w) (w_sign w) input (eg_seq g) = Inr block \<Longrightarrow> drain_begin (FinishBlock block pause) g = Some g' \<Longrightarrow>
    engine_step w g [] g'"
| es_reject: "eg_phase g = Processing \<Longrightarrow> accepting (eg_seq g) \<Longrightarrow>
    finalize_begin (w_blake3 w) (w_sign w) input (eg_seq g) = Inl error \<Longrightarrow> engine_step w g [] (g\<lparr>eg_phase := Halted\<rparr>)"
| es_barrier: "eg_phase g = Processing \<Longrightarrow> accepting (eg_seq g) \<Longrightarrow> c = Quiesce \<or> c = Terminate \<Longrightarrow>
    drain_begin c g = Some g' \<Longrightarrow> engine_step w g [] g'"
| es_event: "eg_phase g = Processing \<or> (\<exists>c. eg_phase g = Draining c) \<and> \<not> ot_is_empty (sq_ordering (eg_seq g)) \<Longrightarrow>
    process_event g = Some g' \<Longrightarrow> engine_step w g [] g'"
| es_drained: "eg_phase g = Draining c \<Longrightarrow> ot_is_empty (sq_ordering (eg_seq g)) \<Longrightarrow> drain_end w io c g = Some g' \<Longrightarrow>
    engine_step w g (case c of FinishBlock block _ \<Rightarrow> if eg_phase g' = Halted then [] else [BlockItem (fst block)] | _ \<Rightarrow> []) g'"
| es_release: "eg_phase g = Paused \<Longrightarrow> engine_step w g [] (g\<lparr>eg_phase := Processing\<rparr>)"
| es_recv: "worker_recv w i g = Some g' \<Longrightarrow> engine_step w g [] g'"
| es_commit: "worker_commit i g = Some g' \<Longrightarrow> engine_step w g [] g'"
| es_report: "worker_report i g = Some g' \<Longrightarrow> engine_step w g [] g'"
| es_fail: "worker_fail i g = Some g' \<Longrightarrow> engine_step w g [] g'"

definition engine_new :: "('st, 'a) world \<Rightarrow> nat \<Rightarrow> ('st, 'a) keeper \<Rightarrow> bool \<Rightarrow> ('st, 'a) engine option" where
  "engine_new w executors state replay = do {
     s \<leftarrow> sequencer_new executors state replay;
     ctx \<leftarrow> svm_new (w_sysvars w) (bc_latest (ch_blocks (kp_caches state))) (kp_accounts state);
     Some \<lparr>eg_seq = s, eg_phase = Processing,
           eg_workers = replicate (ex_capacity (sq_executors s)) \<lparr>wk_svm = ctx, wk_activity = Waiting\<rparr>\<rparr>
   }"

inductive engine_run :: "('st, 'a) world \<Rightarrow> ('st, 'a) engine \<Rightarrow> stream_item list \<Rightarrow> ('st, 'a) engine \<Rightarrow> bool" for w g0 where
  er_start: "engine_run w g0 [] g0"
| er_step: "engine_run w g0 items g \<Longrightarrow> engine_step w g new g' \<Longrightarrow> engine_run w g0 (items @ new) g'"

section \<open>Serial execution\<close>

text \<open>What the engine implements: one worker, one request at a time, boundaries in between.\<close>

fun serial_step :: "('st, 'a) world \<Rightarrow> stream_item \<Rightarrow> svm_context \<times> 'a accounts \<Rightarrow> svm_context \<times> 'a accounts" where
  "serial_step w (TxItem r) (ctx, accs) = (ctx, w_exec w ctx r accs)"
| "serial_step w (BlockItem b) (ctx, accs) =
     (svm_transition (w_sysvars w) b ctx, case update_sysvars (w_sysvars w) b accs of Inl _ \<Rightarrow> accs | Inr accs' \<Rightarrow> accs')"

definition serial :: "('st, 'a) world \<Rightarrow> stream_item list \<Rightarrow> svm_context \<times> 'a accounts \<Rightarrow> svm_context \<times> 'a accounts" where
  "serial w items = fold (serial_step w) items"

end
