(* ===== verification/Sequencer_Inv.thy ===== *)
theory Sequencer_Inv
  imports Sequencer_Engine
begin

text \<open>
  The invariant of the running engine. A ghost assignment gives every executor at most one
  ticket; each worker is in one of six situations with respect to its ticket; the tickets in
  flight are the ones the ordering table considers running; and the account state is the one of
  executing the committed tickets in commit order, an order that keeps conflicting requests in
  stream order. Every operation of the sequencer and every worker step keeps it.
\<close>

section \<open>What one worker is doing\<close>

definition ev_id :: "executor_event \<Rightarrow> executor_id" where
  "ev_id ev = (case ev of Completed i _ \<Rightarrow> i | Failed i \<Rightarrow> i)"

lemma ev_id_simps [simp]: "ev_id (Completed i tk) = i" "ev_id (Failed i) = i"
  by (simp_all add: ev_id_def)

abbreviation events_of :: "executor_id \<Rightarrow> executor_event list \<Rightarrow> executor_event list" where
  "events_of i \<equiv> filter (\<lambda>ev. ev_id ev = i)"

inductive worker_ok :: "('st, 'a) world \<Rightarrow> request list \<Rightarrow> svm_context \<Rightarrow> 'a accounts \<Rightarrow> ticket set \<Rightarrow> executor_id \<Rightarrow>
    executor_handle \<Rightarrow> ('st, 'a) worker \<Rightarrow> executor_event list \<Rightarrow> ticket option \<Rightarrow> bool"
  for w h ctx accs committed i eh wk where
  wk_free: "eh_open eh \<Longrightarrow> eh_queue eh = map BlockMsg bs \<Longrightarrow> wk_activity wk = Waiting \<Longrightarrow>
    fold (svm_transition (w_sysvars w)) bs (wk_svm wk) = ctx \<Longrightarrow> worker_ok w h ctx accs committed i eh wk [] None"
| wk_queued: "eh_open eh \<Longrightarrow> eh_queue eh = map BlockMsg bs @ [TransactionMsg tk (h ! tk)] \<Longrightarrow> wk_activity wk = Waiting \<Longrightarrow>
    fold (svm_transition (w_sysvars w)) bs (wk_svm wk) = ctx \<Longrightarrow> tk \<notin> committed \<Longrightarrow>
    worker_ok w h ctx accs committed i eh wk [] (Some tk)"
| wk_running: "eh_open eh \<Longrightarrow> eh_queue eh = [] \<Longrightarrow> wk_activity wk = Running tk (h ! tk) out st \<Longrightarrow> wk_svm wk = ctx \<Longrightarrow>
    (\<And>k. writes (h ! tk) k \<Longrightarrow> out k = w_exec w ctx (h ! tk) accs k) \<Longrightarrow> tk \<notin> committed \<Longrightarrow>
    worker_ok w h ctx accs committed i eh wk [] (Some tk)"
| wk_finished: "eh_open eh \<Longrightarrow> eh_queue eh = [] \<Longrightarrow> wk_activity wk = Finished tk \<Longrightarrow> wk_svm wk = ctx \<Longrightarrow> tk \<in> committed \<Longrightarrow>
    worker_ok w h ctx accs committed i eh wk [] (Some tk)"
| wk_reported: "eh_open eh \<Longrightarrow> eh_queue eh = [] \<Longrightarrow> wk_activity wk = Waiting \<Longrightarrow> wk_svm wk = ctx \<Longrightarrow> tk \<in> committed \<Longrightarrow>
    worker_ok w h ctx accs committed i eh wk [Completed i tk] (Some tk)"
| wk_stopped: "\<not> eh_open eh \<Longrightarrow> wk_activity wk = Stopped tk \<Longrightarrow> tk \<notin> committed \<Longrightarrow>
    worker_ok w h ctx accs committed i eh wk [Failed i] (Some tk)"

inductive_cases free_worker: "worker_ok w h ctx accs committed i eh wk evs None"
inductive_cases reported_worker: "worker_ok w h ctx accs committed i eh wk (ev # evs) job"

text \<open>The situation only depends on the worker's own request, on its ticket being committed, and on the accounts it read.\<close>

lemma worker_ok_mono:
  assumes "worker_ok w h ctx accs committed i eh wk evs job"
    and "\<And>tk. job = Some tk \<Longrightarrow> h' ! tk = h ! tk \<and> (tk \<in> committed' \<longleftrightarrow> tk \<in> committed)"
    and "\<And>tk k. job = Some tk \<Longrightarrow> tk \<notin> committed \<Longrightarrow> writes (h ! tk) k \<Longrightarrow>
      w_exec w ctx (h ! tk) accs' k = w_exec w ctx (h ! tk) accs k"
  shows "worker_ok w h' ctx accs' committed' i eh wk evs job"
  using assms(1)
proof (cases rule: worker_ok.cases)
  case (wk_queued bs tk)
  then show ?thesis using assms(2) [of tk] by (auto intro: worker_ok.wk_queued)
next
  case (wk_running tk out st)
  then show ?thesis using assms(2) [of tk] assms(3) [of tk] by (auto intro!: worker_ok.wk_running [of eh wk tk h' out st])
qed (use assms(2) in \<open>auto intro: worker_ok.intros\<close>)

section \<open>The pool and its tickets\<close>

definition assigned :: "nat \<Rightarrow> ticket list \<Rightarrow> (executor_id \<Rightarrow> ticket option) \<Rightarrow> bool" where
  "assigned n run job \<longleftrightarrow> (\<forall>tk. tk \<in> set run \<longleftrightarrow> (\<exists>i < n. job i = Some tk)) \<and>
     (\<forall>i < n. \<forall>j < n. \<forall>tk. job i = Some tk \<longrightarrow> job j = Some tk \<longrightarrow> i = j)"

lemma assignedD:
  assumes "assigned n run job"
  shows "tk \<in> set run \<longleftrightarrow> (\<exists>i < n. job i = Some tk)"
    and "i < n \<Longrightarrow> j < n \<Longrightarrow> job i = Some tk \<Longrightarrow> job j = Some tk \<Longrightarrow> i = j"
  using assms unfolding assigned_def by blast+

lemma assigned_add:
  assumes "assigned n run job" "i < n" "job i = None" "tk \<notin> set run"
  shows "assigned n (tk # run) (job(i \<mapsto> tk))"
  unfolding assigned_def
proof (intro conjI allI impI)
  have no: "job j \<noteq> Some tk" if "j < n" for j using assignedD(1) [OF assms(1)] assms(4) that by blast
  fix x
  show "x \<in> set (tk # run) \<longleftrightarrow> (\<exists>j < n. (job(i \<mapsto> tk)) j = Some x)"
  proof (cases "x = tk")
    case False
    then have "(job(i \<mapsto> tk)) j = Some x \<longleftrightarrow> job j = Some x" for j using assms(3) by simp
    then show ?thesis using False assignedD(1) [OF assms(1), of x] by simp
  qed (use assms(2) in auto)
  fix j k
  assume "j < n" "k < n" "(job(i \<mapsto> tk)) j = Some x" "(job(i \<mapsto> tk)) k = Some x"
  then show "j = k" using no assignedD(2) [OF assms(1), of j k x] by (cases "j = i"; cases "k = i") auto
qed

lemma assigned_remove:
  assumes "assigned n run job" "distinct run" "i < n" "job i = Some tk"
  shows "assigned n (remove1 tk run) (job(i := None))"
  unfolding assigned_def
proof (intro conjI allI impI)
  fix x
  have "(\<exists>j < n. (job(i := None)) j = Some x) \<longleftrightarrow> x \<noteq> tk \<and> (\<exists>j < n. job j = Some x)"
  proof (cases "x = tk")
    case True
    then show ?thesis using assignedD(2) [OF assms(1) _ assms(3) _ assms(4)] by auto
  next
    case False
    then have "(job(i := None)) j = Some x \<longleftrightarrow> job j = Some x" for j using assms(4) by simp
    then show ?thesis using False by simp
  qed
  then show "x \<in> set (remove1 tk run) \<longleftrightarrow> (\<exists>j < n. (job(i := None)) j = Some x)"
    using assignedD(1) [OF assms(1), of x] assms(2) by auto
  fix j k
  assume "j < n" "k < n" "(job(i := None)) j = Some x" "(job(i := None)) k = Some x"
  then show "j = k" using assignedD(2) [OF assms(1), of j k x] by (cases "j = i"; cases "k = i") auto
qed

definition pool_ok :: "('st, 'a) world \<Rightarrow> request list \<Rightarrow> svm_context \<Rightarrow> 'a accounts \<Rightarrow> ticket set \<Rightarrow> ticket list \<Rightarrow>
    (executor_id \<Rightarrow> ticket option) \<Rightarrow> executors \<Rightarrow> ('st, 'a) worker list \<Rightarrow> bool" where
  "pool_ok w h ctx accs committed run job e wks \<longleftrightarrow>
     length wks = ex_capacity e \<and> 0 < ex_capacity e \<and> ex_capacity e \<le> MAX_EXECUTORS \<and>
     idle_set e = {i. i < ex_capacity e \<and> job i = None} \<and>
     (\<forall>i < ex_capacity e. worker_ok w h ctx accs committed i (ex_handles e ! i) (wks ! i) (events_of i (ex_events e)) (job i)) \<and>
     (\<forall>ev \<in> set (ex_events e). ev_id ev < ex_capacity e) \<and>
     assigned (ex_capacity e) run job"

lemma pool_okD:
  assumes "pool_ok w h ctx accs committed run job e wks"
  shows "length wks = ex_capacity e" "0 < ex_capacity e" "ex_capacity e \<le> MAX_EXECUTORS"
    and "idle_set e = {i. i < ex_capacity e \<and> job i = None}"
    and "i < ex_capacity e \<Longrightarrow> worker_ok w h ctx accs committed i (ex_handles e ! i) (wks ! i) (events_of i (ex_events e)) (job i)"
    and "ev \<in> set (ex_events e) \<Longrightarrow> ev_id ev < ex_capacity e"
    and "assigned (ex_capacity e) run job"
  using assms by (auto simp: pool_ok_def)

definition commit_ok :: "request list \<Rightarrow> ticket list \<Rightarrow> ticket list \<Rightarrow> ticket list \<Rightarrow> bool" where
  "commit_ok h run log clog \<longleftrightarrow>
     distinct clog \<and> set log \<subseteq> set clog \<and> set clog \<subseteq> set log \<union> set run \<and>
     (\<forall>i j. i < j \<and> j \<in> set clog \<and> conflict (h ! i) (h ! j) \<longrightarrow> before_in clog i j)"

lemma ot_reach_facts:
  assumes "ot_reach h t run log"
  shows "distinct run" "set run \<subseteq> {..<length h}" "set log \<subseteq> {..<length h}" "set run \<inter> set log = {}"
    "length (ot_nodes t) = length h" "ot_len t = card (dom (ot_blocked t)) + length (ot_ready t) + length run"
proof -
  note q = ot_reach_queue [OF assms] and g = ot_reach_graph [OF assms] and l = ot_reach_log [OF assms]
  have run: "runnable t tk" if "tk \<in> set run" for tk using queue_okD(4) [OF q] that by auto
  show "distinct run" using queue_okD(3) [OF q] by simp
  show "length (ot_nodes t) = length h" by (rule queue_okD(1) [OF q])
  show "set run \<subseteq> {..<length h}" using run runnable_bound queue_okD(1) [OF q] by fastforce
  show "set log \<subseteq> {..<length h}" "set run \<inter> set log = {}"
    using log_okD(2) [OF l] run by (auto simp: runnable_def)
  have "{i. unfinished t i} = dom (ot_blocked t) \<union> set (map fst (ot_ready t) @ run)"
    using queue_okD(2,4) [OF q] by (auto simp: dom_def runnable_def split: if_splits)
  moreover have "dom (ot_blocked t) \<inter> set (map fst (ot_ready t) @ run) = {}"
    using queue_okD(2,4) [OF q] by (auto simp: dom_def split: if_splits)
  moreover have "finite (dom (ot_blocked t))"
    using calculation(1) finite_unfinished [of t] by (metis finite_Un)
  ultimately have "card {i. unfinished t i} = card (dom (ot_blocked t)) + card (set (map fst (ot_ready t) @ run))"
    by (simp add: card_Un_disjoint)
  then show "ot_len t = card (dom (ot_blocked t)) + length (ot_ready t) + length run"
    using graph_okD(7) [OF g] distinct_card [OF queue_okD(3) [OF q]] by (simp add: ot_len_def)
qed

text \<open>A request is only handed out once every earlier conflicting one has completed.\<close>

lemma running_preds_logged:
  assumes "ot_reach h t run log" "j \<in> set run" "i < j" "conflict (h ! i) (h ! j)"
  shows "i \<in> set log"
proof (rule ccontr)
  assume "i \<notin> set log"
  have j: "runnable t j" using queue_okD(4) [OF ot_reach_queue [OF assms(1)]] assms(2) by auto
  have "j < length h" using ot_reach_facts(2) [OF assms(1)] assms(2) by auto
  then have "unfinished t i"
    using log_okD(2) [OF ot_reach_log [OF assms(1)]] \<open>i \<notin> set log\<close> assms(3) by auto
  then have "(edge t)\<^sup>+\<^sup>+ i j"
    using chain_okD [OF ot_reach_chain [OF assms(1)] assms(3) \<open>j < length h\<close> _ assms(4)] by blast
  then show False using runnable_no_path [OF ot_reach_graph [OF assms(1)] j] by blast
qed

section \<open>Dispatching\<close>

declare dispatch_ready.simps [simp del]

definition seq_ok :: "('st, 'a) world \<Rightarrow> svm_context \<Rightarrow> 'a accounts \<Rightarrow> ('st, 'a) worker list \<Rightarrow> request list \<Rightarrow> ticket list \<Rightarrow>
    ticket list \<Rightarrow> ticket list \<Rightarrow> (executor_id \<Rightarrow> ticket option) \<Rightarrow> ('st, 'a) sequencer \<Rightarrow> bool" where
  "seq_ok w ctx accs wks h run log clog job s \<longleftrightarrow>
     ot_reach h (sq_ordering s) run log \<and> commit_ok h run log clog \<and>
     pool_ok w h ctx accs (set clog) run job (sq_executors s) wks"

definition undispatched :: "ordering_table \<Rightarrow> nat" where
  "undispatched t = card (dom (ot_blocked t)) + length (ot_ready t)"

definition queued :: "executors \<Rightarrow> nat" where
  "queued e = (\<Sum>h \<leftarrow> ex_handles e. length (eh_queue h))"

definition seq_load :: "('st, 'a) sequencer \<Rightarrow> nat" where
  "seq_load s = 5 * undispatched (sq_ordering s) + 4 * queued (sq_executors s)"

text \<open>After dispatching, work is left only if every executor is busy.\<close>

definition work_conserving :: "('st, 'a) sequencer \<Rightarrow> bool" where
  "work_conserving s \<longleftrightarrow> ot_ready (sq_ordering s) = [] \<or> idle_set (sq_executors s) = {}"

lemma queued_update:
  assumes "i < length (ex_handles e)" "ex_handles e' = (ex_handles e)[i := h]" "length (eh_queue h) = Suc (length (eh_queue (ex_handles e ! i)))"
  shows "queued e' = Suc (queued e)"
proof -
  have "sum_list (map (length \<circ> eh_queue) ((ex_handles e)[i := h])) = Suc (sum_list (map (length \<circ> eh_queue) (ex_handles e)))"
    using assms(1,3) elem_le_sum_list [of i "map (length \<circ> eh_queue) (ex_handles e)"]
    by (simp add: map_update sum_list_update)
  then show ?thesis by (simp add: queued_def assms(2) comp_def)
qed

lemma pool_dispatch:
  assumes ok: "pool_ok w h ctx accs committed run job e wks" and i: "i < ex_capacity e" "job i = None"
    and tk: "tk \<notin> set run" "tk \<notin> committed"
    and e': "idle_set e' = idle_set e - {i}" "ex_events e' = ex_events e"
      "ex_handles e' = (ex_handles e)[i := (ex_handles e ! i)\<lparr>eh_queue := eh_queue (ex_handles e ! i) @ [TransactionMsg tk (h ! tk)]\<rparr>]"
  shows "pool_ok w h ctx accs committed (tk # run) (job(i \<mapsto> tk)) e' wks"
proof -
  have cap: "ex_capacity e' = ex_capacity e" by (simp add: ex_capacity_def e')
  have free: "worker_ok w h ctx accs committed i (ex_handles e ! i) (wks ! i) (events_of i (ex_events e)) None"
    using pool_okD(5) [OF ok i(1)] i(2) by simp
  have "worker_ok w h ctx accs committed i (ex_handles e' ! i) (wks ! i) (events_of i (ex_events e')) (Some tk)"
    using free
  proof (rule free_worker)
    fix bs
    assume "eh_open (ex_handles e ! i)" "eh_queue (ex_handles e ! i) = map BlockMsg bs" "wk_activity (wks ! i) = Waiting"
      "fold (svm_transition (w_sysvars w)) bs (wk_svm (wks ! i)) = ctx" "events_of i (ex_events e) = []"
    then show ?thesis
      unfolding e'(2) using i(1) tk(2) by (auto simp: e'(3) ex_capacity_def intro: worker_ok.wk_queued)
  qed
  moreover have "worker_ok w h ctx accs committed j (ex_handles e' ! j) (wks ! j) (events_of j (ex_events e')) (job j)"
    if "j < ex_capacity e" "j \<noteq> i" for j
    using pool_okD(5) [OF ok that(1)] that(2) by (simp add: e')
  moreover have "idle_set e' = {j. j < ex_capacity e \<and> (job(i \<mapsto> tk)) j = None}"
    using pool_okD(4) [OF ok] by (auto simp: e'(1))
  ultimately show ?thesis
    unfolding pool_ok_def cap e'(2) using pool_okD(1-3,6) [OF ok] assigned_add [OF pool_okD(7) [OF ok] i tk(1)] by simp
qed

lemma dispatch_one:
  assumes ok: "seq_ok w ctx accs wks h run log clog job s" and first: "ex_first_available (sq_executors s) = Some i"
    and ready: "ot_ready (sq_ordering s) = (tk, r) # rest"
  shows "\<exists>e. ex_dispatch i (tk, r) (sq_executors s) = Some (e, Inr ()) \<and> ex_events e = ex_events (sq_executors s) \<and>
    ex_capacity e = ex_capacity (sq_executors s) \<and>
    seq_ok w ctx accs wks h (tk # run) log clog (job(i \<mapsto> tk)) (s\<lparr>sq_ordering := (sq_ordering s)\<lparr>ot_ready := rest\<rparr>, sq_executors := e\<rparr>) \<and>
    seq_load (s\<lparr>sq_ordering := (sq_ordering s)\<lparr>ot_ready := rest\<rparr>, sq_executors := e\<rparr>) < seq_load s"
proof -
  let ?e = "sq_executors s" and ?t = "sq_ordering s"
  have reach: "ot_reach h ?t run log" and com: "commit_ok h run log clog" and pool: "pool_ok w h ctx accs (set clog) run job ?e wks"
    using ok by (auto simp: seq_ok_def)
  have take: "ot_take_ready ?t = (Some (tk, r), ?t\<lparr>ot_ready := rest\<rparr>)" by (simp add: ot_take_ready_def ready)
  have reach': "ot_reach h (?t\<lparr>ot_ready := rest\<rparr>) (tk # run) log" by (rule ot_take [OF reach take])
  have r: "r = h ! tk" by (rule ot_inv_take(2) [OF ot_reach_inv [OF reach] take])
  have idle: "i \<in> idle_set ?e" by (rule first_available_props(1) [OF first])
  then have i: "i < ex_capacity ?e" "job i = None" using pool_okD(4) [OF pool] by auto
  have open_i: "eh_open (ex_handles ?e ! i)"
    using pool_okD(5) [OF pool i(1)] unfolding i(2) by (rule free_worker)
  obtain e where e: "ex_dispatch i (tk, r) ?e = Some (e, Inr ())" "idle_set e = idle_set ?e - {i}" "ex_events e = ex_events ?e"
    "ex_handles e = (ex_handles ?e)[i := (ex_handles ?e ! i)\<lparr>eh_queue := eh_queue (ex_handles ?e ! i) @ [TransactionMsg tk r]\<rparr>]"
    using dispatch_eq [OF idle i(1) [unfolded ex_capacity_def] open_i, of tk r] by blast
  have tk: "tk \<notin> set run" "tk \<notin> set clog"
    using ot_reach_facts(1,4) [OF reach'] com by (auto simp: commit_ok_def)
  have "pool_ok w h ctx accs (set clog) (tk # run) (job(i \<mapsto> tk)) e wks"
    by (rule pool_dispatch [OF pool i tk e(2,3) e(4) [unfolded r]])
  moreover have "commit_ok h (tk # run) log clog" using com by (auto simp: commit_ok_def)
  moreover have "queued e = Suc (queued ?e)" by (rule queued_update [OF i(1) [unfolded ex_capacity_def] e(4)]) simp
  ultimately show ?thesis
    using e(1,3,4) reach' by (simp add: seq_ok_def seq_load_def undispatched_def ready ex_capacity_def)
qed

definition dispatch_frame :: "('st, 'a) sequencer \<Rightarrow> ('st, 'a) sequencer \<Rightarrow> bool" where
  "dispatch_frame s s' \<longleftrightarrow>
     sq_state s' = sq_state s \<and> sq_hasher s' = sq_hasher s \<and> sq_replay s' = sq_replay s \<and>
     ex_events (sq_executors s') = ex_events (sq_executors s) \<and> ex_capacity (sq_executors s') = ex_capacity (sq_executors s) \<and>
     ot_len (sq_ordering s') = ot_len (sq_ordering s) \<and> seq_load s' \<le> seq_load s"

lemma dispatch_ready_ok:
  assumes "seq_ok w ctx accs wks h run log clog job s"
  shows "\<exists>s' run' job'. dispatch_ready s = Some (s', Inr ()) \<and> seq_ok w ctx accs wks h run' log clog job' s' \<and>
    dispatch_frame s s' \<and> work_conserving s'"
  using assms
proof (induction s arbitrary: run job rule: dispatch_ready.induct)
  case (1 s)
  show ?case
  proof (cases "ex_first_available (sq_executors s)")
    case None
    then show ?thesis using "1.prems" first_available_props(2) by (auto simp: work_conserving_def dispatch_frame_def dispatch_ready.simps)
  next
    case (Some i)
    show ?thesis
    proof (cases "ot_ready (sq_ordering s)")
      case Nil
      then have "dispatch_ready s = Some (s, Inr ())" using Some by (simp add: ot_take_ready_def dispatch_ready.simps)
      then show ?thesis using "1.prems" Nil by (auto simp: work_conserving_def dispatch_frame_def)
    next
      case (Cons x rest)
      obtain tk r where x: "x = (tk, r)" by (cases x)
      let ?t = "(sq_ordering s)\<lparr>ot_ready := rest\<rparr>"
      have take: "ot_take_ready (sq_ordering s) = (Some (tk, r), ?t)" by (simp add: ot_take_ready_def Cons x)
      obtain e where e: "ex_dispatch i (tk, r) (sq_executors s) = Some (e, Inr ())" "ex_events e = ex_events (sq_executors s)"
        "ex_capacity e = ex_capacity (sq_executors s)"
        "seq_ok w ctx accs wks h (tk # run) log clog (job(i \<mapsto> tk)) (s\<lparr>sq_ordering := ?t, sq_executors := e\<rparr>)"
        "seq_load (s\<lparr>sq_ordering := ?t, sq_executors := e\<rparr>) < seq_load s"
        using dispatch_one [OF "1.prems" Some Cons [unfolded x]] by blast
      obtain s' run' job' where s': "dispatch_ready (s\<lparr>sq_ordering := ?t, sq_executors := e\<rparr>) = Some (s', Inr ())"
        "seq_ok w ctx accs wks h run' log clog job' s'" "dispatch_frame (s\<lparr>sq_ordering := ?t, sq_executors := e\<rparr>) s'" "work_conserving s'"
        using "1.IH" [OF Some take [symmetric] refl e(1) refl refl e(4)] by blast
      have "dispatch_ready s = Some (s', Inr ())"
        by (subst dispatch_ready.simps) (simp add: Some take e(1) s'(1))
      moreover have "dispatch_frame s s'"
        using s'(3) e(2,3,5) by (simp add: dispatch_frame_def ot_len_def)
      ultimately show ?thesis using s'(2,4) by blast
    qed
  qed
qed

section \<open>Completions\<close>

lemma ot_len_log:
  assumes "ot_reach h t run log"
  shows "ot_len t = length h - length log"
proof -
  note l = log_okD(1,2) [OF ot_reach_log [OF assms]]
  have "{i. unfinished t i} = {..<length h} - set log"
    using l(2) unfinished_bound [of t] ot_reach_facts(5) [OF assms] by auto
  moreover have "set log \<subseteq> {..<length h}" by (rule ot_reach_facts(3) [OF assms])
  ultimately have "card {i. unfinished t i} = length h - length log"
    using l(1) by (simp add: card_Diff_subset distinct_card)
  then show ?thesis using graph_okD(7) [OF ot_reach_graph [OF assms]] by (simp add: ot_len_def)
qed

lemma pool_release:
  assumes ok: "pool_ok w h ctx accs committed run job e wks" and run: "distinct run"
    and evs: "ex_events e = Completed i tk # rest"
    and e': "idle_set e' = insert i (idle_set e)" "ex_handles e' = ex_handles e" "ex_events e' = rest"
  shows "job i = Some tk \<and> tk \<in> committed \<and> i < ex_capacity e \<and> pool_ok w h ctx accs committed (remove1 tk run) (job(i := None)) e' wks"
proof -
  have cap: "ex_capacity e' = ex_capacity e" by (simp add: ex_capacity_def e')
  have i: "i < ex_capacity e" using pool_okD(6) [OF ok, of "Completed i tk"] by (simp add: evs)
  have "worker_ok w h ctx accs committed i (ex_handles e ! i) (wks ! i) (Completed i tk # events_of i rest) (job i)"
    using pool_okD(5) [OF ok i] by (simp add: evs)
  then have job: "job i = Some tk" "tk \<in> committed" and none: "events_of i rest = []"
    and free: "worker_ok w h ctx accs committed i (ex_handles e ! i) (wks ! i) [] None"
    by (auto elim!: reported_worker intro: worker_ok.wk_free [where bs = "[]"])
  have "worker_ok w h ctx accs committed j (ex_handles e' ! j) (wks ! j) (events_of j (ex_events e')) ((job(i := None)) j)"
    if "j < ex_capacity e" for j
  proof (cases "j = i")
    case True
    then show ?thesis using free none by (simp add: e')
  next
    case False
    then show ?thesis using pool_okD(5) [OF ok that] by (simp add: e' evs)
  qed
  moreover have "idle_set e' = {j. j < ex_capacity e \<and> (job(i := None)) j = None}"
    unfolding e'(1) pool_okD(4) [OF ok] using i by auto
  moreover have "ev_id ev < ex_capacity e" if "ev \<in> set (ex_events e')" for ev
    using pool_okD(6) [OF ok] that by (simp add: e' evs)
  ultimately show ?thesis
    unfolding pool_ok_def cap using pool_okD(1-3) [OF ok] assigned_remove [OF pool_okD(7) [OF ok] run i job(1)] job i by simp
qed

lemma commit_ok_complete:
  assumes "commit_ok h run log clog" "distinct run" "tk \<in> set clog"
  shows "commit_ok h (remove1 tk run) (log @ [tk]) clog"
  using assms by (auto simp: commit_ok_def)

lemma handle_event_ok:
  assumes ok: "seq_ok w ctx accs wks h run log clog job s" and recv: "recv_event s = Some (Completed i tk, s1)"
  shows "\<exists>s' run' job'. handle_event (Completed i tk) s1 = Some (s', Inr ()) \<and>
    seq_ok w ctx accs wks h run' (log @ [tk]) clog job' s' \<and> work_conserving s' \<and>
    sq_state s' = sq_state s \<and> sq_hasher s' = sq_hasher s \<and> sq_replay s' = sq_replay s \<and>
    ex_events (sq_executors s') = tl (ex_events (sq_executors s)) \<and>
    ex_capacity (sq_executors s') = ex_capacity (sq_executors s) \<and>
    ot_len (sq_ordering s') < ot_len (sq_ordering s) \<and> seq_load s' \<le> seq_load s"
proof -
  let ?e = "sq_executors s" and ?t = "sq_ordering s"
  have reach: "ot_reach h ?t run log" and com: "commit_ok h run log clog" and pool: "pool_ok w h ctx accs (set clog) run job ?e wks"
    using ok by (auto simp: seq_ok_def)
  note run = ot_reach_facts(1) [OF reach]
  obtain rest where rest: "ex_events ?e = Completed i tk # rest" and s1: "s1 = s\<lparr>sq_executors := ?e\<lparr>ex_events := rest\<rparr>\<rparr>"
    using recv by (auto simp: recv_event_def split: list.splits)
  have i: "i < ex_capacity ?e" using pool_okD(6) [OF pool, of "Completed i tk"] by (simp add: rest)
  have "job i \<noteq> None"
    using pool_okD(5) [OF pool i] by (auto simp: rest elim!: reported_worker)
  then have busy: "i \<notin> idle_set (?e\<lparr>ex_events := rest\<rparr>)" "i < 64"
    using pool_okD(3,4) [OF pool] i by (auto simp: idle_set_def MAX_EXECUTORS_def)
  obtain e where e: "ex_release i (?e\<lparr>ex_events := rest\<rparr>) = Some e" "idle_set e = insert i (idle_set ?e)"
    "ex_handles e = ex_handles ?e" "ex_events e = rest"
    using release_eq [OF busy] by (auto simp: idle_set_def)
  have pool': "pool_ok w h ctx accs (set clog) (remove1 tk run) (job(i := None)) e wks"
    and job: "job i = Some tk" "tk \<in> set clog"
    using pool_release [OF pool run rest e(2-4)] by auto
  have tk: "tk \<in> set run" using assignedD(1) [OF pool_okD(7) [OF pool], of tk] i job(1) by blast
  obtain m t where t: "ot_complete tk ?t = Some (m, t)"
    using ot_inv_complete [OF ot_reach_inv [OF reach] tk] by blast
  have reach': "ot_reach h t (remove1 tk run) (log @ [tk])" by (rule ot_done [OF reach tk t])
  let ?s = "s\<lparr>sq_executors := e, sq_ordering := t\<rparr>"
  have ok': "seq_ok w ctx accs wks h (remove1 tk run) (log @ [tk]) clog (job(i := None)) ?s"
    using reach' pool' commit_ok_complete [OF com run job(2)] by (simp add: seq_ok_def)
  have len: "ot_len ?t = undispatched ?t + length run" "ot_len t = undispatched t + length (remove1 tk run)"
    using ot_reach_facts(6) [OF reach] ot_reach_facts(6) [OF reach'] by (simp_all add: undispatched_def)
  have less: "0 < length run" "Suc (length (remove1 tk run)) = length run"
    using length_pos_if_in_set [OF tk] tk by (auto simp: length_remove1)
  have dec: "ot_len ?t = Suc (ot_len t)"
    using ot_len_log [OF reach] ot_len_log [OF reach'] length_append_singleton [of log tk] len(1) less(1) by linarith
  have load: "seq_load ?s = seq_load s"
    using len less dec e(3) by (simp add: seq_load_def queued_def)
  obtain s' run' job' where s': "dispatch_ready ?s = Some (s', Inr ())" "seq_ok w ctx accs wks h run' (log @ [tk]) clog job' s'"
    "dispatch_frame ?s s'" "work_conserving s'"
    using dispatch_ready_ok [OF ok'] by blast
  have "handle_event (Completed i tk) s1 = Some (s', Inr ())"
    using e(1) t s'(1) by (simp add: handle_event_def s1)
  then show ?thesis
    using s'(2-4) e(3,4) rest dec load by (auto simp: dispatch_frame_def ex_capacity_def)
qed

section \<open>Submissions\<close>

lemma pool_register:
  assumes ok: "pool_ok w h ctx accs committed run job e wks" and "set run \<subseteq> {..<length h}"
  shows "pool_ok w (h @ [r]) ctx accs committed run job e wks"
proof -
  have "worker_ok w (h @ [r]) ctx accs committed i (ex_handles e ! i) (wks ! i) (events_of i (ex_events e)) (job i)"
    if "i < ex_capacity e" for i
  proof (rule worker_ok_mono [OF pool_okD(5) [OF ok that]])
    fix tk
    assume "job i = Some tk"
    then have "tk < length h" using assignedD(1) [OF pool_okD(7) [OF ok], of tk] assms(2) that by auto
    then show "(h @ [r]) ! tk = h ! tk \<and> (tk \<in> committed \<longleftrightarrow> tk \<in> committed)" by (simp add: nth_append)
  qed simp
  then show ?thesis using ok unfolding pool_ok_def by blast
qed

lemma commit_ok_register:
  assumes "commit_ok h run log clog" "set run \<subseteq> {..<length h}" "set log \<subseteq> {..<length h}"
  shows "commit_ok (h @ [r]) run log clog"
proof -
  have "j < length h" if "j \<in> set clog" for j using assms that by (auto simp: commit_ok_def)
  then show ?thesis using assms(1) by (auto simp: commit_ok_def nth_append)
qed

lemma admit_frame:
  assumes "admit io request s = Some (s', r)"
  shows "sq_ordering s' = sq_ordering s" "sq_executors s' = sq_executors s" "sq_hasher s' = sq_hasher s"
    "sq_replay s' = sq_replay s" "kp_accounts (sq_state s') = kp_accounts (sq_state s)"
  using assms by (auto simp: admit_def bind_eq_Some_conv split: if_splits)

lemma schedule_cases:
  assumes "schedule io request s = Some (s', r)"
  obtains (failed) error where "r = Inl error"
  | (rejected) error where "admit io request s = Some (s', Inr (Inl error))" "r = Inr (Some error)"
  | (admitted) s1 where "admit io request s = Some (s1, Inr (Inr ()))" "r = Inr None"
      "register_admitted (er_request request) s1 = Some (s', Inr ())"
proof -
  obtain s1 a where a: "admit io request s = Some (s1, a)"
    using assms by (cases "admit io request s") (auto simp: schedule_def)
  consider (e) e where "a = Inl e" | (t) e where "a = Inr (Inl e)" | (ok) "a = Inr (Inr ())"
    by (metis (full_types) obj_sumE old.unit.exhaust)
  then show ?thesis
  proof cases
    case ok
    then obtain s2 x where x: "register_admitted (er_request request) s1 = Some (s2, x)" "s' = s2" "r = map_sum id (\<lambda>_. None) x"
      using assms a by (auto simp: schedule_def)
    show ?thesis
    proof (cases x)
      case (Inl e)
      then show ?thesis using failed x(3) by simp
    next
      case (Inr u)
      then show ?thesis using admitted a ok x by simp
    qed
  qed (use assms a failed rejected in \<open>auto simp: schedule_def\<close>)
qed

lemma register_ok:
  assumes ok: "seq_ok w ctx accs wks h run log clog job s"
    and keys: "distinct (req_keys r)" "Suc (length (ot_nodes (sq_ordering s))) < COMPLETE"
  shows "\<exists>s' run' job'. register_admitted r s = Some (s', Inr ()) \<and> seq_ok w ctx accs wks (h @ [r]) run' log clog job' s' \<and>
    work_conserving s' \<and> sq_state s' = sq_state s \<and> sq_replay s' = sq_replay s \<and>
    sq_hasher s' = bh_update (req_signature r) (sq_hasher s) \<and>
    ex_capacity (sq_executors s') = ex_capacity (sq_executors s) \<and> ot_len (sq_ordering s') = Suc (ot_len (sq_ordering s))"
proof -
  have reach: "ot_reach h (sq_ordering s) run log" and com: "commit_ok h run log clog"
    and pool: "pool_ok w h ctx accs (set clog) run job (sq_executors s) wks"
    using ok by (auto simp: seq_ok_def)
  note facts = ot_reach_facts [OF reach]
  obtain b t where t: "ot_register r (sq_ordering s) = Some (b, t)"
    using ot_inv_register [OF ot_reach_inv [OF reach] keys(1)] keys(2) facts(5) by auto
  let ?s = "s\<lparr>sq_hasher := bh_update (req_signature r) (sq_hasher s), sq_ordering := t\<rparr>"
  have reach': "ot_reach (h @ [r]) t run log" by (rule ot_reg [OF reach keys(1) _ t]) (use keys(2) facts(5) in simp)
  have ok': "seq_ok w ctx accs wks (h @ [r]) run log clog job ?s"
    using reach' pool_register [OF pool facts(2)] commit_ok_register [OF com facts(2,3)] by (simp add: seq_ok_def)
  have "length log \<le> length h"
    using facts(3) card_mono [of "{..<length h}" "set log"] log_okD(1) [OF ot_reach_log [OF reach]] by (simp add: distinct_card)
  then have len: "ot_len t = Suc (ot_len (sq_ordering s))" using ot_len_log [OF reach] ot_len_log [OF reach'] by simp
  obtain s' run' job' where s': "dispatch_ready ?s = Some (s', Inr ())" "seq_ok w ctx accs wks (h @ [r]) run' log clog job' s'"
    "dispatch_frame ?s s'" "work_conserving s'"
    using dispatch_ready_ok [OF ok'] by blast
  have "register_admitted r s = Some (s', Inr ())" using t s'(1) by (simp add: register_admitted_def)
  then show ?thesis using s'(2-4) len by (auto simp: dispatch_frame_def)
qed

lemma schedule_ok:
  assumes ok: "seq_ok w ctx accs wks h run log clog job s"
    and keys: "distinct (req_keys (er_request request))" "Suc (length (ot_nodes (sq_ordering s))) < COMPLETE"
    and adm: "admit io request s = Some (s1, Inr (Inr ()))" and reg: "register_admitted (er_request request) s1 = Some (s', r)"
  shows "r = Inr () \<and> (\<exists>run' job'. seq_ok w ctx accs wks (h @ [er_request request]) run' log clog job' s') \<and> work_conserving s' \<and>
    kp_accounts (sq_state s') = kp_accounts (sq_state s) \<and> sq_replay s' = sq_replay s \<and>
    sq_hasher s' = bh_update (req_signature (er_request request)) (sq_hasher s) \<and>
    ex_capacity (sq_executors s') = ex_capacity (sq_executors s) \<and> ot_len (sq_ordering s') = Suc (ot_len (sq_ordering s))"
proof -
  note fr = admit_frame [OF adm]
  have "seq_ok w ctx accs wks h run log clog job s1" using ok by (simp add: seq_ok_def fr)
  then show ?thesis using register_ok [of w ctx accs wks h run log clog job s1] keys reg fr by fastforce
qed

end
