(* ===== verification/Sequencer_Serial.thy ===== *)
theory Sequencer_Serial
  imports Sequencer_Inv
begin

text \<open>
  Every step of the engine keeps its invariant: the steps of the workers, which read, commit and
  report, and the steps of the sequencer, which admit, dispatch, complete, drain and cross block
  boundaries. At a quiescent point the invariant says that the account state is the one of serial
  execution.
\<close>

section \<open>Worker steps\<close>

definition world_framed :: "('st, 'a) world \<Rightarrow> bool" where
  "world_framed w \<longleftrightarrow> (\<forall>ctx. effect_framed (w_exec w ctx))"

lemma framed_keep: "world_framed w \<Longrightarrow> \<not> writes r k \<Longrightarrow> w_exec w ctx r s k = s k"
  by (simp add: world_framed_def effect_framed_def)

lemma framed_local:
  assumes "world_framed w" "\<And>k'. accesses r k' \<Longrightarrow> s k' = s' k'" "writes r k"
  shows "w_exec w ctx r s k = w_exec w ctx r s' k"
  using assms unfolding world_framed_def effect_framed_def by blast

lemma pool_step:
  assumes ok: "pool_ok w h ctx accs committed run job e wks" and i: "i < ex_capacity e"
    and e': "ex_handles e' = (ex_handles e)[i := eh]" "ex_available e' = ex_available e" "ex_events e' = ex_events e @ evs"
    and evs: "\<And>ev. ev \<in> set evs \<Longrightarrow> ev_id ev = i"
    and wk: "worker_ok w h ctx accs committed i eh wk (events_of i (ex_events e) @ evs) (job i)"
  shows "pool_ok w h ctx accs committed run job e' (wks[i := wk])"
proof -
  have cap: "ex_capacity e' = ex_capacity e" by (simp add: ex_capacity_def e')
  have own: "events_of i (ex_events e') = events_of i (ex_events e) @ evs"
    using evs by (simp add: e')
  have other: "events_of j (ex_events e') = events_of j (ex_events e)" if "j \<noteq> i" for j
    using evs that by (auto simp: e' filter_empty_conv)
  have "worker_ok w h ctx accs committed j (ex_handles e' ! j) (wks[i := wk] ! j) (events_of j (ex_events e')) (job j)"
    if "j < ex_capacity e" for j
  proof (cases "j = i")
    case True
    then show ?thesis using wk own i pool_okD(1) [OF ok] by (simp add: e' ex_capacity_def)
  next
    case False
    then show ?thesis using pool_okD(5) [OF ok that] other by (simp add: e'(1))
  qed
  moreover have "idle_set e' = idle_set e" by (simp add: idle_set_def e')
  moreover have "ev_id ev < ex_capacity e" if "ev \<in> set (ex_events e')" for ev
    using pool_okD(6) [OF ok] evs i that by (auto simp: e')
  ultimately show ?thesis
    unfolding pool_ok_def cap using pool_okD(1-4,7) [OF ok] by simp
qed

lemma pool_handle_step:
  assumes "pool_ok w h ctx accs committed run job e wks" "i < ex_capacity e"
    and "worker_ok w h ctx accs committed i eh wk (events_of i (ex_events e)) (job i)"
  shows "pool_ok w h ctx accs committed run job (set_handle i eh e) (wks[i := wk])"
  by (rule pool_step [OF assms(1,2), where evs = "[]" and eh = eh]) (use assms(3) in \<open>simp_all add: set_handle_def\<close>)

lemma pool_event_step:
  assumes "pool_ok w h ctx accs committed run job e wks" "i < ex_capacity e" "ev_id ev = i"
    and "worker_ok w h ctx accs committed i eh wk (events_of i (ex_events e) @ [ev]) (job i)"
  shows "pool_ok w h ctx accs committed run job (send_event ev (set_handle i eh e)) (wks[i := wk])"
  by (rule pool_step [OF assms(1,2), where evs = "[ev]" and eh = eh]) (use assms(3,4) in \<open>simp_all add: set_handle_def send_event_def\<close>)

text \<open>A commit changes only accounts no other running request accesses.\<close>

lemma pool_commit:
  assumes w: "world_framed w" and ok: "pool_ok w h ctx accs committed run job e wks" and i: "i < ex_capacity e" "job i = Some tk"
    and disj: "\<And>tk'. tk' \<in> set run \<Longrightarrow> tk' \<noteq> tk \<Longrightarrow> \<not> conflict (h ! tk) (h ! tk')"
    and accs': "\<And>k. \<not> writes (h ! tk) k \<Longrightarrow> accs' k = accs k"
    and wk: "worker_ok w h ctx accs' (insert tk committed) i (ex_handles e ! i) wk (events_of i (ex_events e)) (job i)"
  shows "pool_ok w h ctx accs' (insert tk committed) run job e (wks[i := wk])"
proof -
  have "worker_ok w h ctx accs' (insert tk committed) j (ex_handles e ! j) (wks[i := wk] ! j) (events_of j (ex_events e)) (job j)"
    if j: "j < ex_capacity e" for j
  proof (cases "j = i")
    case True
    then show ?thesis using wk i pool_okD(1) [OF ok] by simp
  next
    case False
    have "worker_ok w h ctx accs' (insert tk committed) j (ex_handles e ! j) (wks ! j) (events_of j (ex_events e)) (job j)"
    proof (rule worker_ok_mono [OF pool_okD(5) [OF ok j]])
      fix tk'
      assume tk': "job j = Some tk'"
      have ne: "tk' \<noteq> tk" using assignedD(2) [OF pool_okD(7) [OF ok] j i(1), of tk'] tk' i(2) False by auto
      then show "h ! tk' = h ! tk' \<and> (tk' \<in> insert tk committed \<longleftrightarrow> tk' \<in> committed)" by simp
      have "tk' \<in> set run" using assignedD(1) [OF pool_okD(7) [OF ok], of tk'] tk' j by blast
      then have "accs' k' = accs k'" if "accesses (h ! tk') k'" for k'
        using accs' disj [OF _ ne] that writes_accesses conflictI by blast
      then show "w_exec w ctx (h ! tk') accs' k = w_exec w ctx (h ! tk') accs k" if "writes (h ! tk') k" for k
        using framed_local [OF w _ that] by blast
    qed
    then show ?thesis using False by simp
  qed
  then show ?thesis using ok unfolding pool_ok_def by simp
qed

section \<open>The engine invariant\<close>

definition engine_inv :: "('st, 'a) world \<Rightarrow> svm_context \<times> 'a accounts \<Rightarrow> stream_item list \<Rightarrow> ('st, 'a) engine \<Rightarrow>
    request list \<Rightarrow> ticket list \<Rightarrow> ticket list \<Rightarrow> ticket list \<Rightarrow> (executor_id \<Rightarrow> ticket option) \<Rightarrow> svm_context \<Rightarrow> bool" where
  "engine_inv w st0 items g h run log clog job ctx \<longleftrightarrow>
     (\<exists>pre acc. items = pre @ map TxItem h \<and> serial w pre st0 = (ctx, acc) \<and>
        eg_accounts g = fold (\<lambda>i. w_exec w ctx (h ! i)) clog acc) \<and>
     seq_ok w ctx (eg_accounts g) (eg_workers g) h run log clog job (eg_seq g) \<and>
     work_conserving (eg_seq g) \<and>
     ot_len (sq_ordering (eg_seq g)) \<le> MAX_PENDING_EXECUTOR_TXNS * ex_capacity (eg_pool g)"

definition engine_ok :: "('st, 'a) world \<Rightarrow> svm_context \<times> 'a accounts \<Rightarrow> stream_item list \<Rightarrow> ('st, 'a) engine \<Rightarrow> bool" where
  "engine_ok w st0 items g \<longleftrightarrow> (\<exists>h run log clog job ctx. engine_inv w st0 items g h run log clog job ctx)"

lemma engine_okI: "engine_inv w st0 items g h run log clog job ctx \<Longrightarrow> engine_ok w st0 items g"
  unfolding engine_ok_def by blast

lemma seq_ok_pool_only:
  assumes "seq_ok w ctx accs wks h run log clog job s" "pool_ok w h ctx accs (set clog) run job e wks'"
  shows "seq_ok w ctx accs wks' h run log clog job (s\<lparr>sq_executors := e\<rparr>)"
  using assms by (simp add: seq_ok_def)

lemma engine_pool_step:
  assumes inv: "engine_inv w st0 items g h run log clog job ctx"
    and pool: "pool_ok w h ctx (eg_accounts g) (set clog) run job (f (eg_pool g)) ((eg_workers g)[i := wk])"
    and "idle_set (f (eg_pool g)) = idle_set (eg_pool g)" "ex_capacity (f (eg_pool g)) = ex_capacity (eg_pool g)"
  shows "engine_inv w st0 items (on_pool f (set_worker i wk g)) h run log clog job ctx"
  using assms by (simp add: engine_inv_def on_pool_def set_worker_def seq_ok_def work_conserving_def)

lemma pool_frames [simp]:
  "idle_set (set_handle i eh e) = idle_set e" "ex_capacity (set_handle i eh e) = ex_capacity e"
  "idle_set (send_event ev e) = idle_set e" "ex_capacity (send_event ev e) = ex_capacity e"
  by (simp_all add: set_handle_def send_event_def idle_set_def ex_capacity_def)

lemma engine_invD:
  assumes "engine_inv w st0 items g h run log clog job ctx"
  shows "ot_reach h (sq_ordering (eg_seq g)) run log" "commit_ok h run log clog"
    and "pool_ok w h ctx (eg_accounts g) (set clog) run job (eg_pool g) (eg_workers g)"
  using assms by (simp_all add: engine_inv_def seq_ok_def)

lemma worker_recv_ok:
  assumes inv: "engine_inv w st0 items g h run log clog job ctx" and step: "worker_recv w i g = Some g'"
  shows "engine_inv w st0 items g' h run log clog job ctx"
proof -
  note pool = engine_invD(3) [OF inv]
  obtain wk eh where wk: "i < length (eg_workers g)" "wk = eg_workers g ! i" "wk_activity wk = Waiting"
    and eh: "eh = eg_handles g ! i"
    using step by (auto simp: worker_recv_def bind_eq_Some_conv nth_opt_def split: if_splits activity.splits)
  have i: "i < ex_capacity (eg_pool g)" using wk(1) pool_okD(1) [OF pool] by simp
  have nth: "nth_opt (eg_workers g) i = Some wk" "nth_opt (eg_handles g) i = Some eh"
    using wk(1,2) eh i by (simp_all add: nth_opt_def ex_capacity_def)
  note own = pool_okD(5) [OF pool i, folded wk(2) eh]
  show ?thesis
  proof (cases "eh_queue eh")
    case Nil
    then show ?thesis using step by (simp add: worker_recv_def nth wk(3))
  next
    case (Cons m rest)
    show ?thesis
    proof (cases m)
      case (TransactionMsg tk r)
      let ?wk = "wk\<lparr>wk_activity := Running tk r (w_exec w (wk_svm wk) r (eg_accounts g)) (w_status w (wk_svm wk) r (eg_accounts g))\<rparr>"
      have g': "g' = on_pool (set_handle i (eh\<lparr>eh_queue := rest\<rparr>)) (set_worker i ?wk g)"
        using step by (simp add: worker_recv_def nth wk(3) Cons TransactionMsg)
      have "worker_ok w h ctx (eg_accounts g) (set clog) i (eh\<lparr>eh_queue := rest\<rparr>) ?wk (events_of i (eg_events g)) (job i)"
        using own
      proof (cases rule: worker_ok.cases)
        case (wk_queued bs tk')
        then have "bs = []" using Cons TransactionMsg by (cases bs) auto
        then show ?thesis using wk_queued Cons TransactionMsg by (auto intro!: worker_ok.wk_running)
      qed (use wk(3) Cons TransactionMsg in auto)
      then show ?thesis
        unfolding g' by (intro engine_pool_step [OF inv] pool_handle_step [OF pool i]) simp_all
    next
      case (BlockMsg b)
      let ?wk = "wk\<lparr>wk_svm := svm_transition (w_sysvars w) b (wk_svm wk)\<rparr>"
      have g': "g' = on_pool (set_handle i (eh\<lparr>eh_queue := rest\<rparr>)) (set_worker i ?wk g)"
        using step by (simp add: worker_recv_def nth wk(3) Cons BlockMsg)
      have "worker_ok w h ctx (eg_accounts g) (set clog) i (eh\<lparr>eh_queue := rest\<rparr>) ?wk (events_of i (eg_events g)) (job i)"
        using own
      proof (cases rule: worker_ok.cases)
        case (wk_free bs)
        then obtain bs' where "bs = b # bs'" "rest = map BlockMsg bs'" using Cons BlockMsg by (cases bs) auto
        then show ?thesis using wk_free by (auto intro!: worker_ok.wk_free [where bs = bs'])
      next
        case (wk_queued bs tk')
        then obtain bs' where "bs = b # bs'" "rest = map BlockMsg bs' @ [TransactionMsg tk' (h ! tk')]"
          using Cons BlockMsg by (cases bs) auto
        then show ?thesis using wk_queued by (auto intro!: worker_ok.wk_queued [where bs = bs'])
      qed (use wk(3) Cons in auto)
      then show ?thesis
        unfolding g' by (intro engine_pool_step [OF inv] pool_handle_step [OF pool i]) simp_all
    qed
  qed
qed

lemma worker_report_ok:
  assumes inv: "engine_inv w st0 items g h run log clog job ctx" and step: "worker_report i g = Some g'"
  shows "engine_inv w st0 items g' h run log clog job ctx"
proof -
  note pool = engine_invD(3) [OF inv]
  obtain wk tk where wk: "i < length (eg_workers g)" "wk = eg_workers g ! i" "wk_activity wk = Finished tk"
    and g': "g' = on_pool (send_event (Completed i tk)) (set_worker i (wk\<lparr>wk_activity := Waiting\<rparr>) g)"
    using step by (auto simp: worker_report_def bind_eq_Some_conv split: activity.splits)
  have i: "i < ex_capacity (eg_pool g)" using wk(1) pool_okD(1) [OF pool] by simp
  let ?eh = "eg_handles g ! i"
  have "worker_ok w h ctx (eg_accounts g) (set clog) i ?eh (wk\<lparr>wk_activity := Waiting\<rparr>) (events_of i (eg_events g) @ [Completed i tk]) (job i)"
    using pool_okD(5) [OF pool i, folded wk(2)]
    by (cases rule: worker_ok.cases) (use wk(3) in \<open>auto intro: worker_ok.wk_reported\<close>)
  then have "pool_ok w h ctx (eg_accounts g) (set clog) run job (send_event (Completed i tk) (set_handle i ?eh (eg_pool g)))
      ((eg_workers g)[i := wk\<lparr>wk_activity := Waiting\<rparr>])"
    by (intro pool_event_step [OF pool i]) simp_all
  then show ?thesis
    unfolding g' by (intro engine_pool_step [OF inv]) (simp_all add: set_handle_def)
qed

lemma worker_fail_ok:
  assumes inv: "engine_inv w st0 items g h run log clog job ctx" and step: "worker_fail i g = Some g'"
  shows "engine_inv w st0 items g' h run log clog job ctx"
proof -
  note pool = engine_invD(3) [OF inv]
  obtain wk tk r out st where wk: "i < length (eg_workers g)" "wk = eg_workers g ! i" "wk_activity wk = Running tk r out st"
    and g': "g' = on_pool (send_event (Failed i) \<circ> set_handle i ((eg_handles g ! i)\<lparr>eh_open := False\<rparr>))
      (set_worker i (wk\<lparr>wk_activity := Stopped tk\<rparr>) g)"
    using step by (auto simp: worker_fail_def bind_eq_Some_conv split: activity.splits)
  have i: "i < ex_capacity (eg_pool g)" using wk(1) pool_okD(1) [OF pool] by simp
  have "worker_ok w h ctx (eg_accounts g) (set clog) i ((eg_handles g ! i)\<lparr>eh_open := False\<rparr>) (wk\<lparr>wk_activity := Stopped tk\<rparr>)
      (events_of i (eg_events g) @ [Failed i]) (job i)"
    using pool_okD(5) [OF pool i, folded wk(2)]
    by (cases rule: worker_ok.cases) (use wk(3) in \<open>auto intro: worker_ok.wk_stopped\<close>)
  then show ?thesis
    unfolding g' by (intro engine_pool_step [OF inv]) (simp_all add: pool_event_step [OF pool i])
qed

lemma commit_ok_commit:
  assumes com: "commit_ok h run log clog" and reach: "ot_reach h t run log" and tk: "tk \<in> set run" "tk \<notin> set clog"
  shows "commit_ok h run log (clog @ [tk])"
proof -
  have "before_in (clog @ [tk]) i j" if "i < j" "j \<in> set (clog @ [tk])" "conflict (h ! i) (h ! j)" for i j
  proof (cases "j = tk")
    case True
    then have "i \<in> set clog" using running_preds_logged [OF reach tk(1), of i] that com by (auto simp: commit_ok_def)
    then show ?thesis using True before_in_snoc [of i clog tk] by simp
  next
    case False
    then show ?thesis using that com before_in_appendI [of clog i j "[tk]"] by (auto simp: commit_ok_def)
  qed
  then show ?thesis using com tk by (auto simp: commit_ok_def)
qed

lemma worker_commit_ok:
  assumes w: "world_framed w" and inv: "engine_inv w st0 items g h run log clog job ctx" and step: "worker_commit i g = Some g'"
  shows "\<exists>tk. engine_inv w st0 items g' h run log (clog @ [tk]) job ctx"
proof -
  note pool = engine_invD(3) [OF inv] and reach = engine_invD(1) [OF inv]
  obtain wk tk r out st kp where wk: "i < length (eg_workers g)" "wk = eg_workers g ! i" "wk_activity wk = Running tk r out st"
    and kp: "commit_request (sq_replay (eg_seq g)) (sv_slot (wk_svm wk)) r out st (sq_state (eg_seq g)) = Some kp"
    and g': "g' = set_worker i (wk\<lparr>wk_activity := Finished tk\<rparr>) (g\<lparr>eg_seq := (eg_seq g)\<lparr>sq_state := kp\<rparr>\<rparr>)"
    using step by (auto simp: worker_commit_def bind_eq_Some_conv split: activity.splits)
  have i: "i < ex_capacity (eg_pool g)" using wk(1) pool_okD(1) [OF pool] by simp
  have own: "job i = Some tk" "r = h ! tk" "tk \<notin> set clog" "\<And>k. writes (h ! tk) k \<Longrightarrow> out k = w_exec w ctx (h ! tk) (eg_accounts g) k"
    and rest: "eh_open (eg_handles g ! i)" "eh_queue (eg_handles g ! i) = []" "wk_svm wk = ctx" "events_of i (eg_events g) = []"
    using pool_okD(5) [OF pool i, folded wk(2)] wk(3) by (auto elim: worker_ok.cases)
  have tk: "tk \<in> set run" using assignedD(1) [OF pool_okD(7) [OF pool], of tk] own(1) i by blast
  have accs: "kp_accounts kp = w_exec w ctx (h ! tk) (eg_accounts g)"
    using kp own(2,4) framed_keep [OF w] by (auto simp: commit_request_def bind_eq_Some_conv fun_eq_iff split: if_splits)
  have disj: "\<not> conflict (h ! tk) (h ! tk')" if "tk' \<in> set run" "tk' \<noteq> tk" for tk'
    using ot.sched_run [of h run log] reach tk that conflict_sym by (metis linorder_neqE_nat)
  have "pool_ok w h ctx (kp_accounts kp) (insert tk (set clog)) run job (eg_pool g) ((eg_workers g)[i := wk\<lparr>wk_activity := Finished tk\<rparr>])"
  proof (rule pool_commit [OF w pool i own(1) disj])
    show "kp_accounts kp k = eg_accounts g k" if "\<not> writes (h ! tk) k" for k
      using framed_keep [OF w that] by (simp add: accs)
    show "worker_ok w h ctx (kp_accounts kp) (insert tk (set clog)) i (eg_handles g ! i) (wk\<lparr>wk_activity := Finished tk\<rparr>)
        (events_of i (eg_events g)) (job i)"
      using own(1) rest by (auto intro: worker_ok.wk_finished)
  qed
  then have "engine_inv w st0 items g' h run log (clog @ [tk]) job ctx"
    using inv commit_ok_commit [OF engine_invD(2) [OF inv] reach tk own(3)]
    by (auto simp: engine_inv_def seq_ok_def g' set_worker_def accs work_conserving_def)
  then show ?thesis by blast
qed

section \<open>Sequencer steps\<close>

lemma serial_append: "serial w (xs @ ys) st = serial w ys (serial w xs st)"
  by (simp add: serial_def)

lemma serial_txs: "serial w (map TxItem h) (ctx, acc) = (ctx, fold (w_exec w ctx) h acc)"
  by (induction h arbitrary: acc) (simp_all add: serial_def)

lemma drained_state:
  assumes w: "world_framed w" and inv: "engine_inv w st0 items g h run log clog job ctx"
    and empty: "ot_is_empty (sq_ordering (eg_seq g))"
  shows "serial w items st0 = (ctx, eg_accounts g)" "run = []" "\<And>i. i < ex_capacity (eg_pool g) \<Longrightarrow> job i = None"
proof -
  note reach = engine_invD(1) [OF inv] and com = engine_invD(2) [OF inv]
  have run: "run = []" and log: "set log = {..<length h}" using ot_inv_drained(1,4) [OF ot_reach_inv [OF reach] empty] by auto
  show "run = []" by (rule run)
  show "job i = None" if "i < ex_capacity (eg_pool g)" for i
    using assignedD(1) [OF pool_okD(7) [OF engine_invD(3) [OF inv]]] that run by (cases "job i") auto
  have kept: "ot.order_kept h clog" using com by (auto simp: commit_ok_def ot.order_kept_def)
  have "set clog = {..<length h}" using com run log by (auto simp: commit_ok_def)
  then have "sort clog = [0..<length h]"
    using com by (intro sorted_distinct_set_unique) (auto simp: commit_ok_def atLeast0LessThan)
  moreover obtain pre acc where pre: "items = pre @ map TxItem h" "serial w pre st0 = (ctx, acc)"
    "eg_accounts g = fold (\<lambda>i. w_exec w ctx (h ! i)) clog acc"
    using inv by (auto simp: engine_inv_def)
  moreover have "fold (\<lambda>i. w_exec w ctx (h ! i)) clog acc = fold (\<lambda>i. w_exec w ctx (h ! i)) (sort clog) acc"
    by (intro ot.kept_serial [OF kept] framed_commute) (use w in \<open>simp_all add: world_framed_def\<close>)
  ultimately show "serial w items st0 = (ctx, eg_accounts g)"
    by (simp add: serial_append serial_txs fold_nth_upt)
qed

text \<open>A boundary reaches only idle workers: its message is appended to queues that hold nothing but boundaries.\<close>

lemma pool_transition:
  assumes ok: "pool_ok w h ctx accs committed run job e wks" and free: "\<And>i. i < ex_capacity e \<Longrightarrow> job i = None"
    and trans: "ex_transition b e = (e', Inr ())"
  shows "pool_ok w [] (svm_transition (w_sysvars w) b ctx) accs' {} [] job e' wks" "ex_capacity e' = ex_capacity e"
proof -
  have e': "ex_handles e' = map (\<lambda>h. h\<lparr>eh_queue := eh_queue h @ [BlockMsg b]\<rparr>) (ex_handles e)" "ex_events e' = ex_events e"
    "ex_available e' = ex_available e"
    using trans send_block_ok [of b "ex_handles e"] by (auto simp: ex_transition_def Let_def split: prod.splits)
  show cap: "ex_capacity e' = ex_capacity e" by (simp add: ex_capacity_def e')
  have "worker_ok w [] (svm_transition (w_sysvars w) b ctx) accs' {} i (ex_handles e' ! i) (wks ! i) (events_of i (ex_events e')) (job i)"
    if i: "i < ex_capacity e" for i
    using pool_okD(5) [OF ok i] unfolding free [OF i]
  proof (rule free_worker)
    fix bs
    assume "eh_open (ex_handles e ! i)" "eh_queue (ex_handles e ! i) = map BlockMsg bs" "wk_activity (wks ! i) = Waiting"
      "fold (svm_transition (w_sysvars w)) bs (wk_svm (wks ! i)) = ctx" "events_of i (ex_events e) = []"
    then show "worker_ok w [] (svm_transition (w_sysvars w) b ctx) accs' {} i (ex_handles e' ! i) (wks ! i) (events_of i (ex_events e')) None"
      unfolding e'(2) using i by (auto simp: e'(1) ex_capacity_def intro!: worker_ok.wk_free [where bs = "bs @ [b]"])
  qed
  moreover have "assigned (ex_capacity e) [] job" using free by (simp add: assigned_def)
  moreover have "idle_set e' = idle_set e" by (simp add: idle_set_def e')
  ultimately show "pool_ok w [] (svm_transition (w_sysvars w) b ctx) accs' {} [] job e' wks"
    unfolding pool_ok_def cap using pool_okD(1-4,6) [OF ok] e'(2) by auto
qed

lemma finalize_end_cases:
  assumes "finalize_end se io blk s = Some (s', Inr ())"
  obtains accs where "ex_transition (fst blk) (sq_executors s) = (sq_executors s', Inr ())"
    "update_sysvars se (fst blk) (kp_accounts (sq_state s)) = Inr (kp_accounts (sq_state s'))"
    "sq_ordering s' = sq_ordering s" "sq_hasher s' = bh_advance (blk_hash (fst blk)) (sq_hasher s)" "sq_replay s' = sq_replay s"
proof -
  obtain e where e: "ex_transition (fst blk) (sq_executors s) = (e, Inr ())"
    using assms by (cases "ex_transition (fst blk) (sq_executors s)") (auto simp: finalize_end_def split: sum.splits)
  then obtain kp r where r: "blocks_append se io (fst blk) (sq_replay s) (sq_state s) = Some (kp, r)"
    using assms by (auto simp: finalize_end_def bind_eq_Some_conv)
  then obtain slot where kp: "blocks_append se io (fst blk) (sq_replay s) (sq_state s) = Some (kp, Inr ())"
    and s': "s' = s\<lparr>sq_executors := e, sq_state := kp, sq_hasher := bh_advance (blk_hash (fst blk)) (sq_hasher s), sq_slot := slot\<rparr>"
    using assms e by (cases r) (auto simp: finalize_end_def bind_eq_Some_conv Let_def)
  have "update_sysvars se (fst blk) (kp_accounts (sq_state s)) = Inr (kp_accounts kp)"
    using kp by (cases "update_sysvars se (fst blk) (kp_accounts (sq_state s))")
      (auto simp: blocks_append_def bind_eq_Some_conv Let_def split: if_splits)
  then show ?thesis using that e s' by simp
qed

lemma finish_block_ok:
  assumes w: "world_framed w" and inv: "engine_inv w st0 items g h run log clog job ctx"
    and empty: "ot_is_empty (sq_ordering (eg_seq g))"
    and fin: "finalize_end (w_sysvars w) io blk ((eg_seq g)\<lparr>sq_ordering := ot_reset (sq_ordering (eg_seq g))\<rparr>) = Some (s', Inr ())"
  shows "engine_inv w st0 (items @ [BlockItem (fst blk)]) (g\<lparr>eg_seq := s', eg_phase := p\<rparr>) [] [] [] [] job (svm_transition (w_sysvars w) (fst blk) ctx)"
proof -
  note d = drained_state [OF w inv empty]
  have reset: "ot_reset (sq_ordering (eg_seq g)) = ot_empty"
    by (rule ot_reset_drained [OF ot_reach_inv [OF engine_invD(1) [OF inv]] empty])
  have trans: "ex_transition (fst blk) (eg_pool g) = (sq_executors s', Inr ())"
    and upd: "update_sysvars (w_sysvars w) (fst blk) (eg_accounts g) = Inr (kp_accounts (sq_state s'))"
    and ord: "sq_ordering s' = ot_empty"
    using finalize_end_cases [OF fin] by (auto simp: reset)
  have "serial w (items @ [BlockItem (fst blk)]) st0 = (svm_transition (w_sysvars w) (fst blk) ctx, kp_accounts (sq_state s'))"
    by (simp add: serial_append d(1)) (simp add: serial_def upd)
  then show ?thesis
    using pool_transition [OF engine_invD(3) [OF inv] d(3) trans] ot_init
    by (simp add: engine_inv_def seq_ok_def ord commit_ok_def work_conserving_def ot_empty_def ot_len_def)
qed

lemma reset_ok:
  assumes w: "world_framed w" and inv: "engine_inv w st0 items g h run log clog job ctx"
    and empty: "ot_is_empty (sq_ordering (eg_seq g))"
  shows "engine_inv w st0 items (g\<lparr>eg_seq := (eg_seq g)\<lparr>sq_ordering := ot_reset (sq_ordering (eg_seq g))\<rparr>, eg_phase := p\<rparr>) [] [] [] [] job ctx"
proof -
  note d = drained_state [OF w inv empty] and pool = engine_invD(3) [OF inv]
  have reset: "ot_reset (sq_ordering (eg_seq g)) = ot_empty"
    by (rule ot_reset_drained [OF ot_reach_inv [OF engine_invD(1) [OF inv]] empty])
  have "worker_ok w [] ctx (eg_accounts g) {} i (eg_handles g ! i) (eg_workers g ! i) (events_of i (eg_events g)) (job i)"
    if i: "i < ex_capacity (eg_pool g)" for i
    using pool_okD(5) [OF pool i] unfolding d(3) [OF i] by (auto elim!: free_worker intro: worker_ok.wk_free)
  then have "pool_ok w [] ctx (eg_accounts g) {} [] job (eg_pool g) (eg_workers g)"
    using pool d(3) unfolding pool_ok_def assigned_def by simp
  then show ?thesis
    using d(1) ot_init by (simp add: engine_inv_def seq_ok_def reset commit_ok_def work_conserving_def ot_empty_def ot_len_def)
qed

lemma outcome_phase_simps [simp]: "outcome_phase p (Inl e) = Halted" "outcome_phase p (Inr x) = p"
  by (simp_all add: outcome_phase_def)

lemma engine_inv_seq:
  assumes inv: "engine_inv w st0 items g h run log clog job ctx"
    and ok: "seq_ok w ctx (eg_accounts g) (eg_workers g) (h @ new) run' log' clog job' s" "work_conserving s"
    and same: "kp_accounts (sq_state s) = eg_accounts g" "ex_capacity (sq_executors s) = ex_capacity (eg_pool g)"
    and len: "ot_len (sq_ordering s) \<le> MAX_PENDING_EXECUTOR_TXNS * ex_capacity (eg_pool g)"
  shows "engine_inv w st0 (items @ map TxItem new) (g\<lparr>eg_seq := s, eg_phase := p\<rparr>) (h @ new) run' log' clog job' ctx"
proof -
  obtain pre acc where pre: "items = pre @ map TxItem h" "serial w pre st0 = (ctx, acc)"
    "eg_accounts g = fold (\<lambda>i. w_exec w ctx (h ! i)) clog acc"
    using inv by (auto simp: engine_inv_def)
  have "i < length h" if "i \<in> set clog" for i
    using engine_invD(2) [OF inv] ot_reach_facts(2,3) [OF engine_invD(1) [OF inv]] that by (auto simp: commit_ok_def)
  then have "fold (\<lambda>i. w_exec w ctx (h ! i)) clog acc = fold (\<lambda>i. w_exec w ctx ((h @ new) ! i)) clog acc"
    by (intro fold_cong) (simp_all add: nth_append)
  then show ?thesis using pre ok same len by (auto simp: engine_inv_def)
qed

lemma submit_ok:
  assumes inv: "engine_inv w st0 items g h run log clog job ctx" and acc: "accepting (eg_seq g)"
    and keys: "distinct (req_keys (er_request request))" "Suc (length (ot_nodes (sq_ordering (eg_seq g)))) < COMPLETE"
    and sch: "schedule io request (eg_seq g) = Some (s, r)" and live: "outcome_phase Processing r \<noteq> Halted"
  shows "engine_ok w st0 (items @ (if r = Inr None then [TxItem (er_request request)] else [])) (g\<lparr>eg_seq := s, eg_phase := p\<rparr>)"
  using sch
proof (cases rule: schedule_cases)
  case (failed error)
  then show ?thesis using live by simp
next
  case (rejected error)
  note fr = admit_frame [OF rejected(1)]
  have "engine_inv w st0 (items @ map TxItem []) (g\<lparr>eg_seq := s, eg_phase := p\<rparr>) (h @ []) run log clog job ctx"
    by (rule engine_inv_seq [OF inv]) (use inv fr in \<open>simp_all add: engine_inv_def seq_ok_def work_conserving_def\<close>)
  from engine_okI [OF this] show ?thesis using rejected(2) by simp
next
  case (admitted s1)
  have ok: "seq_ok w ctx (eg_accounts g) (eg_workers g) h run log clog job (eg_seq g)" using inv by (simp add: engine_inv_def)
  obtain run' job' where s: "seq_ok w ctx (eg_accounts g) (eg_workers g) (h @ [er_request request]) run' log clog job' s" "work_conserving s"
    "kp_accounts (sq_state s) = eg_accounts g" "ex_capacity (sq_executors s) = ex_capacity (eg_pool g)"
    "ot_len (sq_ordering s) = Suc (ot_len (sq_ordering (eg_seq g)))"
    using schedule_ok [OF ok keys admitted(1,3)] by blast
  have "engine_inv w st0 (items @ map TxItem [er_request request]) (g\<lparr>eg_seq := s, eg_phase := p\<rparr>) (h @ [er_request request]) run' log clog job' ctx"
    by (rule engine_inv_seq [OF inv s(1-4)]) (use s(5) acc in \<open>simp add: accepting_def\<close>)
  from engine_okI [OF this] show ?thesis using admitted(2) by simp
qed

lemma drain_begin_ok:
  assumes inv: "engine_inv w st0 items g h run log clog job ctx"
  shows "\<exists>s run' job'. drain_begin c g = Some (g\<lparr>eg_seq := s, eg_phase := Draining c\<rparr>) \<and> sq_hasher s = sq_hasher (eg_seq g) \<and>
    engine_inv w st0 items (g\<lparr>eg_seq := s, eg_phase := Draining c\<rparr>) h run' log clog job' ctx"
proof -
  have ok: "seq_ok w ctx (eg_accounts g) (eg_workers g) h run log clog job (eg_seq g)" using inv by (simp add: engine_inv_def)
  obtain s run' job' where s: "dispatch_ready (eg_seq g) = Some (s, Inr ())" "dispatch_frame (eg_seq g) s" "work_conserving s"
    "seq_ok w ctx (eg_accounts g) (eg_workers g) h run' log clog job' s"
    using dispatch_ready_ok [OF ok] by blast
  have "engine_inv w st0 (items @ map TxItem []) (g\<lparr>eg_seq := s, eg_phase := Draining c\<rparr>) (h @ []) run' log clog job' ctx"
    by (rule engine_inv_seq [OF inv]) (use s inv in \<open>simp_all add: dispatch_frame_def engine_inv_def\<close>)
  then show ?thesis using s(1,2) by (auto simp: drain_begin_def dispatch_frame_def)
qed

lemma process_event_ok:
  assumes inv: "engine_inv w st0 items g h run log clog job ctx" and step: "process_event g = Some g'" "eg_phase g' \<noteq> Halted"
  shows "\<exists>run' log' job'. engine_inv w st0 items g' h run' log' clog job' ctx"
proof -
  obtain ev s1 s2 r where ev: "recv_event (eg_seq g) = Some (ev, s1)" "handle_event ev s1 = Some (s2, r)"
    and g': "g' = g\<lparr>eg_seq := s2, eg_phase := outcome_phase (eg_phase g) r\<rparr>"
    using step(1) by (auto simp: process_event_def bind_eq_Some_conv)
  have ok: "seq_ok w ctx (eg_accounts g) (eg_workers g) h run log clog job (eg_seq g)" using inv by (simp add: engine_inv_def)
  obtain i tk where c: "ev = Completed i tk"
    using ev(2) step(2) g' by (cases ev) (auto simp: handle_event_def)
  obtain run' job' where s: "r = Inr ()" "seq_ok w ctx (eg_accounts g) (eg_workers g) h run' (log @ [tk]) clog job' s2" "work_conserving s2"
    "kp_accounts (sq_state s2) = eg_accounts g" "ex_capacity (sq_executors s2) = ex_capacity (eg_pool g)"
    "ot_len (sq_ordering s2) < ot_len (sq_ordering (eg_seq g))"
    using handle_event_ok [OF ok ev(1) [unfolded c]] ev(2) [unfolded c] by auto
  have "engine_inv w st0 (items @ map TxItem []) (g\<lparr>eg_seq := s2, eg_phase := eg_phase g\<rparr>) (h @ []) run' (log @ [tk]) clog job' ctx"
    by (rule engine_inv_seq [OF inv]) (use s inv in \<open>simp_all add: engine_inv_def\<close>)
  then show ?thesis using g' s(1) by auto
qed

lemma engine_inv_phase: "engine_inv w st0 items (g\<lparr>eg_phase := p\<rparr>) = engine_inv w st0 items g"
  by (intro ext) (simp add: engine_inv_def)

lemma engine_step_ok:
  assumes w: "world_framed w" and step: "engine_step w g new g'" and ok: "engine_ok w st0 items g" and live: "eg_phase g' \<noteq> Halted"
  shows "engine_ok w st0 (items @ new) g'"
proof -
  obtain h run log clog job ctx where inv: "engine_inv w st0 items g h run log clog job ctx" using ok by (auto simp: engine_ok_def)
  show ?thesis
    using step live
  proof (cases rule: engine_step.cases)
    case (es_submit request io s r)
    then show ?thesis using submit_ok [OF inv es_submit(4-7)] live by simp
  next
    case (es_drained c io)
    show ?thesis
    proof (cases c)
      case (FinishBlock blk pause)
      then obtain s r where s: "finalize_end (w_sysvars w) io blk ((eg_seq g)\<lparr>sq_ordering := ot_reset (sq_ordering (eg_seq g))\<rparr>) = Some (s, r)"
        "g' = g\<lparr>eg_seq := s, eg_phase := outcome_phase (if pause then Paused else Processing) r\<rparr>"
        using es_drained by (auto simp: drain_end_def Let_def bind_eq_Some_conv)
      then have "r = Inr ()" using live by (cases r) auto
      then show ?thesis
        using engine_okI [OF finish_block_ok [OF w inv es_drained(3), of io blk s]] s live es_drained(1) FinishBlock by simp
    qed (use es_drained live engine_okI [OF reset_ok [OF w inv es_drained(3)]] in \<open>auto simp: drain_end_def Let_def\<close>)
  next
    case (es_block input block pause)
    then show ?thesis using drain_begin_ok [OF inv, of "FinishBlock block pause"] by (auto intro: engine_okI)
  next
    case (es_barrier c)
    then show ?thesis using drain_begin_ok [OF inv, of c] by (auto intro: engine_okI)
  next
    case es_event
    then show ?thesis using process_event_ok [OF inv _ live] by (auto intro: engine_okI)
  next
    case es_release
    then show ?thesis using engine_okI [OF inv] by (simp add: engine_ok_def engine_inv_phase)
  next
    case (es_recv i)
    then show ?thesis using worker_recv_ok [OF inv] by (auto intro: engine_okI)
  next
    case (es_commit i)
    then show ?thesis using worker_commit_ok [OF w inv] by (auto intro: engine_okI)
  next
    case (es_report i)
    then show ?thesis using worker_report_ok [OF inv] by (auto intro: engine_okI)
  next
    case (es_fail i)
    then show ?thesis using worker_fail_ok [OF inv] by (auto intro: engine_okI)
  qed auto
qed

section \<open>Runs\<close>

lemma worker_phase:
  "worker_recv w i g = Some g' \<Longrightarrow> eg_phase g' = eg_phase g"
  "worker_commit i g = Some g' \<Longrightarrow> eg_phase g' = eg_phase g"
  "worker_report i g = Some g' \<Longrightarrow> eg_phase g' = eg_phase g"
  "worker_fail i g = Some g' \<Longrightarrow> eg_phase g' = eg_phase g"
  by (auto simp: worker_recv_def worker_commit_def worker_report_def worker_fail_def on_pool_def set_worker_def bind_eq_Some_conv
      split: activity.splits list.splits executor_message.splits)

lemma halted_step: "engine_step w g new g' \<Longrightarrow> eg_phase g = Halted \<Longrightarrow> eg_phase g' = Halted"
  by (erule engine_step.cases) (auto simp: worker_phase)

lemma pool_new:
  assumes e: "executors_new (map (\<lambda>i. \<lparr>eh_id = i, eh_queue = [], eh_open = True\<rparr>) [0..<n]) [] = Some e"
    and n: "0 < n" "n \<le> MAX_EXECUTORS"
  shows "pool_ok w [] ctx accs {} [] (\<lambda>_. None) e (replicate n \<lparr>wk_svm = ctx, wk_activity = Waiting\<rparr>)" "ex_capacity e = n"
proof -
  note new = idle_new [OF e]
  show cap: "ex_capacity e = n" by (simp add: ex_capacity_def new(2))
  have "worker_ok w [] ctx accs {} i (ex_handles e ! i) (replicate n \<lparr>wk_svm = ctx, wk_activity = Waiting\<rparr> ! i) (events_of i (ex_events e)) None"
    if "i < n" for i
    unfolding new(2,3) using that by (simp add: worker_ok.wk_free [where bs = "[]"])
  then show "pool_ok w [] ctx accs {} [] (\<lambda>_. None) e (replicate n \<lparr>wk_svm = ctx, wk_activity = Waiting\<rparr>)"
    unfolding pool_ok_def cap assigned_def new(1,3) using n by (simp add: lessThan_def)
qed

lemma engine_new_ok:
  assumes "engine_new w n state replay = Some g" "svm_new (w_sysvars w) (bc_latest (ch_blocks (kp_caches state))) (kp_accounts state) = Some ctx"
  shows "engine_ok w (ctx, kp_accounts state) [] g" "sq_hasher (eg_seq g) = bh_new (blk_hash (bc_latest (ch_blocks (kp_caches state))))"
proof -
  let ?n = "clamp n 1 MAX_EXECUTORS"
  let ?hs = "map (\<lambda>i. \<lparr>eh_id = i, eh_queue = [], eh_open = True\<rparr>) [0..<?n]"
  obtain e slot where e: "executors_new ?hs [] = Some e"
    and g: "g = \<lparr>eg_seq = \<lparr>sq_state = state, sq_ordering = ot_empty, sq_hasher = bh_new (blk_hash (bc_latest (ch_blocks (kp_caches state)))),
        sq_executors = e, sq_slot = slot, sq_replay = replay\<rparr>, eg_phase = Processing,
        eg_workers = replicate (ex_capacity e) \<lparr>wk_svm = ctx, wk_activity = Waiting\<rparr>\<rparr>"
    using assms by (auto simp: engine_new_def sequencer_new_def bind_eq_Some_conv Let_def)
  have n: "0 < ?n" "?n \<le> MAX_EXECUTORS" by (simp_all add: clamp_def MAX_EXECUTORS_def)
  have "pool_ok w [] ctx (kp_accounts state) {} [] (\<lambda>_. None) e (eg_workers g)"
    using pool_new [OF e n] by (simp add: g)
  then have "engine_inv w (ctx, kp_accounts state) [] g [] [] [] [] (\<lambda>_. None) ctx"
    using ot_init by (simp add: engine_inv_def g seq_ok_def commit_ok_def work_conserving_def ot_empty_def ot_len_def serial_def)
  then show "engine_ok w (ctx, kp_accounts state) [] g" by (rule engine_okI)
  show "sq_hasher (eg_seq g) = bh_new (blk_hash (bc_latest (ch_blocks (kp_caches state))))" by (simp add: g)
qed

lemma engine_run_ok:
  assumes "engine_run w g0 items g" "world_framed w" "engine_ok w st0 [] g0" "eg_phase g \<noteq> Halted"
  shows "engine_ok w st0 items g"
  using assms
proof (induction rule: engine_run.induct)
  case (er_step items g new g')
  then show ?case using engine_step_ok halted_step by blast
qed simp

end
