(* ===== verification/Sequencer_Drain.thy ===== *)
theory Sequencer_Drain
  imports Sequencer_Serial
begin

text \<open>
  How much work an engine has left and how it shrinks: a weight for every message, running
  transaction, unreported and unhandled completion, which every step of a drain decreases; why
  some step is possible while work is outstanding; and how the hash chain follows the stream.
\<close>

section \<open>Work left in a drain\<close>

definition activity_weight :: "('st, 'a) activity \<Rightarrow> nat" where
  "activity_weight a = (case a of Waiting \<Rightarrow> 0 | Running _ _ _ _ \<Rightarrow> 3 | Finished _ \<Rightarrow> 2 | Stopped _ \<Rightarrow> 0)"

definition worker_load :: "('st, 'a) worker list \<Rightarrow> nat" where
  "worker_load wks = (\<Sum>wk \<leftarrow> wks. activity_weight (wk_activity wk))"

definition drain_work :: "('st, 'a) engine \<Rightarrow> nat" where
  "drain_work g = seq_load (eg_seq g) + worker_load (eg_workers g) + length (eg_events g)"

lemma sum_list_set:
  fixes f :: "'b \<Rightarrow> nat"
  assumes "i < length xs"
  shows "(\<Sum>x \<leftarrow> xs[i := y]. f x) + f (xs ! i) = (\<Sum>x \<leftarrow> xs. f x) + f y"
  using assms by (induction xs arbitrary: i) (auto split: nat.splits simp: less_Suc_eq_0_disj)

lemma worker_load_set: "i < length wks \<Longrightarrow>
    worker_load (wks[i := wk]) + activity_weight (wk_activity (wks ! i)) = worker_load wks + activity_weight (wk_activity wk)"
  unfolding worker_load_def by (rule sum_list_set)

lemma queued_set: "i < length (ex_handles e) \<Longrightarrow>
    queued (set_handle i eh e) + length (eh_queue (ex_handles e ! i)) = queued e + length (eh_queue eh)"
  using sum_list_set [where f = "\<lambda>h. length (eh_queue h)"] by (simp add: queued_def set_handle_def)

lemma worker_recv_work:
  assumes "worker_recv w i g = Some g'"
  shows "drain_work g' < drain_work g"
proof -
  obtain wk eh where wk: "i < length (eg_workers g)" "wk = eg_workers g ! i" "wk_activity wk = Waiting"
    and eh: "i < length (eg_handles g)" "eh = eg_handles g ! i"
    using assms by (auto simp: worker_recv_def bind_eq_Some_conv split: activity.splits)
  have nth: "nth_opt (eg_workers g) i = Some wk" "nth_opt (eg_handles g) i = Some eh"
    using wk eh by simp_all
  obtain m rest where q: "eh_queue eh = m # rest"
    using assms by (cases "eh_queue eh") (simp_all add: worker_recv_def nth wk(3) del: nth_opt_Some)
  obtain wk' where g': "g' = on_pool (set_handle i (eh\<lparr>eh_queue := rest\<rparr>)) (set_worker i wk' g)"
    and le: "activity_weight (wk_activity wk') \<le> 3"
    using assms by (cases m) (auto simp: worker_recv_def nth wk(3) q activity_weight_def simp del: nth_opt_Some)
  have "queued (set_handle i (eh\<lparr>eh_queue := rest\<rparr>) (eg_pool g)) + Suc (length rest) = queued (eg_pool g) + length rest"
    using queued_set [OF eh(1), of "eh\<lparr>eh_queue := rest\<rparr>"] q eh(2) by simp
  moreover have "worker_load ((eg_workers g)[i := wk']) \<le> worker_load (eg_workers g) + 3"
    using worker_load_set [OF wk(1), of wk'] le wk(2,3) by (simp add: activity_weight_def)
  ultimately show ?thesis
    by (simp add: g' drain_work_def on_pool_def set_worker_def seq_load_def set_handle_def)
qed

lemma worker_commit_work:
  assumes "worker_commit i g = Some g'"
  shows "drain_work g' < drain_work g"
proof -
  obtain wk tk r out st kp where wk: "i < length (eg_workers g)" "wk = eg_workers g ! i" "wk_activity wk = Running tk r out st"
    and g': "g' = set_worker i (wk\<lparr>wk_activity := Finished tk\<rparr>) (g\<lparr>eg_seq := (eg_seq g)\<lparr>sq_state := kp\<rparr>\<rparr>)"
    using assms by (auto simp: worker_commit_def bind_eq_Some_conv split: activity.splits)
  show ?thesis
    using worker_load_set [OF wk(1), of "wk\<lparr>wk_activity := Finished tk\<rparr>"] wk(2,3)
    by (simp add: g' drain_work_def set_worker_def activity_weight_def seq_load_def)
qed

lemma worker_report_work:
  assumes "worker_report i g = Some g'"
  shows "drain_work g' < drain_work g"
proof -
  obtain wk tk where wk: "i < length (eg_workers g)" "wk = eg_workers g ! i" "wk_activity wk = Finished tk"
    and g': "g' = on_pool (send_event (Completed i tk)) (set_worker i (wk\<lparr>wk_activity := Waiting\<rparr>) g)"
    using assms by (auto simp: worker_report_def bind_eq_Some_conv split: activity.splits)
  show ?thesis
    using worker_load_set [OF wk(1), of "wk\<lparr>wk_activity := Waiting\<rparr>"] wk(2,3)
    by (simp add: g' drain_work_def set_worker_def on_pool_def send_event_def activity_weight_def seq_load_def queued_def)
qed

lemma completed_event_work:
  assumes inv: "engine_inv w st0 items g h run log clog job ctx" and ev: "recv_event (eg_seq g) = Some (Completed i tk, s1)"
  shows "\<exists>g'. process_event g = Some g' \<and> eg_phase g' = eg_phase g \<and> drain_work g' < drain_work g"
proof -
  have ok: "seq_ok w ctx (eg_accounts g) (eg_workers g) h run log clog job (eg_seq g)" using inv by (simp add: engine_inv_def)
  obtain s2 where s2: "handle_event (Completed i tk) s1 = Some (s2, Inr ())" "ex_events (sq_executors s2) = tl (eg_events g)"
    "seq_load s2 \<le> seq_load (eg_seq g)"
    using handle_event_ok [OF ok ev] by blast
  have "eg_events g \<noteq> []" using ev by (auto simp: recv_event_def)
  then show ?thesis
    using ev s2 by (cases "eg_events g") (auto simp: process_event_def drain_work_def)
qed

lemma failed_event_halts:
  "recv_event (eg_seq g) = Some (Failed i, s1) \<Longrightarrow> process_event g = Some g' \<Longrightarrow> eg_phase g' = Halted"
  by (auto simp: process_event_def handle_event_def)

lemma process_event_work:
  assumes "engine_inv w st0 items g h run log clog job ctx" "process_event g = Some g'" "eg_phase g' \<noteq> Halted"
  shows "drain_work g' < drain_work g"
proof -
  obtain ev s1 where ev: "recv_event (eg_seq g) = Some (ev, s1)"
    using assms(2) by (auto simp: process_event_def bind_eq_Some_conv)
  show ?thesis
    using completed_event_work [OF assms(1)] failed_event_halts assms(2,3) ev by (cases ev) fastforce+
qed

text \<open>While work is outstanding, some executor holds a ticket, and it or the event queue can move.\<close>

lemma outstanding_job:
  assumes inv: "engine_inv w st0 items g h run log clog job ctx" and "\<not> ot_is_empty (sq_ordering (eg_seq g))"
  obtains i tk where "i < ex_capacity (eg_pool g)" "job i = Some tk"
proof -
  note pool = engine_invD(3) [OF inv]
  have "run \<noteq> []"
  proof
    assume run: "run = []"
    then have "ot_ready (sq_ordering (eg_seq g)) \<noteq> []"
      using outstanding_ready_or_running [OF engine_invD(1) [OF inv]] assms(2) by (simp add: ot_is_empty_def ot_len_def)
    then have "idle_set (eg_pool g) = {}" using inv by (simp add: engine_inv_def work_conserving_def)
    then have "job 0 \<noteq> None" using pool_okD(2,4) [OF pool] by auto
    then show False using assignedD(1) [OF pool_okD(7) [OF pool]] pool_okD(2) [OF pool] run by auto
  qed
  then show ?thesis using that assignedD(1) [OF pool_okD(7) [OF pool], of "last run"] last_in_set by blast
qed

lemma event_completed:
  assumes inv: "engine_inv w st0 items g h run log clog job ctx"
    and alive: "\<forall>wk \<in> set (eg_workers g). \<forall>tk. wk_activity wk \<noteq> Stopped tk" and "recv_event (eg_seq g) = Some (ev, s1)"
  obtains i tk where "ev = Completed i tk"
proof (cases ev)
  case (Failed i)
  note pool = engine_invD(3) [OF inv]
  obtain rest where rest: "eg_events g = Failed i # rest"
    using assms(3) Failed by (auto simp: recv_event_def split: list.splits)
  have i: "i < ex_capacity (eg_pool g)" using pool_okD(6) [OF pool, of "Failed i"] rest by simp
  then have "worker_ok w h ctx (eg_accounts g) (set clog) i (eg_handles g ! i) (eg_workers g ! i) (Failed i # events_of i rest) (job i)"
    using pool_okD(5) [OF pool i] rest by simp
  then obtain tk where "wk_activity (eg_workers g ! i) = Stopped tk" by (auto elim: reported_worker)
  moreover have "eg_workers g ! i \<in> set (eg_workers g)" using i pool_okD(1) [OF pool] by simp
  ultimately show ?thesis using alive by blast
qed (use that in blast)

lemma drain_progress:
  assumes inv: "engine_inv w st0 items g h run log clog job ctx" and "\<not> ot_is_empty (sq_ordering (eg_seq g))"
    and alive: "\<forall>wk \<in> set (eg_workers g). \<forall>tk. wk_activity wk \<noteq> Stopped tk" and live: "\<not> sq_replay (eg_seq g)"
  shows "\<exists>i g'. worker_recv w i g = Some g' \<or> worker_commit i g = Some g' \<or> worker_report i g = Some g' \<or>
    process_event g = Some g' \<and> eg_phase g' = eg_phase g"
proof -
  note pool = engine_invD(3) [OF inv]
  obtain i tk where i: "i < ex_capacity (eg_pool g)" "job i = Some tk" by (rule outstanding_job [OF inv assms(2)])
  have nth: "nth_opt (eg_workers g) i = Some (eg_workers g ! i)" "nth_opt (eg_handles g) i = Some (eg_handles g ! i)"
    using i(1) pool_okD(1) [OF pool] by (simp_all add: ex_capacity_def)
  show ?thesis
    using pool_okD(5) [OF pool i(1)]
  proof (cases rule: worker_ok.cases)
    case (wk_queued bs tk')
    then have "\<exists>g'. worker_recv w i g = Some g'"
      by (cases bs) (simp_all add: worker_recv_def nth del: nth_opt_Some)
    then show ?thesis by blast
  next
    case (wk_running tk' out st)
    then have "\<exists>g'. worker_commit i g = Some g'"
      using live by (simp add: worker_commit_def commit_request_def nth del: nth_opt_Some)
    then show ?thesis by blast
  next
    case (wk_finished tk')
    then have "\<exists>g'. worker_report i g = Some g'" by (simp add: worker_report_def nth del: nth_opt_Some)
    then show ?thesis by blast
  next
    case (wk_reported tk')
    then have "eg_events g \<noteq> []" by auto
    then obtain ev s1 where ev: "recv_event (eg_seq g) = Some (ev, s1)" by (cases "eg_events g") (auto simp: recv_event_def)
    then obtain j tk'' where "ev = Completed j tk''" using event_completed [OF inv alive] by blast
    then show ?thesis using completed_event_work [OF inv] ev by blast
  next
    case (wk_stopped tk')
    then show ?thesis using alive i(1) pool_okD(1) [OF pool] nth_mem by metis
  qed (use i(2) in simp)
qed

section \<open>The hash chain follows the stream\<close>

fun hash_item :: "stream_item \<Rightarrow> block_hasher \<Rightarrow> block_hasher" where
  "hash_item (TxItem r) bh = bh_update (req_signature r) bh"
| "hash_item (BlockItem b) bh = bh_advance (blk_hash b) bh"

lemma dispatch_ready_hasher: "dispatch_ready s = Some (s', r) \<Longrightarrow> sq_hasher s' = sq_hasher s"
proof (induction s rule: dispatch_ready.induct)
  case (1 s)
  note step = "1.prems" [unfolded dispatch_ready.simps [of s]]
  show ?case using step "1.IH" by (fastforce split: option.splits prod.splits sum.splits)
qed

lemma handle_event_hasher: "handle_event ev s = Some (s', r) \<Longrightarrow> sq_hasher s' = sq_hasher s"
  by (auto simp: handle_event_def bind_eq_Some_conv dest!: dispatch_ready_hasher split: executor_event.splits)

lemma worker_hasher:
  "worker_recv w i g = Some g' \<Longrightarrow> sq_hasher (eg_seq g') = sq_hasher (eg_seq g)"
  "worker_commit i g = Some g' \<Longrightarrow> sq_hasher (eg_seq g') = sq_hasher (eg_seq g)"
  "worker_report i g = Some g' \<Longrightarrow> sq_hasher (eg_seq g') = sq_hasher (eg_seq g)"
  "worker_fail i g = Some g' \<Longrightarrow> sq_hasher (eg_seq g') = sq_hasher (eg_seq g)"
  by (auto simp: worker_recv_def worker_commit_def worker_report_def worker_fail_def on_pool_def set_worker_def bind_eq_Some_conv
      split: activity.splits list.splits executor_message.splits)

lemma schedule_hasher:
  assumes "schedule io request s = Some (s', r)"
  shows "\<And>e. r = Inr (Some e) \<Longrightarrow> sq_hasher s' = sq_hasher s"
    and "r = Inr None \<Longrightarrow> sq_hasher s' = bh_update (req_signature (er_request request)) (sq_hasher s)"
proof -
  show "sq_hasher s' = sq_hasher s" if "r = Inr (Some e)" for e
    using assms that by (cases rule: schedule_cases) (auto dest: admit_frame)
  show "sq_hasher s' = bh_update (req_signature (er_request request)) (sq_hasher s)" if "r = Inr None"
    using assms that
    by (cases rule: schedule_cases)
      (auto simp: register_admitted_def bind_eq_Some_conv dest!: dispatch_ready_hasher admit_frame(3))
qed

lemma engine_step_hasher:
  assumes "engine_step w g new g'" "eg_phase g' \<noteq> Halted"
  shows "sq_hasher (eg_seq g') = fold hash_item new (sq_hasher (eg_seq g))"
  using assms
proof (cases rule: engine_step.cases)
  case (es_submit request io s r)
  then show ?thesis using assms(2) schedule_hasher [OF es_submit(7)] by (cases r; cases "projr r") auto
next
  case (es_drained c io)
  show ?thesis
  proof (cases c)
    case (FinishBlock blk pause)
    then obtain s r where s: "finalize_end (w_sysvars w) io blk ((eg_seq g)\<lparr>sq_ordering := ot_reset (sq_ordering (eg_seq g))\<rparr>) = Some (s, r)"
      "g' = g\<lparr>eg_seq := s, eg_phase := outcome_phase (if pause then Paused else Processing) r\<rparr>"
      using es_drained by (auto simp: drain_end_def Let_def bind_eq_Some_conv)
    then have "r = Inr ()" using assms(2) by (cases r) auto
    then have "sq_hasher s = bh_advance (blk_hash (fst blk)) (sq_hasher (eg_seq g))"
      using finalize_end_cases s(1) by fastforce
    then show ?thesis using es_drained(1) FinishBlock s(2) assms(2) by simp
  qed (use es_drained in \<open>auto simp: drain_end_def Let_def\<close>)
qed (auto simp: drain_begin_def process_event_def recv_event_def bind_eq_Some_conv worker_hasher
    split: list.splits dest!: dispatch_ready_hasher handle_event_hasher)

lemma engine_run_hasher:
  assumes "engine_run w g0 items g" "eg_phase g \<noteq> Halted"
  shows "sq_hasher (eg_seq g) = fold hash_item items (sq_hasher (eg_seq g0))"
  using assms
proof (induction rule: engine_run.induct)
  case (er_step items g new g')
  then show ?case using engine_step_hasher halted_step by fastforce
qed simp

section \<open>Reachable engines\<close>

lemma engine_state:
  assumes "engine_new w n state replay = Some g0"
    and "svm_new (w_sysvars w) (bc_latest (ch_blocks (kp_caches state))) (kp_accounts state) = Some ctx0"
    and "world_framed w" "engine_run w g0 items g" "eg_phase g \<noteq> Halted"
  obtains h run log clog job ctx where "engine_inv w (ctx0, kp_accounts state) items g h run log clog job ctx"
  using engine_run_ok [OF assms(4,3) engine_new_ok(1) [OF assms(1,2)] assms(5)] by (auto simp: engine_ok_def)

lemma length_by_key:
  fixes f :: "'b \<Rightarrow> nat"
  assumes "\<And>x. x \<in> set xs \<Longrightarrow> f x < n"
  shows "length xs = (\<Sum>i < n. length (filter (\<lambda>x. f x = i) xs))"
  using assms
proof (induction xs)
  case (Cons x xs)
  have "(\<Sum>i < n. length (filter (\<lambda>x. f x = i) (x # xs))) =
      (\<Sum>i < n. (if i = f x then 1 else 0) + length (filter (\<lambda>x. f x = i) xs))"
    by (rule sum.cong) auto
  then show ?case using Cons by (simp add: sum.distrib)
qed simp

lemma engine_events_bound:
  assumes inv: "engine_inv w st0 items g h run log clog job ctx"
  shows "length (eg_events g) \<le> ex_capacity (eg_pool g)"
proof -
  note pool = engine_invD(3) [OF inv]
  have one: "length (events_of i (eg_events g)) \<le> 1" if "i < ex_capacity (eg_pool g)" for i
    using pool_okD(5) [OF pool that] by (auto elim: worker_ok.cases)
  have "length (eg_events g) = (\<Sum>i < ex_capacity (eg_pool g). length (events_of i (eg_events g)))"
    using pool_okD(6) [OF pool] by (rule length_by_key)
  also have "\<dots> \<le> (\<Sum>i < ex_capacity (eg_pool g). 1)" using one by (intro sum_mono) simp
  finally show ?thesis by simp
qed

lemma idle_worker:
  assumes inv: "engine_inv w st0 items g h run log clog job ctx" and i: "i < ex_capacity (eg_pool g)"
  shows "i \<in> idle_set (eg_pool g) \<longleftrightarrow> wk_activity (eg_workers g ! i) = Waiting \<and> events_of i (eg_events g) = [] \<and>
    (\<forall>m \<in> set (eh_queue (eg_handles g ! i)). \<exists>b. m = BlockMsg b)"
proof -
  note pool = engine_invD(3) [OF inv]
  have "i \<in> idle_set (eg_pool g) \<longleftrightarrow> job i = None" using pool_okD(4) [OF pool] i by simp
  moreover have "(job i = None) = (wk_activity (eg_workers g ! i) = Waiting \<and> events_of i (eg_events g) = [] \<and>
      (\<forall>m \<in> set (eh_queue (eg_handles g ! i)). \<exists>b. m = BlockMsg b))"
    using pool_okD(5) [OF pool i]
  proof (cases rule: worker_ok.cases)
    case (wk_queued bs tk)
    then have "TransactionMsg tk (h ! tk) \<in> set (eh_queue (eg_handles g ! i))" by simp
    then have "\<not> (\<forall>m \<in> set (eh_queue (eg_handles g ! i)). \<exists>b. m = BlockMsg b)" by fastforce
    then show ?thesis using wk_queued by simp
  qed auto
  ultimately show ?thesis by simp
qed

end
