(* ===== verification/Sequencer_Script.thy ===== *)
theory Sequencer_Script
  imports Sequencer_Serial
begin

text \<open>
  Engines driven by a list of actions, with concrete requests, sysvars and execution functions,
  so that runs of the engine can be evaluated.
\<close>

section \<open>Scripted engines\<close>

text \<open>An engine driven by a list of actions, for evaluating runs on concrete requests.\<close>

datatype engine_action =
  Submit execution_request | Boundary block_input | HandleEvent | FinishDrain | Receive executor_id | Commit executor_id | Report executor_id

definition good_io :: keeper_io where
  "good_io = \<lparr>io_appender_open = True, io_store_ok = True, io_set_slot_ok = True\<rparr>"

definition is_processing :: "phase \<Rightarrow> bool" where
  "is_processing p = (case p of Processing \<Rightarrow> True | _ \<Rightarrow> False)"

definition silent :: "('st, 'a) engine option \<Rightarrow> (('st, 'a) engine \<times> stream_item list) option" where
  "silent g = map_option (\<lambda>g. (g, [])) g"

fun engine_act :: "('st, 'a) world \<Rightarrow> engine_action \<Rightarrow> ('st, 'a) engine \<Rightarrow> (('st, 'a) engine \<times> stream_item list) option" where
  "engine_act w (Submit request) g =
     (if is_processing (eg_phase g) \<and> accepting (eg_seq g) \<and> distinct (req_keys (er_request request)) \<and>
         Suc (length (ot_nodes (sq_ordering (eg_seq g)))) < COMPLETE
      then (case schedule good_io request (eg_seq g) of
              Some (s, Inr None) \<Rightarrow> Some (g\<lparr>eg_seq := s, eg_phase := Processing\<rparr>, [TxItem (er_request request)])
            | Some (s, Inr (Some _)) \<Rightarrow> Some (g\<lparr>eg_seq := s, eg_phase := Processing\<rparr>, [])
            | _ \<Rightarrow> None)
      else None)"
| "engine_act w (Boundary input) g =
     (if is_processing (eg_phase g) \<and> accepting (eg_seq g)
      then (case finalize_begin (w_blake3 w) (w_sign w) input (eg_seq g) of
              Inl _ \<Rightarrow> None
            | Inr block \<Rightarrow> silent (drain_begin (FinishBlock block False) g))
      else None)"
| "engine_act w HandleEvent g =
     (if is_processing (eg_phase g) \<or> \<not> ot_is_empty (sq_ordering (eg_seq g)) \<and> (case eg_phase g of Draining _ \<Rightarrow> True | _ \<Rightarrow> False)
      then silent (process_event g) else None)"
| "engine_act w FinishDrain g =
     (case eg_phase g of
        Draining (FinishBlock block pause) \<Rightarrow>
          if ot_is_empty (sq_ordering (eg_seq g))
          then (case drain_end w good_io (FinishBlock block pause) g of
                  None \<Rightarrow> None
                | Some g' \<Rightarrow> if eg_phase g' = Halted then None else Some (g', [BlockItem (fst block)]))
          else None
      | _ \<Rightarrow> None)"
| "engine_act w (Receive i) g = silent (worker_recv w i g)"
| "engine_act w (Commit i) g = silent (worker_commit i g)"
| "engine_act w (Report i) g = silent (worker_report i g)"

fun engine_script :: "('st, 'a) world \<Rightarrow> engine_action list \<Rightarrow> stream_item list \<times> ('st, 'a) engine \<Rightarrow> (stream_item list \<times> ('st, 'a) engine) option" where
  "engine_script w [] st = Some st"
| "engine_script w (a # rest) (items, g) = do {
     (g', new) \<leftarrow> engine_act w a g;
     engine_script w rest (items @ new, g')
   }"

lemma is_processing_iff [simp]: "is_processing p \<longleftrightarrow> p = Processing"
  by (cases p) (simp_all add: is_processing_def)

lemma engine_act_step:
  assumes "engine_act w a g = Some (g', new)"
  shows "engine_step w g new g'"
proof (cases a)
  case (Submit request)
  then obtain s r where s: "eg_phase g = Processing" "accepting (eg_seq g)" "distinct (req_keys (er_request request))"
    "Suc (length (ot_nodes (sq_ordering (eg_seq g)))) < COMPLETE" "schedule good_io request (eg_seq g) = Some (s, Inr r)"
    and g': "g' = g\<lparr>eg_seq := s, eg_phase := Processing\<rparr>" "new = (if r = None then [TxItem (er_request request)] else [])"
    using assms by (auto split: if_splits option.splits sum.splits)
  then show ?thesis using es_submit [OF s, of w] by simp
next
  case (Boundary input)
  then show ?thesis using assms by (auto simp: silent_def split: if_splits sum.splits intro: es_block)
next
  case HandleEvent
  then show ?thesis using assms by (auto simp: silent_def split: if_splits phase.splits intro: es_event)
next
  case FinishDrain
  then obtain block pause where c: "eg_phase g = Draining (FinishBlock block pause)" "ot_is_empty (sq_ordering (eg_seq g))"
    "drain_end w good_io (FinishBlock block pause) g = Some g'" "eg_phase g' \<noteq> Halted" "new = [BlockItem (fst block)]"
    using assms by (auto split: phase.splits after_drain.splits if_splits option.splits)
  then show ?thesis using es_drained [OF c(1-3)] by simp
qed (use assms in \<open>auto simp: silent_def intro: engine_step.intros\<close>)

lemma engine_script_run:
  "engine_run w g0 items g \<Longrightarrow> engine_script w as (items, g) = Some (items', g') \<Longrightarrow> engine_run w g0 items' g'"
proof (induction as arbitrary: items g)
  case (Cons a as)
  then obtain g1 new where "engine_act w a g = Some (g1, new)" "engine_script w as (items @ new, g1) = Some (items', g')"
    by (auto simp: bind_eq_Some_conv)
  then show ?case using Cons.IH [OF er_step [OF Cons.prems(1) engine_act_step]] by blast
qed simp

definition demo_sysvars :: "bytes sysvar_env" where
  "demo_sysvars = \<lparr>se_id = (\<lambda>v. case v of ClockVar \<Rightarrow> [201] | SlotHashesVar \<Rightarrow> [202] | _ \<Rightarrow> [203]), se_decodes = (\<lambda>_ _. True),
     se_data = id, se_set_data = (\<lambda>d _. Some d), se_add_hash = (\<lambda>slot hash d. Some (take 1 hash @ d)), se_clock = (\<lambda>b. [of_nat (blk_slot b)])\<rparr>"

definition append_exec :: "svm_context \<Rightarrow> request \<Rightarrow> bytes accounts \<Rightarrow> bytes accounts" where
  "append_exec ctx r s k = (if writes r k then Some (case_option [] id (s k) @ req_signature r @ [of_nat (sv_slot ctx)]) else s k)"

definition demo_world :: "(svm_context \<Rightarrow> request \<Rightarrow> bytes accounts \<Rightarrow> bytes accounts) \<Rightarrow> (unit, bytes) world" where
  "demo_world exec = \<lparr>w_blake3 = (\<lambda>bs. [of_nat (length bs)]), w_sign = (\<lambda>_. []), w_sysvars = demo_sysvars, w_exec = exec, w_status = (\<lambda>_ _ _. ())\<rparr>"

definition demo_keeper :: "(unit, bytes) keeper" where
  "demo_keeper = \<lparr>kp_caches = the (leader_caches (sample_block 0) 4 4), kp_accounts = [[201] \<mapsto> [], [202] \<mapsto> [0]], kp_slot = 0\<rparr>"

definition demo_request :: "u8 \<Rightarrow> u8 \<Rightarrow> u8 \<Rightarrow> execution_request" where
  "demo_request sig k h = \<lparr>er_request = \<lparr>req_keys = [[k]], req_is_writable = (\<lambda>_. True), req_signature = [sig]\<rparr>, er_blockhash = [h]\<rparr>"

lemma append_framed: "world_framed (demo_world append_exec)"
  by (auto simp: world_framed_def demo_world_def effect_framed_def append_exec_def dest!: writes_accesses)

definition settled :: "('st, 'a) engine \<Rightarrow> bool" where
  "settled g \<longleftrightarrow> is_processing (eg_phase g) \<and> ot_is_empty (sq_ordering (eg_seq g))"

definition script_run :: "('st, 'a) world \<Rightarrow> nat \<Rightarrow> ('st, 'a) keeper \<Rightarrow> bool \<Rightarrow> engine_action list \<Rightarrow>
    (('st, 'a) engine \<times> stream_item list \<times> ('st, 'a) engine) option" where
  "script_run w n state replay as = do {
     g0 \<leftarrow> engine_new w n state replay;
     (items, g) \<leftarrow> engine_script w as ([], g0);
     Some (g0, items, g)
   }"

lemma script_run_engine:
  assumes "script_run w n state replay as = Some (g0, items, g)"
  shows "engine_new w n state replay = Some g0" "engine_run w g0 items g"
  using assms engine_script_run [OF er_start] by (auto simp: script_run_def bind_eq_Some_conv)

text \<open>A script without boundaries admits at most its submissions, in order.\<close>

fun submitted :: "engine_action list \<Rightarrow> stream_item list" where
  "submitted [] = []"
| "submitted (Submit request # rest) = TxItem (er_request request) # submitted rest"
| "submitted (_ # rest) = submitted rest"

lemma engine_act_items:
  assumes "engine_act w a g = Some (g', new)" "a \<noteq> FinishDrain"
  shows "new = [] \<or> new = submitted [a]"
  using assms by (cases a) (auto simp: silent_def split: if_splits option.splits sum.splits)

lemma submitted_Cons: "submitted (a # as) = submitted [a] @ submitted as"
  by (cases a) simp_all

lemma submitted_single: "length (submitted [a]) \<le> 1"
  by (cases a) simp_all

lemma engine_script_items:
  assumes "engine_script w as (items, g) = Some (items', g')" "FinishDrain \<notin> set as"
  shows "length items' \<le> length items + length (submitted as) \<and>
    (length items' = length items + length (submitted as) \<longrightarrow> items' = items @ submitted as)"
  using assms
proof (induction as arbitrary: items g)
  case (Cons a as)
  then obtain g1 new where act: "engine_act w a g = Some (g1, new)" and rest: "engine_script w as (items @ new, g1) = Some (items', g')"
    by (auto simp: bind_eq_Some_conv)
  have "new = [] \<or> new = submitted [a]" using engine_act_items [OF act] Cons.prems(2) by auto
  then show ?case using Cons.IH [OF rest] Cons.prems(2) by (auto simp: submitted_Cons [of a as])
qed simp

definition demo_script :: "engine_action list" where
  "demo_script =
     [Submit (demo_request 1 10 0), Submit (demo_request 2 20 0), Submit (demo_request 3 10 0), Boundary (Production (sample_block 1)),
      Receive 1, Receive 0, Commit 1, Commit 0, Report 0, Report 1, HandleEvent, HandleEvent,
      Receive 0, Commit 0, Report 0, HandleEvent, FinishDrain]"

lemma demo_script_eq:
  "map_option (\<lambda>(g0, items, g). (settled g, eg_accounts g [10])) (script_run (demo_world append_exec) 2 demo_keeper False demo_script)
     = Some (True, Some [1, 1, 3, 1])"
  by code_simp

lemma demo_script_run:
  obtains g0 items g where "script_run (demo_world append_exec) 2 demo_keeper False demo_script = Some (g0, items, g)"
    "eg_phase g \<noteq> Halted" "ot_is_empty (sq_ordering (eg_seq g))" "eg_accounts g [10] = Some [1, 1, 3, 1]"
  using demo_script_eq that by (auto simp: settled_def)

lemma demo_svm: "\<exists>ctx. svm_new demo_sysvars (bc_latest (ch_blocks (kp_caches demo_keeper))) (kp_accounts demo_keeper) = Some ctx"
proof -
  have "map_option (\<lambda>_. ()) (svm_new demo_sysvars (bc_latest (ch_blocks (kp_caches demo_keeper))) (kp_accounts demo_keeper)) = Some ()"
    by code_simp
  then show ?thesis by auto
qed

text \<open>A drain caught with one unhandled completion.\<close>

definition drain_script :: "engine_action list" where
  "drain_script = [Submit (demo_request 1 10 0), Boundary (Production (sample_block 1)), Receive 0, Commit 0, Report 0]"

definition is_draining :: "phase \<Rightarrow> bool" where
  "is_draining p = (case p of Draining _ \<Rightarrow> True | _ \<Rightarrow> False)"

definition is_stopped :: "('st, 'a) activity \<Rightarrow> bool" where
  "is_stopped a = (case a of Stopped _ \<Rightarrow> True | _ \<Rightarrow> False)"

lemma drain_script_eq:
  "map_option (\<lambda>(g0, items, g). (is_draining (eg_phase g), ot_is_empty (sq_ordering (eg_seq g)), sq_replay (eg_seq g),
      eg_events g, list_ex (\<lambda>wk. is_stopped (wk_activity wk)) (eg_workers g)))
     (script_run (demo_world append_exec) 1 demo_keeper False drain_script)
   = Some (True, False, False, [Completed 0 0], False)"
  by code_simp

lemma drain_script_run:
  obtains g0 items g c where "script_run (demo_world append_exec) 1 demo_keeper False drain_script = Some (g0, items, g)"
    "eg_phase g = Draining c" "\<not> ot_is_empty (sq_ordering (eg_seq g))" "\<not> sq_replay (eg_seq g)" "eg_events g = [Completed 0 0]"
    "\<forall>wk \<in> set (eg_workers g). \<forall>tk. wk_activity wk \<noteq> Stopped tk"
proof -
  obtain g0 items g where g: "script_run (demo_world append_exec) 1 demo_keeper False drain_script = Some (g0, items, g)"
    "is_draining (eg_phase g)" "\<not> ot_is_empty (sq_ordering (eg_seq g))" "\<not> sq_replay (eg_seq g)" "eg_events g = [Completed 0 0]"
    "\<not> list_ex (\<lambda>wk. is_stopped (wk_activity wk)) (eg_workers g)"
    using drain_script_eq by auto
  obtain c where "eg_phase g = Draining c" using g(2) by (cases "eg_phase g") (simp_all add: is_draining_def)
  moreover have "\<forall>wk \<in> set (eg_workers g). \<forall>tk. wk_activity wk \<noteq> Stopped tk"
    using g(6) by (force simp: list_ex_iff is_stopped_def)
  ultimately show ?thesis using that g by blast
qed

text \<open>One transaction executed live and replayed by two executors.\<close>

definition live_script :: "engine_action list" where
  "live_script = [Submit (demo_request 1 10 0), Receive 0, Commit 0, Report 0, HandleEvent]"

lemma live_script_eq:
  "map_option (\<lambda>(g0, items, g). (settled g, length items)) (script_run (demo_world append_exec) 1 demo_keeper False live_script) = Some (True, 1)"
  "map_option (\<lambda>(g0, items, g). (settled g, length items)) (script_run (demo_world append_exec) 2 demo_keeper True live_script) = Some (True, 1)"
  by code_simp+

lemma script_run_items:
  assumes "script_run w n state replay as = Some (g0, items, g)" "FinishDrain \<notin> set as" "length items = length (submitted as)"
  shows "items = submitted as"
  using assms engine_script_items [of w as "[]" g0 items g] by (auto simp: script_run_def bind_eq_Some_conv)

text \<open>
  A program that copies the SlotHashes sysvar it obtains from \<^verbatim>\<open>sol_get_sysvar\<close>: one engine runs
  through a boundary and then executes it; another starts from the state at that boundary and
  replays it.
\<close>

definition copy_exec :: "svm_context \<Rightarrow> request \<Rightarrow> bytes accounts \<Rightarrow> bytes accounts" where
  "copy_exec ctx r s k = (if writes r k then sysvar_id_to_buffer demo_sysvars [202] (sv_cache ctx) else s k)"

lemma copy_framed: "world_framed (demo_world copy_exec)"
  by (auto simp: world_framed_def demo_world_def effect_framed_def copy_exec_def dest!: writes_accesses)

definition restart_runs ::
    "((unit, bytes) engine \<times> stream_item list \<times> (unit, bytes) engine \<times> stream_item list \<times> (unit, bytes) engine \<times>
      (unit, bytes) engine \<times> stream_item list \<times> (unit, bytes) engine) option" where
  "restart_runs = do {
     let w = demo_world copy_exec;
     let tx = Submit (demo_request 5 10 0);
     p0 \<leftarrow> engine_new w 1 demo_keeper False;
     (before, p1) \<leftarrow> engine_script w [Boundary (Production (sample_block 1)), FinishDrain] ([], p0);
     (after, p2) \<leftarrow> engine_script w [tx, Receive 0, Receive 0, Commit 0, Report 0, HandleEvent] ([], p1);
     q0 \<leftarrow> engine_new w 1 (sq_state (eg_seq p1)) True;
     (replayed, q) \<leftarrow> engine_script w [tx, Receive 0, Commit 0, Report 0, HandleEvent] ([], q0);
     Some (p0, before, p1, after, p2, q0, replayed, q)
   }"

lemma restart_runs_eq:
  "map_option (\<lambda>(p0, before, p1, after, p2, q0, replayed, q).
      (settled p1, settled p2, settled q, length after, length replayed, eg_accounts p2 [10], eg_accounts q [10])) restart_runs
   = Some (True, True, True, 1, 1, Some [0], Some [1, 0])"
  by code_simp

lemma engine_script_shift:
  "engine_script w as (items, g) = map_option (\<lambda>(new, g'). (items @ new, g')) (engine_script w as ([], g))"
proof (induction as arbitrary: items g)
  case (Cons a as)
  show ?case
  proof (cases "engine_act w a g")
    case (Some x)
    then obtain g1 new where "engine_act w a g = Some (g1, new)" by (cases x) auto
    then show ?thesis
      using Cons.IH [of "items @ new" g1] Cons.IH [of new g1] by (simp add: option.map_comp comp_def split_beta)
  qed simp
qed simp

end
