(* ===== verification/Sequencer_Props.thy ===== *)
theory Sequencer_Props
  imports Sequencer_Drain Sequencer_Script
begin

text \<open>
  What the running engine guarantees, from its invariant: determinism against serial execution,
  absence of panics with bounded work, termination of draining, and replay of a recorded stream,
  with the one thing that replay after a restart does not reproduce.
\<close>

section \<open>What the engine guarantees\<close>

text \<open>
  C35. The parallel engine is deterministic. Take any run of the sequencer and its executors, with
  any number of workers, any interleaving of submissions, dispatches, commits and completions and
  any boundaries and barriers in it. Whenever no admitted transaction is outstanding and the
  sequencer has not stopped on an error, the account state is exactly the one obtained by
  executing the admitted transactions and applying the block boundaries one after the other, each
  transaction in the environment of its own block. The execution function is arbitrary as long as
  a transaction changes only the accounts it declares writable and reads only those it declares.
\<close>

theorem engine_serializable:
  assumes "engine_new w n state replay = Some g0"
    and "svm_new (w_sysvars w) (bc_latest (ch_blocks (kp_caches state))) (kp_accounts state) = Some ctx0"
    and "world_framed w" and "engine_run w g0 items g"
    and "eg_phase g \<noteq> Halted" and "ot_is_empty (sq_ordering (eg_seq g))"
  shows "eg_accounts g = snd (serial w items (ctx0, kp_accounts state))"
proof -
  obtain h run log clog job ctx where inv: "engine_inv w (ctx0, kp_accounts state) items g h run log clog job ctx"
    using engine_run_ok [OF assms(4,3) engine_new_ok(1) [OF assms(1,2)] assms(5)] by (auto simp: engine_ok_def)
  show ?thesis using drained_state(1) [OF assms(3) inv assms(6)] by simp
qed

theorem engine_serializable_witness:
  "\<exists>ctx0 g0 items g. engine_run (demo_world append_exec) g0 items g \<and>
     snd (serial (demo_world append_exec) items (ctx0, kp_accounts demo_keeper)) [10] = Some [1, 1, 3, 1]"
proof -
  obtain g0 items g where run: "script_run (demo_world append_exec) 2 demo_keeper False demo_script = Some (g0, items, g)"
    and g: "eg_phase g \<noteq> Halted" "ot_is_empty (sq_ordering (eg_seq g))" "eg_accounts g [10] = Some [1, 1, 3, 1]"
    by (rule demo_script_run)
  obtain ctx0 where ctx0: "svm_new (w_sysvars (demo_world append_exec)) (bc_latest (ch_blocks (kp_caches demo_keeper))) (kp_accounts demo_keeper) = Some ctx0"
    using demo_svm by (auto simp: demo_world_def)
  note sr = script_run_engine [OF run]
  show ?thesis
    using engine_serializable [OF sr(1) ctx0 append_framed sr(2) g(1,2)] sr(2) g(3) by metis
qed

text \<open>
  C36. The engine never panics and its work is bounded. In every reachable state in which the
  sequencer has not stopped, the next executor event is either a failure report or is handled
  without a panic, so the assertions on the availability bits hold; an admitted transaction with
  distinct keys is always registered and dispatched successfully; the availability word marks
  exactly the workers that hold no transaction and have reported none; at most 16 transactions
  per executor are pending; and the event channel, whose capacity is the number of executors,
  is never full beyond its capacity.
\<close>

theorem engine_safe:
  assumes "engine_new w n state replay = Some g0"
    and "svm_new (w_sysvars w) (bc_latest (ch_blocks (kp_caches state))) (kp_accounts state) = Some ctx0"
    and "world_framed w" and "engine_run w g0 items g" and "eg_phase g \<noteq> Halted"
  shows "(\<forall>ev s. recv_event (eg_seq g) = Some (ev, s) \<longrightarrow>
        (\<exists>i. ev = Failed i) \<or> (\<exists>s'. handle_event ev s = Some (s', Inr ()))) \<and>
     (\<forall>r. distinct (req_keys r) \<and> Suc (length (ot_nodes (sq_ordering (eg_seq g)))) < COMPLETE \<longrightarrow>
        (\<exists>s'. register_admitted r (eg_seq g) = Some (s', Inr ()))) \<and>
     (\<forall>i < ex_capacity (eg_pool g). i \<in> idle_set (eg_pool g) \<longleftrightarrow>
        wk_activity (eg_workers g ! i) = Waiting \<and> events_of i (eg_events g) = [] \<and>
        (\<forall>m \<in> set (eh_queue (eg_handles g ! i)). \<exists>b. m = BlockMsg b)) \<and>
     ot_len (sq_ordering (eg_seq g)) \<le> MAX_PENDING_EXECUTOR_TXNS * ex_capacity (eg_pool g) \<and>
     length (eg_events g) \<le> ex_capacity (eg_pool g)"
proof -
  obtain h run log clog job ctx where inv: "engine_inv w (ctx0, kp_accounts state) items g h run log clog job ctx"
    by (rule engine_state [OF assms])
  have ok: "seq_ok w ctx (eg_accounts g) (eg_workers g) h run log clog job (eg_seq g)" using inv by (simp add: engine_inv_def)
  have "(\<exists>i. ev = Failed i) \<or> (\<exists>s'. handle_event ev s = Some (s', Inr ()))" if "recv_event (eg_seq g) = Some (ev, s)" for ev s
    using handle_event_ok [OF ok] that by (cases ev) blast+
  moreover have "\<exists>s'. register_admitted r (eg_seq g) = Some (s', Inr ())"
    if "distinct (req_keys r)" "Suc (length (ot_nodes (sq_ordering (eg_seq g)))) < COMPLETE" for r
    using register_ok [OF ok that] by blast
  ultimately show ?thesis
    using idle_worker [OF inv] engine_events_bound [OF inv] inv by (auto simp: engine_inv_def)
qed

lemma demo_ctx:
  obtains ctx0 where
    "svm_new (w_sysvars (demo_world exec)) (bc_latest (ch_blocks (kp_caches demo_keeper))) (kp_accounts demo_keeper) = Some ctx0"
  using demo_svm by (auto simp: demo_world_def)

theorem engine_safe_witness:
  "\<exists>g s s'. eg_events g = [Completed 0 0] \<and> recv_event (eg_seq g) = Some (Completed 0 0, s) \<and>
     handle_event (Completed 0 0) s = Some (s' :: (unit, bytes) sequencer, Inr ())"
proof -
  obtain g0 items g c where g: "script_run (demo_world append_exec) 1 demo_keeper False drain_script = Some (g0, items, g)"
    "eg_phase g = Draining c" "eg_events g = [Completed 0 0]"
    by (rule drain_script_run)
  obtain ctx0 where ctx0: "svm_new (w_sysvars (demo_world append_exec)) (bc_latest (ch_blocks (kp_caches demo_keeper)))
      (kp_accounts demo_keeper) = Some ctx0"
    by (rule demo_ctx)
  note sr = script_run_engine [OF g(1)]
  obtain s where s: "recv_event (eg_seq g) = Some (Completed 0 0, s)" using g(3) by (simp add: recv_event_def)
  have "\<exists>s'. handle_event (Completed 0 0) s = Some (s', Inr ())"
    using engine_safe [OF sr(1) ctx0 append_framed sr(2)] g(2) s by fastforce
  then show ?thesis using g(3) s by blast
qed

lemma drain_end_phase:
  assumes "drain_end w io c' g = Some g'"
  shows "eg_phase g' \<noteq> Draining c"
proof (cases c')
  case (FinishBlock block pause)
  then obtain s and r :: "processor_error + unit" where "g' = g\<lparr>eg_seq := s, eg_phase := outcome_phase (if pause then Paused else Processing) r\<rparr>"
    using assms by (auto simp: drain_end_def Let_def bind_eq_Some_conv)
  then show ?thesis by (cases r) (auto simp: outcome_phase_def)
qed (use assms in \<open>auto simp: drain_end_def Let_def\<close>)

text \<open>
  C37. Draining terminates. In every reachable draining live engine with no failed executor, every step
  that is not an executor failure either ends the drain or strictly decreases the work left,
  \<open>drain_work\<close>, and as long as transactions are outstanding such a step is possible: some
  executor can receive, commit or report, or the sequencer can handle a completion. So a drain
  reaches its end after at most \<open>drain_work\<close> steps, whatever the scheduling. (A
  replaying engine also caches signatures at commit, which fails at the last slots of 64 bits.)
\<close>

theorem drain_terminates:
  assumes "engine_new w n state replay = Some g0"
    and "svm_new (w_sysvars w) (bc_latest (ch_blocks (kp_caches state))) (kp_accounts state) = Some ctx0"
    and "world_framed w" and "engine_run w g0 items g" and "eg_phase g = Draining c"
    and "\<forall>wk \<in> set (eg_workers g). \<forall>tk. wk_activity wk \<noteq> Stopped tk" and "\<not> sq_replay (eg_seq g)"
  shows "(\<forall>new g'. engine_step w g new g' \<longrightarrow>
        (\<exists>i. worker_fail i g = Some g') \<or> eg_phase g' \<noteq> Draining c \<or> drain_work g' < drain_work g) \<and>
     (ot_is_empty (sq_ordering (eg_seq g)) \<or>
        (\<exists>g'. engine_step w g [] g' \<and> eg_phase g' = Draining c \<and> drain_work g' < drain_work g))"
proof -
  obtain h run log clog job ctx where inv: "engine_inv w (ctx0, kp_accounts state) items g h run log clog job ctx"
    by (rule engine_state [OF assms(1-4)]) (simp add: assms(5))
  have "(\<exists>i. worker_fail i g = Some g') \<or> eg_phase g' \<noteq> Draining c \<or> drain_work g' < drain_work g"
    if "engine_step w g new g'" for new g'
    using that
  proof (cases rule: engine_step.cases)
    case (es_drained c' io)
    then show ?thesis using drain_end_phase by blast
  next
    case es_event
    then show ?thesis using process_event_work [OF inv] by auto
  qed (use assms(5) in \<open>auto dest: worker_recv_work worker_commit_work worker_report_work\<close>)
  moreover have "\<exists>g'. engine_step w g [] g' \<and> eg_phase g' = Draining c \<and> drain_work g' < drain_work g"
    if nonempty: "\<not> ot_is_empty (sq_ordering (eg_seq g))"
  proof -
    obtain i g' where "worker_recv w i g = Some g' \<or> worker_commit i g = Some g' \<or> worker_report i g = Some g' \<or>
        process_event g = Some g' \<and> eg_phase g' = eg_phase g"
      using drain_progress [OF inv nonempty assms(6,7)] by blast
    then show ?thesis
      using nonempty assms(5) worker_phase worker_recv_work worker_commit_work worker_report_work process_event_work [OF inv]
      by (metis es_commit es_event es_recv es_report phase.distinct(9))
  qed
  ultimately show ?thesis by blast
qed

theorem drain_terminates_witness:
  "\<exists>g g' c. eg_phase g = Draining c \<and> engine_step (demo_world append_exec) g [] g' \<and> eg_phase g' = Draining c \<and> drain_work g' < drain_work g"
proof -
  obtain g0 items g c where g: "script_run (demo_world append_exec) 1 demo_keeper False drain_script = Some (g0, items, g)"
    "eg_phase g = Draining c" "\<not> ot_is_empty (sq_ordering (eg_seq g))" "\<not> sq_replay (eg_seq g)"
    "\<forall>wk \<in> set (eg_workers g). \<forall>tk. wk_activity wk \<noteq> Stopped tk"
    by (rule drain_script_run)
  obtain ctx0 where ctx0: "svm_new (w_sysvars (demo_world append_exec)) (bc_latest (ch_blocks (kp_caches demo_keeper)))
      (kp_accounts demo_keeper) = Some ctx0"
    by (rule demo_ctx)
  note sr = script_run_engine [OF g(1)]
  show ?thesis using drain_terminates [OF sr(1) ctx0 append_framed sr(2) g(2,5,4)] g(2,3) by blast
qed

text \<open>
  C38. Replay reproduces production. A live engine and a replaying engine, with any numbers of
  executors and any interleavings, that start from the same accounts and the same latest block
  and have taken in the same stream have the same accounts whenever both are drained, and the
  block that the live engine would produce next is accepted by the hash-chain check of the
  replaying one.
\<close>

theorem replay_reproduces:
  assumes "engine_new w n state False = Some p0" and "engine_new w m state' True = Some q0"
    and "svm_new (w_sysvars w) (bc_latest (ch_blocks (kp_caches state))) (kp_accounts state) = Some ctx0"
    and "kp_accounts state' = kp_accounts state"
    and "bc_latest (ch_blocks (kp_caches state')) = bc_latest (ch_blocks (kp_caches state))"
    and "world_framed w" and "engine_run w p0 items p" and "engine_run w q0 items q"
    and "eg_phase p \<noteq> Halted" and "eg_phase q \<noteq> Halted"
    and "ot_is_empty (sq_ordering (eg_seq p))" and "ot_is_empty (sq_ordering (eg_seq q))"
  shows "eg_accounts q = eg_accounts p \<and>
    (\<forall>block signed. finalize_begin (w_blake3 w) (w_sign w) (Production block) (eg_seq p) = Inr signed \<longrightarrow>
       finalize_begin (w_blake3 w) (w_sign w) (Replay signed) (eg_seq q) = Inr signed)"
proof -
  have ctx0: "svm_new (w_sysvars w) (bc_latest (ch_blocks (kp_caches state'))) (kp_accounts state') = Some ctx0"
    using assms(3) by (simp add: assms(4,5))
  obtain h run log clog job ctx where invp: "engine_inv w (ctx0, kp_accounts state) items p h run log clog job ctx"
    by (rule engine_state [OF assms(1,3,6,7,9)])
  obtain h' run' log' clog' job' ctx' where invq: "engine_inv w (ctx0, kp_accounts state') items q h' run' log' clog' job' ctx'"
    by (rule engine_state [OF assms(2) ctx0 assms(6,8,10)])
  have "eg_accounts q = eg_accounts p"
    using drained_state(1) [OF assms(6) invp assms(11)] drained_state(1) [OF assms(6) invq assms(12)] by (simp add: assms(4))
  moreover have "sq_hasher (eg_seq q) = sq_hasher (eg_seq p)"
    using engine_run_hasher [OF assms(7,9)] engine_run_hasher [OF assms(8,10)] engine_new_ok(2) [OF assms(1,3)]
      engine_new_ok(2) [OF assms(2) ctx0] by (simp add: assms(5))
  ultimately show ?thesis by (auto simp: finalize_begin_def Let_def)
qed

theorem replay_reproduces_witness:
  "\<exists>p0 q0 p q. engine_run (demo_world append_exec) p0 [TxItem (er_request (demo_request 1 10 0))] p \<and>
     engine_run (demo_world append_exec) q0 [TxItem (er_request (demo_request 1 10 0))] q \<and> eg_accounts q = eg_accounts p"
proof -
  obtain p0 items p where p: "script_run (demo_world append_exec) 1 demo_keeper False live_script = Some (p0, items, p)" "settled p" "length items = 1"
    using live_script_eq(1) by auto
  obtain q0 items' q where q: "script_run (demo_world append_exec) 2 demo_keeper True live_script = Some (q0, items', q)" "settled q" "length items' = 1"
    using live_script_eq(2) by auto
  have items: "items = [TxItem (er_request (demo_request 1 10 0))]" "items' = [TxItem (er_request (demo_request 1 10 0))]"
    using script_run_items [OF p(1)] script_run_items [OF q(1)] p(3) q(3) by (simp_all add: live_script_def)
  obtain ctx0 where ctx0: "svm_new (w_sysvars (demo_world append_exec)) (bc_latest (ch_blocks (kp_caches demo_keeper)))
      (kp_accounts demo_keeper) = Some ctx0"
    by (rule demo_ctx)
  note sp = script_run_engine [OF p(1), unfolded items] and sq = script_run_engine [OF q(1), unfolded items]
  have "eg_accounts q = eg_accounts p"
    using replay_reproduces [OF sp(1) sq(1) ctx0 refl refl append_framed sp(2) sq(2)] p(2) q(2) by (simp add: settled_def)
  then show ?thesis using sp(2) sq(2) by blast
qed

text \<open>
  C39. Replay after a restart can diverge. There are a live engine that crosses a boundary and then
  executes a transaction, and an engine started from the first one's state at that boundary that
  replays the same transaction, that end with different accounts, although the execution function
  changes and reads only declared accounts. The transaction stores what its program obtains for
  the SlotHashes sysvar: a worker fills its sysvar cache when it starts, and a block transition
  refreshes only the clock, so the live worker still serves the hashes of its start while the
  restarted one serves those of the boundary.
\<close>

theorem restarted_replay_can_diverge:
  "\<exists>p0 before p1 tx p2 q0 q. world_framed (demo_world copy_exec) \<and>
     engine_new (demo_world copy_exec) 1 demo_keeper False = Some p0 \<and>
     engine_run (demo_world copy_exec) p0 before p1 \<and> settled p1 \<and>
     engine_run (demo_world copy_exec) p0 (before @ [TxItem tx]) p2 \<and> settled p2 \<and>
     engine_new (demo_world copy_exec) 1 (sq_state (eg_seq p1)) True = Some q0 \<and>
     engine_run (demo_world copy_exec) q0 [TxItem tx] q \<and> settled q \<and> eg_accounts p2 \<noteq> eg_accounts q"
proof -
  let ?w = "demo_world copy_exec" and ?tx = "Submit (demo_request 5 10 0)"
  obtain p0 before p1 after p2 q0 replayed q where r: "restart_runs = Some (p0, before, p1, after, p2, q0, replayed, q)"
    and s: "settled p1" "settled p2" "settled q" "length after = 1" "length replayed = 1"
      "eg_accounts p2 [10] = Some [0]" "eg_accounts q [10] = Some [1, 0]"
    using restart_runs_eq by auto
  have e: "engine_new ?w 1 demo_keeper False = Some p0"
    "engine_script ?w [Boundary (Production (sample_block 1)), FinishDrain] ([], p0) = Some (before, p1)"
    "engine_script ?w [?tx, Receive 0, Receive 0, Commit 0, Report 0, HandleEvent] ([], p1) = Some (after, p2)"
    "engine_new ?w 1 (sq_state (eg_seq p1)) True = Some q0"
    "engine_script ?w [?tx, Receive 0, Commit 0, Report 0, HandleEvent] ([], q0) = Some (replayed, q)"
    using r unfolding restart_runs_def by (auto simp: bind_eq_Some_conv Let_def simp del: engine_script.simps)
  have items: "after = [TxItem (er_request (demo_request 5 10 0))]" "replayed = [TxItem (er_request (demo_request 5 10 0))]"
    using engine_script_items [OF e(3)] engine_script_items [OF e(5)] s(4,5) by simp_all
  note run1 = engine_script_run [OF er_start e(2)]
  have run2: "engine_run ?w p0 (before @ after) p2"
    using engine_script_run [OF run1, of "[?tx, Receive 0, Receive 0, Commit 0, Report 0, HandleEvent]"]
      engine_script_shift [of ?w "[?tx, Receive 0, Receive 0, Commit 0, Report 0, HandleEvent]" before p1] e(3)
    by (simp del: engine_script.simps)
  note run3 = engine_script_run [OF er_start e(5)]
  have "eg_accounts p2 \<noteq> eg_accounts q" using s(6,7) by (metis list.inject not_Cons_self2 option.inject)
  then show ?thesis using copy_framed e(1,4) run1 run2 run3 s(1-3) items by metis
qed

end
