(* ===== verification/Tx_Bytes.thy ===== *)
theory Tx_Bytes
  imports Prelude
begin

text \<open>
  The byte-level readers of \<^verbatim>\<open>solana/transaction-view/src/bytes.rs\<close>. A reader takes the buffer and
  the current offset and returns the value read with the advanced offset, or an error. The
  unchecked readers of the source are undefined out of bounds; here they return \<open>None\<close> there.
  The main result is that the compact-u16 reader accepts exactly the shortest encoding of each
  16-bit value.
\<close>

unbundle bit_operations_syntax

section \<open>Errors and readers\<close>

datatype tx_error = ParseError | SanitizeError | AddressLookupMismatch

type_synonym 'a reader = "bytes \<Rightarrow> nat \<Rightarrow> tx_error + 'a \<times> nat"

definition ok_or :: "'a option \<Rightarrow> 'e \<Rightarrow> 'e + 'a" where
  "ok_or x e = (case x of None \<Rightarrow> Inl e | Some y \<Rightarrow> Inr y)"

definition ensure :: "bool \<Rightarrow> 'e \<Rightarrow> 'e + unit" where
  "ensure b e = (if b then Inr () else Inl e)"

definition u32_bound :: nat where
  "u32_bound = 2 ^ 32"

definition try_u32_offset :: "nat \<Rightarrow> tx_error + nat" where
  "try_u32_offset off = (if off < u32_bound then Inr off else Inl ParseError)"

definition check_remaining :: "bytes \<Rightarrow> nat \<Rightarrow> nat \<Rightarrow> tx_error + unit" where
  "check_remaining bs off n =
     res_bind (ok_or (checked_add off n) ParseError) (\<lambda>e. ensure (e \<le> length bs) ParseError)"

definition read_byte :: "u8 reader" where
  "read_byte bs off =
     res_bind (ok_or (nth_opt bs off) ParseError) (\<lambda>v.
     res_bind (ok_or (checked_add off 1) ParseError) (\<lambda>off'. Inr (v, off')))"

definition unchecked_read_byte :: "bytes \<Rightarrow> nat \<Rightarrow> (u8 \<times> nat) option" where
  "unchecked_read_byte bs off = do { v \<leftarrow> nth_opt bs off; Some (v, off + 1) }"

text \<open>The loop of the compact-u16 reader, over the indices \<open>0..3\<close> still to visit.\<close>

fun compressed_u16_loop :: "bytes \<Rightarrow> nat \<Rightarrow> nat list \<Rightarrow> u16 \<Rightarrow> nat \<Rightarrow> tx_error + u16 \<times> nat" where
  "compressed_u16_loop bs off [] res sh =
     res_bind (ok_or (checked_add off 3) ParseError) (\<lambda>off'. Inr (res, off'))"
| "compressed_u16_loop bs off (i # is) res sh =
     res_bind (ok_or (checked_add off i) ParseError) (\<lambda>index.
     res_bind (ok_or (nth_opt bs index) ParseError) (\<lambda>byte.
     if i > 0 \<and> byte = 0 \<or> i = 2 \<and> byte > 3 then Inl ParseError
     else
       let res = res OR push_bit sh (ucast (byte AND 0x7F)) in
       if byte AND 0x80 = 0
       then res_bind (ok_or (checked_add index 1) ParseError) (\<lambda>off'. Inr (res, off'))
       else compressed_u16_loop bs off is res (sh + 7)))"

definition read_compressed_u16 :: "u16 reader" where
  "read_compressed_u16 bs off = compressed_u16_loop bs off [0, 1, 2] 0 0"

text \<open>The size of \<open>T\<close> is the first argument of the array and type readers.\<close>

definition advance_offset_for_array :: "nat \<Rightarrow> nat \<Rightarrow> bytes \<Rightarrow> nat \<Rightarrow> tx_error + nat" where
  "advance_offset_for_array sz n bs off =
     res_bind (ok_or (checked_mul n sz) ParseError) (\<lambda>len.
     res_bind (check_remaining bs off len) (\<lambda>_.
     ok_or (checked_add off len) ParseError))"

definition advance_offset_for_type :: "nat \<Rightarrow> bytes \<Rightarrow> nat \<Rightarrow> tx_error + nat" where
  "advance_offset_for_type sz bs off =
     res_bind (check_remaining bs off sz) (\<lambda>_. ok_or (checked_add off sz) ParseError)"

definition read_slice_data :: "nat \<Rightarrow> nat \<Rightarrow> bytes reader" where
  "read_slice_data sz n bs off =
     res_bind (advance_offset_for_array sz n bs off) (\<lambda>off'. Inr (slice bs off off', off'))"

definition unchecked_read_slice_data :: "nat \<Rightarrow> nat \<Rightarrow> bytes \<Rightarrow> nat \<Rightarrow> (bytes \<times> nat) option" where
  "unchecked_read_slice_data sz n bs off = do {
     d \<leftarrow> slice_opt bs off (off + n * sz);
     Some (d, off + n * sz)
   }"

definition read_type :: "nat \<Rightarrow> bytes reader" where
  "read_type sz bs off =
     res_bind (advance_offset_for_type sz bs off) (\<lambda>off'. Inr (slice bs off off', off'))"

definition unchecked_copy_value :: "nat \<Rightarrow> bytes \<Rightarrow> nat \<Rightarrow> bytes option" where
  "unchecked_copy_value sz bs off = slice_opt bs off (off + sz)"

section \<open>What the readers read\<close>

named_theorems read_sound "what a successful read says about the buffer"

lemma ok_or_Inr [simp]: "ok_or x e = Inr y \<longleftrightarrow> x = Some y"
  by (cases x) (simp_all add: ok_or_def)

lemma ensure_Inr [simp]: "ensure b e = Inr u \<longleftrightarrow> b"
  by (simp add: ensure_def)

lemma try_u32_offset_Inr [simp]: "try_u32_offset off = Inr o' \<longleftrightarrow> o' = off \<and> off < u32_bound"
  by (auto simp: try_u32_offset_def)

lemma check_remaining_Inr: "check_remaining bs off n = Inr u \<longleftrightarrow> off + n < usize_bound \<and> off + n \<le> length bs"
  by (auto simp: check_remaining_def res_bind_Inr)

lemma read_byte_Inr [read_sound]:
  "read_byte bs off = Inr (v, off') \<longleftrightarrow>
     off < length bs \<and> bs ! off = v \<and> off' = off + 1 \<and> off + 1 < usize_bound"
  by (auto simp: read_byte_def res_bind_Inr)

lemma advance_array_Inr [read_sound]:
  "advance_offset_for_array sz n bs off = Inr off' \<longleftrightarrow>
     off' = off + n * sz \<and> off + n * sz \<le> length bs \<and> off + n * sz < usize_bound \<and> n * sz < usize_bound"
  by (auto simp: advance_offset_for_array_def res_bind_Inr check_remaining_Inr)

lemma advance_type_Inr [read_sound]:
  "advance_offset_for_type sz bs off = Inr off' \<longleftrightarrow>
     off' = off + sz \<and> off + sz \<le> length bs \<and> off + sz < usize_bound"
  by (auto simp: advance_offset_for_type_def res_bind_Inr check_remaining_Inr)

lemma read_slice_data_Inr [read_sound]:
  "read_slice_data sz n bs off = Inr (d, off') \<longleftrightarrow>
     off' = off + n * sz \<and> off + n * sz \<le> length bs \<and> off + n * sz < usize_bound \<and> n * sz < usize_bound
     \<and> d = slice bs off off'"
  by (auto simp: read_slice_data_def res_bind_Inr advance_array_Inr)

lemma read_type_Inr [read_sound]:
  "read_type sz bs off = Inr (d, off') \<longleftrightarrow>
     off' = off + sz \<and> off + sz \<le> length bs \<and> off + sz < usize_bound \<and> d = slice bs off off'"
  by (auto simp: read_type_def res_bind_Inr advance_type_Inr)

section \<open>The compact-u16 encoding\<close>

text \<open>The shortest encoding of a 16-bit value in groups of seven bits, least significant first.\<close>

definition shortvec :: "u16 \<Rightarrow> bytes" where
  "shortvec n =
     (if unat n < 2 ^ 7 then [of_nat (unat n)]
      else if unat n < 2 ^ 14 then [of_nat (unat n mod 128 + 128), of_nat (unat n div 128)]
      else [of_nat (unat n mod 128 + 128), of_nat (unat n div 128 mod 128 + 128), of_nat (unat n div 16384)])"

lemma byte_low: "unat ((ucast (b AND 0x7F) :: u16)) = unat b mod 128" for b :: u8
proof -
  have "b AND 0x7F = take_bit 7 b"
    by (simp add: take_bit_eq_mask mask_eq_exp_minus_1)
  then have "unat (b AND 0x7F) = unat b mod 128"
    by (simp only: unsigned_take_bit_eq) (simp add: take_bit_eq_mod)
  moreover have "unat b mod 128 < 65536" by (rule less_trans [of _ 128]) simp_all
  ultimately show ?thesis
    by (simp add: unsigned_ucast_eq take_bit_eq_mod)
qed

lemma byte_msb: "b AND 0x80 = 0 \<longleftrightarrow> unat b < 128" for b :: u8
proof -
  have "b AND 0x80 = 0 \<longleftrightarrow> \<not> bit b 7"
    using and_exp_eq_0_iff_not_bit [of b 7] by simp
  also have "\<dots> \<longleftrightarrow> \<not> bit (unat b) 7"
    by (simp add: bit_unsigned_iff)
  also have "\<dots> \<longleftrightarrow> even (unat b div 128)"
    by (simp add: bit_iff_odd)
  also have "\<dots> \<longleftrightarrow> unat b < 128"
  proof -
    have "unat b div 128 < 2" using unat_u8_less [of b] by (simp add: less_mult_imp_div_less)
    then have "unat b div 128 = 0 \<or> unat b div 128 = 1" by auto
    then show ?thesis by (auto simp: div_eq_0_iff)
  qed
  finally show ?thesis .
qed

lemma len16: "LENGTH(16) = 16"
  by simp

lemma or_push: "unat (a OR push_bit k x) = unat a + 2 ^ k * unat x"
  if "unat a < 2 ^ k" "unat x < 2 ^ (16 - k)" "k \<le> 16" for a x :: u16
proof -
  have "\<not> bit a n" if "n \<ge> k" for n
  proof -
    have "unat a div 2 ^ n = 0" using \<open>unat a < 2 ^ k\<close> that by (simp add: div_eq_0_iff) (meson less_le_trans one_le_numeral power_increasing)
    then have "\<not> bit (unat a) n" by (simp add: bit_iff_odd)
    then show ?thesis by (auto simp: bit_unsigned_iff bit_imp_le_length)
  qed
  then have "a + push_bit k x = a OR push_bit k x"
    by (intro disjunctive_add) (auto simp: bit_simps)
  moreover have fit: "unat a + 2 ^ k * unat x < 2 ^ 16"
  proof -
    have "unat a + 2 ^ k * unat x < 2 ^ k * (unat x + 1)" using that(1) by simp
    also have "\<dots> \<le> 2 ^ k * 2 ^ (16 - k)" using that(2) by (intro mult_le_mono) simp_all
    also have "\<dots> = 2 ^ 16" using that(3) by (simp flip: power_add)
    finally show ?thesis .
  qed
  moreover have "unat (push_bit k x) = 2 ^ k * unat x"
  proof -
    have "unat (push_bit k x) = take_bit 16 (push_bit k (unat x))"
      by (simp only: unsigned_push_bit_eq len16)
    also have "\<dots> = push_bit k (unat x)"
      using fit by (intro take_bit_nat_eq_self) (simp add: push_bit_eq_mult mult.commute)
    finally show ?thesis by (simp add: push_bit_eq_mult mult.commute)
  qed
  ultimately show ?thesis
    by (metis unat_add_lem len16)
qed

text \<open>What the loop computes on one, two and three bytes.\<close>

definition group1 :: "u8 \<Rightarrow> u16" where
  "group1 b = ucast (b AND 0x7F)"

definition group2 :: "u8 \<Rightarrow> u8 \<Rightarrow> u16" where
  "group2 a b = group1 a OR push_bit 7 (ucast (b AND 0x7F))"

definition group3 :: "u8 \<Rightarrow> u8 \<Rightarrow> u8 \<Rightarrow> u16" where
  "group3 a b c = group2 a b OR push_bit 14 (ucast (c AND 0x7F))"

lemma unat_group1: "unat (group1 a) = unat a mod 128"
  by (simp add: group1_def byte_low)

lemma unat_group2: "unat (group2 a b) = unat a mod 128 + 128 * (unat b mod 128)"
  using or_push [of "group1 a" 7 "ucast (b AND 0x7F)"]
    mod_less_divisor [of 128 "unat a"] mod_less_divisor [of 128 "unat b"]
  by (simp add: group2_def unat_group1 byte_low)

lemma unat_group3:
  assumes "unat c < 4"
  shows "unat (group3 a b c) = unat a mod 128 + 128 * (unat b mod 128) + 16384 * unat c"
proof -
  have "unat a mod 128 + 128 * (unat b mod 128) < 16384"
    using mod_less_divisor [of 128 "unat a"] mod_less_divisor [of 128 "unat b"] by linarith
  then show ?thesis
    using or_push [of "group2 a b" 14 "ucast (c AND 0x7F)"] assms
    by (simp add: group3_def unat_group2 byte_low)
qed

lemma read_compressed_u16_elim:
  assumes "read_compressed_u16 bs off = Inr (n, off')"
  obtains (one) "off < length bs" "unat (bs ! off) < 128" "off' = off + 1" "n = group1 (bs ! off)"
    | (two) "off + 1 < length bs" "128 \<le> unat (bs ! off)" "0 < unat (bs ! (off + 1))" "unat (bs ! (off + 1)) < 128"
        "off' = off + 2" "n = group2 (bs ! off) (bs ! (off + 1))"
    | (three) "off + 2 < length bs" "128 \<le> unat (bs ! off)" "128 \<le> unat (bs ! (off + 1))"
        "0 < unat (bs ! (off + 2))" "unat (bs ! (off + 2)) < 4"
        "off' = off + 3" "n = group3 (bs ! off) (bs ! (off + 1)) (bs ! (off + 2))"
proof -
  have le: "b \<le> 3 \<longleftrightarrow> unat b < 4" for b :: u8
    by (auto simp: word_le_nat_alt)
  have pos: "b \<noteq> 0 \<longleftrightarrow> 0 < unat b" for b :: u8
    by (simp add: unat_gt_0)
  show thesis
    using assms that
    by (simp add: read_compressed_u16_def res_bind_Inr Let_def byte_msb not_less le pos
        group1_def group2_def group3_def split: if_splits)
qed

lemma nat_byte: "k < 256 \<Longrightarrow> unat (of_nat k :: u8) = k"
  by (simp add: unat_of_nat take_bit_eq_mod)

lemma byte_nat: "unat b = k \<Longrightarrow> of_nat k = b" for b :: u8
  by auto

lemma msb_split: "128 \<le> unat b \<Longrightarrow> unat b mod 128 + 128 = unat b" for b :: u8
  using unat_u8_less [of b] by (simp add: le_mod_geq)

lemma digits3:
  fixes x y z :: nat
  assumes "x < 128" "y < 128"
  shows "(x + 128 * y + 16384 * z) mod 128 = x" "(x + 128 * y + 16384 * z) div 128 mod 128 = y"
    "(x + 128 * y + 16384 * z) div 16384 = z"
proof -
  have eq: "x + 128 * y + 16384 * z = x + 128 * (y + 128 * z)" by simp
  have quot: "(x + 128 * (y + 128 * z)) div 128 = y + 128 * z" using assms(1) by simp
  show "(x + 128 * y + 16384 * z) mod 128 = x" unfolding eq mod_mult_self2 using assms(1) by simp
  show "(x + 128 * y + 16384 * z) div 128 mod 128 = y" unfolding eq quot mod_mult_self2 using assms(2) by simp
  have "(x + 128 * y + 16384 * z) div 16384 = (x + 128 * (y + 128 * z)) div 128 div 128"
    unfolding eq by (simp flip: div_mult2_eq)
  then show "(x + 128 * y + 16384 * z) div 16384 = z" unfolding quot using assms(2) by simp
qed

lemma read_compressed_u16_sound:
  assumes "read_compressed_u16 bs off = Inr (n, off')"
  shows "off' \<le> length bs" "off' = off + length (shortvec n)" "slice bs off off' = shortvec n"
proof -
  have "off' \<le> length bs \<and> off' = off + length (shortvec n) \<and> slice bs off off' = shortvec n"
    using assms
  proof (cases rule: read_compressed_u16_elim)
    case one
    then show ?thesis by (simp add: shortvec_def unat_group1 slice_Suc)
  next
    case two
    let ?a = "bs ! off" and ?b = "bs ! (off + 1)"
    have n: "unat n = unat ?a mod 128 + 128 * unat ?b"
      using two by (simp add: unat_group2)
    have lo: "unat ?a mod 128 < 128" by simp
    have "128 \<le> unat n" "unat n < 16384" "unat n mod 128 = unat ?a mod 128" "unat n div 128 = unat ?b"
      using n two lo by auto
    then have "shortvec n = [?a, ?b]"
      using msb_split [OF two(2)] by (simp add: shortvec_def)
    moreover have "slice bs off (off + 2) = [?a, ?b]"
      using two(1) slice_append [of off "off + 1" "off + 2" bs] slice_Suc [of off bs] slice_Suc [of "off + 1" bs]
      by simp
    ultimately show ?thesis using two by simp
  next
    case three
    let ?a = "bs ! off" and ?b = "bs ! (off + 1)" and ?c = "bs ! (off + 2)"
    have n: "unat n = unat ?a mod 128 + 128 * (unat ?b mod 128) + 16384 * unat ?c"
      using three by (simp add: unat_group3)
    have lo: "unat ?a mod 128 < 128" "unat ?b mod 128 < 128" by simp_all
    have "16384 \<le> unat n" "unat n mod 128 = unat ?a mod 128" "unat n div 128 mod 128 = unat ?b mod 128"
      "unat n div 16384 = unat ?c"
      using three(4) unfolding n digits3 [OF lo] by simp_all
    then have "shortvec n = [?a, ?b, ?c]"
      using msb_split [OF three(2)] msb_split [OF three(3)] by (simp add: shortvec_def)
    moreover have "slice bs off (off + 3) = [?a, ?b, ?c]"
      using three(1) slice_append [of off "off + 1" "off + 3" bs] slice_append [of "off + 1" "off + 2" "off + 3" bs]
        slice_Suc [of off bs] slice_Suc [of "off + 1" bs] slice_Suc [of "off + 2" bs]
      by (simp add: numeral_eq_Suc)
    ultimately show ?thesis using three by simp
  qed
  then show "off' \<le> length bs" "off' = off + length (shortvec n)" "slice bs off off' = shortvec n"
    by auto
qed

lemma read_compressed_u16_one:
  assumes "length bs < usize_bound" "off < length bs" "unat (bs ! off) < 128"
  shows "read_compressed_u16 bs off = Inr (group1 (bs ! off), off + 1)"
  using assms by (simp add: read_compressed_u16_def nth_opt_less ok_or_def checked_add_def byte_msb group1_def)

lemma read_compressed_u16_two:
  assumes "length bs < usize_bound" "off + 1 < length bs" "128 \<le> unat (bs ! off)"
    "0 < unat (bs ! (off + 1))" "unat (bs ! (off + 1)) < 128"
  shows "read_compressed_u16 bs off = Inr (group2 (bs ! off) (bs ! (off + 1)), off + 2)"
proof -
  have "bs ! (off + 1) \<noteq> 0" using assms(4) by (metis unat_gt_0)
  then show ?thesis
    using assms by (simp add: read_compressed_u16_def nth_opt_less ok_or_def checked_add_def byte_msb
        group1_def group2_def Let_def)
qed

lemma read_compressed_u16_three:
  assumes "length bs < usize_bound" "off + 2 < length bs" "128 \<le> unat (bs ! off)"
    "128 \<le> unat (bs ! (off + 1))" "0 < unat (bs ! (off + 2))" "unat (bs ! (off + 2)) < 4"
  shows "read_compressed_u16 bs off = Inr (group3 (bs ! off) (bs ! (off + 1)) (bs ! (off + 2)), off + 3)"
proof -
  have "bs ! (off + 1) \<noteq> 0" "bs ! (off + 2) \<noteq> 0" "\<not> bs ! (off + 2) > 3"
    using assms(4-6) by (auto simp: word_less_nat_alt)
  then show ?thesis
    using assms by (simp add: read_compressed_u16_def nth_opt_less ok_or_def checked_add_def byte_msb
        group1_def group2_def group3_def Let_def)
qed

lemma shortvec_elim:
  obtains (one) a where "shortvec n = [a]" "unat a < 128" "group1 a = n"
    | (two) a b where "shortvec n = [a, b]" "128 \<le> unat a" "0 < unat b" "unat b < 128" "group2 a b = n"
    | (three) a b c where "shortvec n = [a, b, c]" "128 \<le> unat a" "128 \<le> unat b" "0 < unat c" "unat c < 4"
        "group3 a b c = n"
proof -
  have n16: "unat n < 65536" using unsigned_less [of n] by simp
  consider "unat n < 128" | "128 \<le> unat n" "unat n < 16384" | "16384 \<le> unat n" by linarith
  then show thesis
  proof cases
    case 1
    obtain a :: u8 where a: "of_nat (unat n) = a" by blast
    have u: "unat a = unat n" unfolding a [symmetric] by (rule nat_byte) (use 1 in simp)
    have "shortvec n = [a]" unfolding shortvec_def a using 1 by simp
    moreover have "group1 a = n" unfolding word_unat_eq_iff unat_group1 u using 1 by simp
    ultimately show ?thesis using one 1 u by auto
  next
    case 2
    obtain a b :: u8 where ab: "of_nat (unat n mod 128 + 128) = a" "of_nat (unat n div 128) = b" by blast
    have u: "unat a = unat n mod 128 + 128" "unat b = unat n div 128"
      unfolding ab [symmetric] by (rule nat_byte, use 2 in simp)+
    have "shortvec n = [a, b]" unfolding shortvec_def ab using 2 by simp
    moreover have "group2 a b = n" unfolding word_unat_eq_iff unat_group2 u using 2 by simp
    moreover have "0 < unat n div 128" "unat n div 128 < 128" using 2 by (auto simp: div_greater_zero_iff)
    ultimately show ?thesis using two [of a b] u by simp
  next
    case 3
    obtain a b c :: u8 where abc: "of_nat (unat n mod 128 + 128) = a" "of_nat (unat n div 128 mod 128 + 128) = b"
        "of_nat (unat n div 16384) = c" by blast
    have c4: "0 < unat n div 16384" "unat n div 16384 < 4" using 3 n16 by (auto simp: div_greater_zero_iff)
    have u: "unat a = unat n mod 128 + 128" "unat b = unat n div 128 mod 128 + 128" "unat c = unat n div 16384"
      unfolding abc [symmetric] by (rule nat_byte, use c4 in simp)+
    have "unat n div 128 div 128 = unat n div 16384" by (simp flip: div_mult2_eq)
    then have "unat n mod 128 + 128 * (unat n div 128 mod 128) + 16384 * (unat n div 16384) = unat n"
      using mult_div_mod_eq [of 128 "unat n"] mult_div_mod_eq [of 128 "unat n div 128"] by linarith
    then have "group3 a b c = n"
      using c4 u(3) unfolding word_unat_eq_iff by (subst unat_group3) (simp_all add: u(1,2))
    moreover have "shortvec n = [a, b, c]" unfolding shortvec_def abc using 3 by simp
    ultimately show ?thesis using three [of a b c] u c4 by simp
  qed
qed

lemma read_compressed_u16_complete:
  assumes "length bs < usize_bound" "bs = pre @ shortvec n @ post" "off = length pre"
  shows "read_compressed_u16 bs off = Inr (n, off + length (shortvec n))"
proof (cases rule: shortvec_elim [of n])
  case (one a)
  then show ?thesis using assms read_compressed_u16_one [OF assms(1), of off] by simp
next
  case (two a b)
  then show ?thesis using assms read_compressed_u16_two [OF assms(1), of off] by (simp add: nth_append)
next
  case (three a b c)
  then show ?thesis using assms read_compressed_u16_three [OF assms(1), of off] by (simp add: nth_append)
qed

lemma slice_split:
  assumes "i \<le> j" "j \<le> length xs"
  shows "xs = take i xs @ slice xs i j @ drop j xs"
proof -
  have "slice xs i j @ drop j xs = drop i xs"
    using assms append_take_drop_id [of "j - i" "drop i xs"] by (simp add: slice_def)
  then show ?thesis by simp
qed

text \<open>
  C7. The compact-u16 reader accepts exactly the shortest encodings: on a buffer of addressable
  size it returns a value and an offset if and only if the bytes between the two offsets are the
  canonical encoding of that value.
\<close>

theorem read_compressed_u16_exact:
  assumes "length bs < usize_bound"
  shows "read_compressed_u16 bs off = Inr (n, off') \<longleftrightarrow>
    off' = off + length (shortvec n) \<and> off' \<le> length bs \<and> slice bs off off' = shortvec n"
proof
  assume "read_compressed_u16 bs off = Inr (n, off')"
  then show "off' = off + length (shortvec n) \<and> off' \<le> length bs \<and> slice bs off off' = shortvec n"
    using read_compressed_u16_sound by blast
next
  assume r: "off' = off + length (shortvec n) \<and> off' \<le> length bs \<and> slice bs off off' = shortvec n"
  then have "bs = take off bs @ shortvec n @ drop off' bs"
    using slice_split [of off off' bs] le_add1 by metis
  then show "read_compressed_u16 bs off = Inr (n, off')"
    using read_compressed_u16_complete [OF assms, of "take off bs" n "drop off' bs" off] r by simp
qed

theorem read_compressed_u16_exact_witness:
  "read_compressed_u16 [0x80, 0x80, 0x01] 0 = Inr (0x4000, 3)"
  by (subst read_compressed_u16_exact) (simp_all add: usize_bound_def shortvec_def slice_def)

end
