(* ===== verification/Tx_Frames.thy ===== *)
theory Tx_Frames
  imports Tx_Bytes
begin

text \<open>
  The frames of \<^verbatim>\<open>solana/transaction-view/src\<close>: what the parser records of a serialized
  transaction (signatures, message header, static keys, instructions, address lookups, v1
  configuration), the parser that builds them, and the accessors and iterators that read the
  buffer through them. Code that reads without bounds checks returns \<open>None\<close> where the read would
  leave the buffer, as does code that panics; the parser itself therefore has the outcome type
  \<open>(tx_error + 'a) option\<close>. The version byte of v1 messages is a constant of the message crate and
  is the parameter \<open>v1_prefix\<close>.
\<close>

section \<open>Outcomes of code with unchecked reads\<close>

type_synonym 'a outcome = "(tx_error + 'a) option"

definition lift_checked :: "tx_error + 'a \<Rightarrow> 'a outcome" where
  "lift_checked r = Some r"

definition lift_unchecked :: "'a option \<Rightarrow> 'a outcome" where
  "lift_unchecked x = map_option Inr x"

definition obind :: "'a outcome \<Rightarrow> ('a \<Rightarrow> 'b outcome) \<Rightarrow> 'b outcome" where
  "obind m f = (case m of None \<Rightarrow> None | Some (Inl e) \<Rightarrow> Some (Inl e) | Some (Inr x) \<Rightarrow> f x)"

section \<open>Constants\<close>

definition SIGNATURE_SIZE :: nat where "SIGNATURE_SIZE = 64"
definition PUBKEY_SIZE :: nat where "PUBKEY_SIZE = 32"
definition HASH_SIZE :: nat where "HASH_SIZE = 32"
definition PACKET_DATA_SIZE :: nat where "PACKET_DATA_SIZE = 1232"

definition MESSAGE_VERSION_PREFIX :: u8 where "MESSAGE_VERSION_PREFIX = 0x80"

definition MAX_SIGNATURES_PER_PACKET :: u8 where
  "MAX_SIGNATURES_PER_PACKET = of_nat (PACKET_DATA_SIZE div (SIGNATURE_SIZE + PUBKEY_SIZE))"

definition LEGACY_OR_V0_MAX_STATIC_ACCOUNTS_PER_PACKET :: u8 where
  "LEGACY_OR_V0_MAX_STATIC_ACCOUNTS_PER_PACKET = of_nat (PACKET_DATA_SIZE div PUBKEY_SIZE)"

definition MIN_SIZED_ATL :: nat where "MIN_SIZED_ATL = PUBKEY_SIZE + 1 + 1 + 1"

definition MIN_SIZED_PACKET_WITH_ATLS :: nat where
  "MIN_SIZED_PACKET_WITH_ATLS = 1 + SIGNATURE_SIZE + 1 + 3 + 1 + PUBKEY_SIZE + HASH_SIZE + 1 + 1"

definition MAX_ATLS_PER_PACKET :: u8 where
  "MAX_ATLS_PER_PACKET = of_nat ((PACKET_DATA_SIZE - MIN_SIZED_PACKET_WITH_ATLS) div MIN_SIZED_ATL)"

definition V1_HEADER_SIZE :: nat where "V1_HEADER_SIZE = 4"

definition FIXED_V1_PREFIX_LEN :: nat where "FIXED_V1_PREFIX_LEN = 1 + 3 + 4 + HASH_SIZE + 1 + 1"

section \<open>Versions\<close>

datatype transaction_version = Legacy | V0 | V1 | Magicblock

definition MAGICBLOCK_VERSION :: u8 where "MAGICBLOCK_VERSION = 127"

definition MAGICBLOCK_PREFIX :: u8 where
  "MAGICBLOCK_PREFIX = MESSAGE_VERSION_PREFIX OR MAGICBLOCK_VERSION"

section \<open>Signature, header and key frames\<close>

record signature_frame =
  sf_num_signatures :: u8
  sf_offset :: nat

definition signature_try_new :: "signature_frame reader" where
  "signature_try_new bs off =
     res_bind (read_byte bs off) (\<lambda>(num, off).
     if num = 0 \<or> num > MAX_SIGNATURES_PER_PACKET then Inl ParseError
     else
       res_bind (try_u32_offset off) (\<lambda>sig_off.
       res_bind (advance_offset_for_array SIGNATURE_SIZE (unat num) bs off) (\<lambda>off.
       Inr (\<lparr>sf_num_signatures = num, sf_offset = sig_off\<rparr>, off))))"

record message_header_frame =
  mh_offset :: nat
  mh_version :: transaction_version
  mh_num_required_signatures :: u8
  mh_num_readonly_signed_accounts :: u8
  mh_num_readonly_unsigned_accounts :: u8

definition header_try_new_legacy_or_v0 :: "message_header_frame reader" where
  "header_try_new_legacy_or_v0 bs off =
     res_bind (try_u32_offset off) (\<lambda>msg_off.
     res_bind (read_byte bs off) (\<lambda>(prefix, off).
     res_bind
       (if prefix AND MESSAGE_VERSION_PREFIX \<noteq> 0 then
          (let version = prefix AND NOT MESSAGE_VERSION_PREFIX in
           if version = 0 then res_bind (read_byte bs off) (\<lambda>(n, off). Inr ((V0, n), off))
           else Inl ParseError)
        else Inr ((Legacy, prefix), off)) (\<lambda>((version, nreq), off).
     res_bind (read_byte bs off) (\<lambda>(ros, off).
     res_bind (read_byte bs off) (\<lambda>(rou, off).
     Inr (\<lparr>mh_offset = msg_off, mh_version = version, mh_num_required_signatures = nreq,
           mh_num_readonly_signed_accounts = ros, mh_num_readonly_unsigned_accounts = rou\<rparr>, off))))))"

record static_account_keys_frame =
  sk_num_static_accounts :: u8
  sk_offset :: nat

definition static_keys_try_new :: "static_account_keys_frame reader" where
  "static_keys_try_new bs off =
     res_bind (read_byte bs off) (\<lambda>(num, off).
     if num = 0 \<or> num > LEGACY_OR_V0_MAX_STATIC_ACCOUNTS_PER_PACKET then Inl ParseError
     else
       res_bind (try_u32_offset off) (\<lambda>keys_off.
       res_bind (advance_offset_for_array PUBKEY_SIZE (unat num) bs off) (\<lambda>off.
       Inr (\<lparr>sk_num_static_accounts = num, sk_offset = keys_off\<rparr>, off))))"

section \<open>Address lookup frame\<close>

record address_table_lookup_frame =
  al_num :: u8
  al_offset :: nat
  al_total_writable :: u16
  al_total_readonly :: u16

definition atl_default :: address_table_lookup_frame where
  "atl_default = \<lparr>al_num = 0, al_offset = 0, al_total_writable = 0, al_total_readonly = 0\<rparr>"

text \<open>The loop over the lookups, with the running totals as 32-bit quantities.\<close>

definition checked_add_u32 :: "nat \<Rightarrow> nat \<Rightarrow> nat option" where
  "checked_add_u32 a b = (if a + b < u32_bound then Some (a + b) else None)"

fun atl_loop :: "nat \<Rightarrow> bytes \<Rightarrow> nat \<Rightarrow> nat \<Rightarrow> nat \<Rightarrow> tx_error + (nat \<times> nat) \<times> nat" where
  "atl_loop 0 bs off tw tr = Inr ((tw, tr), off)"
| "atl_loop (Suc k) bs off tw tr =
     res_bind (advance_offset_for_type PUBKEY_SIZE bs off) (\<lambda>off.
     res_bind (read_compressed_u16 bs off) (\<lambda>(nw, off).
     res_bind (ok_or (checked_add_u32 tw (unat nw)) ParseError) (\<lambda>tw.
     res_bind (advance_offset_for_array 1 (unat nw) bs off) (\<lambda>off.
     res_bind (read_compressed_u16 bs off) (\<lambda>(nr, off).
     res_bind (ok_or (checked_add_u32 tr (unat nr)) ParseError) (\<lambda>tr.
     res_bind (advance_offset_for_array 1 (unat nr) bs off) (\<lambda>off.
     atl_loop k bs off tw tr)))))))"

definition u16_try_from :: "nat \<Rightarrow> tx_error \<Rightarrow> tx_error + u16" where
  "u16_try_from n e = (if n < 2 ^ 16 then Inr (of_nat n) else Inl e)"

definition atl_try_new :: "address_table_lookup_frame reader" where
  "atl_try_new bs off =
     res_bind (read_byte bs off) (\<lambda>(num, off).
     if num > MAX_ATLS_PER_PACKET then Inl ParseError
     else
       res_bind (ok_or (checked_mul MIN_SIZED_ATL (unat num)) ParseError) (\<lambda>need.
       res_bind (check_remaining bs off need) (\<lambda>_.
       res_bind (try_u32_offset off) (\<lambda>atl_off.
       res_bind (atl_loop (unat num) bs off 0 0) (\<lambda>((tw, tr), off).
       res_bind (u16_try_from tw SanitizeError) (\<lambda>tw.
       res_bind (u16_try_from tr SanitizeError) (\<lambda>tr.
       Inr (\<lparr>al_num = num, al_offset = atl_off, al_total_writable = tw, al_total_readonly = tr\<rparr>, off))))))))"

section \<open>Configuration frame\<close>

record transaction_config_frame =
  cf_mask_offset :: nat
  cf_mask :: u32
  cf_values_offset :: nat
  cf_num_values :: u8

definition not_applicable :: transaction_config_frame where
  "not_applicable = \<lparr>cf_mask_offset = 0, cf_mask = 0, cf_values_offset = 0, cf_num_values = 0\<rparr>"

definition is_present :: "transaction_config_frame \<Rightarrow> bool" where
  "is_present c \<longleftrightarrow> cf_mask_offset c \<noteq> 0"

definition has_bit :: "u32 \<Rightarrow> nat \<Rightarrow> bool" where
  "has_bit msk b \<longleftrightarrow> b < 32 \<and> drop_bit b msk AND 1 \<noteq> 0"

definition count_ones :: "u32 \<Rightarrow> nat" where
  "count_ones w = length (filter (bit w) [0..<32])"

definition sanitize_mask :: "u32 \<Rightarrow> tx_error + unit" where
  "sanitize_mask msk =
     (if msk AND NOT 0b11111 \<noteq> 0 then Inl SanitizeError
      else if has_bit msk 0 \<noteq> has_bit msk 1 then Inl SanitizeError
      else Inr ())"

definition config_try_new :: "nat \<Rightarrow> u32 \<Rightarrow> bytes \<Rightarrow> nat \<Rightarrow> (transaction_config_frame \<times> nat) outcome" where
  "config_try_new mask_off msk bs off =
     (if mask_off = 0 then None
      else Some (
        res_bind (sanitize_mask msk) (\<lambda>_.
        let num = (of_nat (count_ones msk) :: u8) in
        res_bind (try_u32_offset mask_off) (\<lambda>mask_off.
        res_bind (try_u32_offset off) (\<lambda>values_off.
        res_bind (advance_offset_for_array 4 (unat num) bs off) (\<lambda>off.
        Inr (\<lparr>cf_mask_offset = mask_off, cf_mask = msk, cf_values_offset = values_off,
              cf_num_values = num\<rparr>, off)))))))"

definition word_index_for_bit :: "transaction_config_frame \<Rightarrow> nat \<Rightarrow> u8 option" where
  "word_index_for_bit c b =
     (if \<not> is_present c \<or> \<not> has_bit (cf_mask c) b then None
      else Some (of_nat (count_ones (cf_mask c AND (push_bit b 1 - 1)))))"

definition word_offset :: "transaction_config_frame \<Rightarrow> nat \<Rightarrow> nat option" where
  "word_offset c b = do {
     i \<leftarrow> word_index_for_bit c b;
     n \<leftarrow> checked_mul (unat i) 4;
     checked_add (cf_values_offset c) n
   }"

text \<open>The accessors of the configuration view: the inner option is absence, the outer an unchecked read.\<close>

definition config_value :: "nat \<Rightarrow> nat \<Rightarrow> transaction_config_frame \<Rightarrow> bytes \<Rightarrow> nat option option" where
  "config_value sz b c bs =
     (case word_offset c b of
        None \<Rightarrow> Some None
      | Some off \<Rightarrow> do { v \<leftarrow> unchecked_copy_value sz bs off; Some (Some (le_nat v)) })"

definition priority_fee_lamports :: "transaction_config_frame \<Rightarrow> bytes \<Rightarrow> nat option option" where
  "priority_fee_lamports = config_value 8 0"

definition compute_unit_limit :: "transaction_config_frame \<Rightarrow> bytes \<Rightarrow> nat option option" where
  "compute_unit_limit = config_value 4 2"

definition loaded_accounts_data_size_limit :: "transaction_config_frame \<Rightarrow> bytes \<Rightarrow> nat option option" where
  "loaded_accounts_data_size_limit = config_value 4 3"

definition requested_heap_size :: "transaction_config_frame \<Rightarrow> bytes \<Rightarrow> nat option option" where
  "requested_heap_size = config_value 4 4"

section \<open>Instruction frames\<close>

record legacy_and_v0_instruction_frame =
  lf_num_accounts :: u16
  lf_data_len :: u16
  lf_num_accounts_len :: u8
  lf_data_len_len :: u8

datatype instructions_frame =
    LegacyAndV0Frame u16 nat "legacy_and_v0_instruction_frame list"
  | V1Frame u16 nat nat

definition u8_try_from :: "nat option \<Rightarrow> tx_error + u8" where
  "u8_try_from x =
     res_bind (ok_or x ParseError) (\<lambda>n. if n < 256 then Inr (of_nat n) else Inl ParseError)"

definition checked_sub :: "nat \<Rightarrow> nat \<Rightarrow> nat option" where
  "checked_sub a b = (if b \<le> a then Some (a - b) else None)"

definition legacy_instruction_try_new :: "legacy_and_v0_instruction_frame reader" where
  "legacy_instruction_try_new bs off =
     res_bind (read_byte bs off) (\<lambda>(_, acc_off).
     res_bind (read_compressed_u16 bs acc_off) (\<lambda>(nacc, off).
     res_bind (u8_try_from (checked_sub off acc_off)) (\<lambda>nacc_len.
     res_bind (advance_offset_for_array 1 (unat nacc) bs off) (\<lambda>data_off.
     res_bind (read_compressed_u16 bs data_off) (\<lambda>(dlen, off).
     res_bind (u8_try_from (checked_sub off data_off)) (\<lambda>dlen_len.
     res_bind (advance_offset_for_array 1 (unat dlen) bs off) (\<lambda>off.
     Inr (\<lparr>lf_num_accounts = nacc, lf_data_len = dlen, lf_num_accounts_len = nacc_len,
           lf_data_len_len = dlen_len\<rparr>, off))))))))"

fun legacy_instructions_loop :: "nat \<Rightarrow> legacy_and_v0_instruction_frame list reader" where
  "legacy_instructions_loop 0 bs off = Inr ([], off)"
| "legacy_instructions_loop (Suc k) bs off =
     res_bind (legacy_instruction_try_new bs off) (\<lambda>(f, off).
     res_bind (legacy_instructions_loop k bs off) (\<lambda>(fs, off). Inr (f # fs, off)))"

definition try_new_for_legacy_and_v0 :: "instructions_frame reader" where
  "try_new_for_legacy_and_v0 bs off =
     res_bind (read_compressed_u16 bs off) (\<lambda>(num, off).
     res_bind (ok_or (checked_mul 3 (unat num)) ParseError) (\<lambda>need.
     res_bind (check_remaining bs off need) (\<lambda>_.
     res_bind (try_u32_offset off) (\<lambda>ix_off.
     res_bind (legacy_instructions_loop (unat num) bs off) (\<lambda>(fs, off).
     Inr (LegacyAndV0Frame num ix_off fs, off))))))"

record v1_instruction_header =
  vh_program_id_index :: u8
  vh_num_accounts :: u8
  vh_data_len :: u16

definition read_v1_header :: "bytes \<Rightarrow> nat \<Rightarrow> (v1_instruction_header \<times> nat) option" where
  "read_v1_header bs off = do {
     raw \<leftarrow> unchecked_copy_value V1_HEADER_SIZE bs off;
     Some (\<lparr>vh_program_id_index = raw ! 0, vh_num_accounts = raw ! 1,
            vh_data_len = of_nat (le_nat (slice raw 2 4))\<rparr>, off + V1_HEADER_SIZE)
   }"

fun v1_payload_len :: "nat \<Rightarrow> bytes \<Rightarrow> nat \<Rightarrow> nat \<Rightarrow> nat outcome" where
  "v1_payload_len 0 bs hoff acc = lift_checked (Inr acc)"
| "v1_payload_len (Suc k) bs hoff acc =
     obind (lift_unchecked (read_v1_header bs hoff)) (\<lambda>(h, hoff).
     obind (lift_checked (ok_or (checked_add (unat (vh_num_accounts h)) (unat (vh_data_len h))) ParseError)) (\<lambda>len.
     obind (lift_checked (ok_or (checked_add acc len) ParseError)) (\<lambda>acc.
     v1_payload_len k bs hoff acc)))"

definition try_new_for_v1 :: "u8 \<Rightarrow> bytes \<Rightarrow> nat \<Rightarrow> (instructions_frame \<times> nat) outcome" where
  "try_new_for_v1 num bs off =
     obind (lift_checked (try_u32_offset off)) (\<lambda>headers_off.
     obind (lift_checked (ok_or (checked_mul V1_HEADER_SIZE (unat num)) ParseError)) (\<lambda>headers_len.
     obind (lift_checked (check_remaining bs off headers_len)) (\<lambda>_.
     let hoff = off in
     obind (lift_checked (ok_or (checked_add off headers_len) ParseError)) (\<lambda>off.
     obind (lift_checked (try_u32_offset off)) (\<lambda>payloads_off.
     obind (v1_payload_len (unat num) bs hoff 0) (\<lambda>acc.
     obind (lift_checked (check_remaining bs off acc)) (\<lambda>_.
     obind (lift_checked (ok_or (checked_add off acc) ParseError)) (\<lambda>off.
     lift_checked (Inr (V1Frame (ucast num) headers_off payloads_off, off))))))))))"

definition frame_num_instructions :: "instructions_frame \<Rightarrow> u16" where
  "frame_num_instructions f = (case f of LegacyAndV0Frame n _ _ \<Rightarrow> n | V1Frame n _ _ \<Rightarrow> n)"

section \<open>Transaction frame\<close>

record transaction_frame =
  tf_signature :: signature_frame
  tf_message_header :: message_header_frame
  tf_static_account_keys :: static_account_keys_frame
  tf_recent_blockhash_offset :: nat
  tf_instructions :: instructions_frame
  tf_address_table_lookup :: address_table_lookup_frame
  tf_transaction_config :: transaction_config_frame
  tf_data_len :: nat

definition is_legacy_or_v0 :: "bytes \<Rightarrow> tx_error + bool" where
  "is_legacy_or_v0 bs =
     res_bind (ok_or (nth_opt bs 0) ParseError) (\<lambda>b. Inr (b AND MESSAGE_VERSION_PREFIX = 0))"

definition try_new_as_legacy_or_v0 :: "bytes \<Rightarrow> tx_error + transaction_frame" where
  "try_new_as_legacy_or_v0 bs =
     res_bind (signature_try_new bs 0) (\<lambda>(sig, off).
     res_bind (header_try_new_legacy_or_v0 bs off) (\<lambda>(hdr, off).
     res_bind (static_keys_try_new bs off) (\<lambda>(keys, off).
     res_bind (try_u32_offset off) (\<lambda>hash_off.
     res_bind (advance_offset_for_type HASH_SIZE bs off) (\<lambda>off.
     res_bind (try_new_for_legacy_and_v0 bs off) (\<lambda>(ixs, off).
     res_bind (if mh_version hdr = V0 then atl_try_new bs off else Inr (atl_default, off)) (\<lambda>(atl, off).
     if off \<noteq> length bs then Inl ParseError
     else
       res_bind (try_u32_offset off) (\<lambda>dlen.
       Inr \<lparr>tf_signature = sig, tf_message_header = hdr, tf_static_account_keys = keys,
            tf_recent_blockhash_offset = hash_off, tf_instructions = ixs, tf_address_table_lookup = atl,
            tf_transaction_config = not_applicable, tf_data_len = dlen\<rparr>))))))))"

definition v1_version :: "u8 \<Rightarrow> u8 \<Rightarrow> tx_error + transaction_version" where
  "v1_version v1_prefix b =
     (if b = v1_prefix then Inr V1 else if b = MAGICBLOCK_PREFIX then Inr Magicblock else Inl ParseError)"

definition try_new_as_v1 :: "u8 \<Rightarrow> bytes \<Rightarrow> transaction_frame outcome" where
  "try_new_as_v1 v1_prefix bs =
     (let off = 0 in
     obind (lift_checked (check_remaining bs off FIXED_V1_PREFIX_LEN)) (\<lambda>_.
     obind (lift_checked (try_u32_offset off)) (\<lambda>msg_off.
     obind (lift_unchecked (unchecked_read_byte bs off)) (\<lambda>(vb, off).
     obind (lift_checked (v1_version v1_prefix vb)) (\<lambda>version.
     obind (lift_unchecked (unchecked_read_byte bs off)) (\<lambda>(nreq, off).
     obind (lift_unchecked (unchecked_read_byte bs off)) (\<lambda>(ros, off).
     obind (lift_unchecked (unchecked_read_byte bs off)) (\<lambda>(rou, off).
     let mask_off = off in
     obind (lift_unchecked (unchecked_copy_value 4 bs off)) (\<lambda>msk.
     obind (lift_checked (ok_or (checked_add off 4) ParseError)) (\<lambda>off.
     obind (lift_checked (try_u32_offset off)) (\<lambda>hash_off.
     obind (lift_checked (ok_or (checked_add off HASH_SIZE) ParseError)) (\<lambda>off.
     obind (lift_unchecked (unchecked_read_byte bs off)) (\<lambda>(nix, off).
     obind (lift_unchecked (unchecked_read_byte bs off)) (\<lambda>(naddr, off).
     obind (lift_checked (try_u32_offset off)) (\<lambda>addr_off.
     obind (lift_checked (advance_offset_for_array PUBKEY_SIZE (unat naddr) bs off)) (\<lambda>off.
     obind (config_try_new mask_off (of_nat (le_nat msk)) bs off) (\<lambda>(cfg, off).
     obind (try_new_for_v1 nix bs off) (\<lambda>(ixs, off).
     obind (lift_checked (try_u32_offset off)) (\<lambda>sig_off.
     obind (lift_checked (advance_offset_for_array SIGNATURE_SIZE (unat nreq) bs off)) (\<lambda>off.
     if off \<noteq> length bs then lift_checked (Inl ParseError)
     else
       obind (lift_checked (try_u32_offset off)) (\<lambda>dlen.
       lift_checked (Inr
         \<lparr>tf_signature = \<lparr>sf_num_signatures = nreq, sf_offset = sig_off\<rparr>,
          tf_message_header = \<lparr>mh_offset = msg_off, mh_version = version, mh_num_required_signatures = nreq,
            mh_num_readonly_signed_accounts = ros, mh_num_readonly_unsigned_accounts = rou\<rparr>,
          tf_static_account_keys = \<lparr>sk_num_static_accounts = naddr, sk_offset = addr_off\<rparr>,
          tf_recent_blockhash_offset = hash_off, tf_instructions = ixs, tf_address_table_lookup = atl_default,
          tf_transaction_config = cfg, tf_data_len = dlen\<rparr>))))))))))))))))))))))"

definition frame_try_new :: "u8 \<Rightarrow> bytes \<Rightarrow> transaction_frame outcome" where
  "frame_try_new v1_prefix bs =
     obind (lift_checked (try_u32_offset (length bs))) (\<lambda>_.
     obind (lift_checked (is_legacy_or_v0 bs)) (\<lambda>old.
     if old then lift_checked (try_new_as_legacy_or_v0 bs) else try_new_as_v1 v1_prefix bs))"

section \<open>Accessors\<close>

fun chunks :: "nat \<Rightarrow> nat \<Rightarrow> 'a list \<Rightarrow> 'a list list" where
  "chunks sz 0 xs = []"
| "chunks sz (Suc n) xs = take sz xs # chunks sz n (drop sz xs)"

definition frame_signatures :: "transaction_frame \<Rightarrow> bytes \<Rightarrow> bytes list option" where
  "frame_signatures f bs =
     (let start = sf_offset (tf_signature f); n = unat (sf_num_signatures (tf_signature f)) in
      do { raw \<leftarrow> slice_opt bs start (start + n * SIGNATURE_SIZE); Some (chunks SIGNATURE_SIZE n raw) })"

definition frame_static_account_keys :: "transaction_frame \<Rightarrow> bytes \<Rightarrow> pubkey list option" where
  "frame_static_account_keys f bs =
     (let start = sk_offset (tf_static_account_keys f); n = unat (sk_num_static_accounts (tf_static_account_keys f)) in
      do { raw \<leftarrow> slice_opt bs start (start + n * PUBKEY_SIZE); Some (chunks PUBKEY_SIZE n raw) })"

definition frame_recent_blockhash :: "transaction_frame \<Rightarrow> bytes \<Rightarrow> bytes option" where
  "frame_recent_blockhash f bs =
     (let start = tf_recent_blockhash_offset f in slice_opt bs start (start + HASH_SIZE))"

definition message_range :: "transaction_frame \<Rightarrow> nat \<times> nat" where
  "message_range f =
     (mh_offset (tf_message_header f),
      (case mh_version (tf_message_header f) of
         V1 \<Rightarrow> sf_offset (tf_signature f)
       | Magicblock \<Rightarrow> sf_offset (tf_signature f)
       | _ \<Rightarrow> tf_data_len f))"

section \<open>Instruction iterator\<close>

record svm_instruction =
  ix_program_id_index :: u8
  ix_accounts :: bytes
  ix_data :: bytes

datatype instructions_iterator =
    LegacyAndV0Iter bytes nat u16 u16 "legacy_and_v0_instruction_frame list"
  | V1Iter bytes u16 u16 nat nat

definition instructions_iter :: "instructions_frame \<Rightarrow> bytes \<Rightarrow> instructions_iterator" where
  "instructions_iter f bs =
     (case f of
        LegacyAndV0Frame num off fs \<Rightarrow> LegacyAndV0Iter bs off num 0 fs
      | V1Frame num hoff poff \<Rightarrow> V1Iter bs 0 num hoff poff)"

definition for_legacy_and_v0 ::
  "legacy_and_v0_instruction_frame \<Rightarrow> bytes \<Rightarrow> nat \<Rightarrow> (svm_instruction \<times> nat) option" where
  "for_legacy_and_v0 f bs off = do {
     (pid, off) \<leftarrow> unchecked_read_byte bs off;
     let off = off + unat (lf_num_accounts_len f);
     (accs, off) \<leftarrow> unchecked_read_slice_data 1 (unat (lf_num_accounts f)) bs off;
     let off = off + unat (lf_data_len_len f);
     (dat, off) \<leftarrow> unchecked_read_slice_data 1 (unat (lf_data_len f)) bs off;
     Some (\<lparr>ix_program_id_index = pid, ix_accounts = accs, ix_data = dat\<rparr>, off)
   }"

definition for_v1 :: "v1_instruction_header \<Rightarrow> bytes \<Rightarrow> nat \<Rightarrow> (svm_instruction \<times> nat) option" where
  "for_v1 h bs poff = do {
     (accs, poff) \<leftarrow> unchecked_read_slice_data 1 (unat (vh_num_accounts h)) bs poff;
     (dat, poff) \<leftarrow> unchecked_read_slice_data 1 (unat (vh_data_len h)) bs poff;
     Some (\<lparr>ix_program_id_index = vh_program_id_index h, ix_accounts = accs, ix_data = dat\<rparr>, poff)
   }"

text \<open>\<open>next\<close>: the inner option is the iterator's, the outer \<open>None\<close> a read out of bounds.\<close>

fun iter_next :: "instructions_iterator \<Rightarrow> (svm_instruction option \<times> instructions_iterator) option" where
  "iter_next (LegacyAndV0Iter bs off num i fs) =
     (if i \<ge> num then Some (None, LegacyAndV0Iter bs off num i fs)
      else do {
        f \<leftarrow> nth_opt fs (unat i);
        (ix, off) \<leftarrow> for_legacy_and_v0 f bs off;
        Some (Some ix, LegacyAndV0Iter bs off num (i + 1) fs)
      })"
| "iter_next (V1Iter bs i num hoff poff) =
     (if i \<ge> num then Some (None, V1Iter bs i num hoff poff)
      else do {
        (h, hoff) \<leftarrow> read_v1_header bs hoff;
        (ix, poff) \<leftarrow> for_v1 h bs poff;
        Some (Some ix, V1Iter bs (i + 1) num hoff poff)
      })"

fun iter_len :: "instructions_iterator \<Rightarrow> nat" where
  "iter_len (LegacyAndV0Iter bs off num i fs) = unat (num - i)"
| "iter_len (V1Iter bs i num hoff poff) = unat (num - i)"

lemma unat_rem_less:
  assumes "(i :: u16) < num"
  shows "unat (num - (i + 1)) < unat (num - i)"
proof -
  have ne: "num - i \<noteq> 0" using assms by auto
  have "unat (num - i - 1) = unat (num - i) - 1" using ne by (rule unat_minus_one)
  moreover have "0 < unat (num - i)" using ne unat_gt_0 by blast
  ultimately show ?thesis unfolding diff_diff_eq by simp
qed

lemma iter_next_len: "iter_next it = Some (Some ix, it') \<Longrightarrow> iter_len it' < iter_len it"
  by (cases it) (auto simp: bind_eq_Some_conv not_le intro!: unat_rem_less split: if_splits prod.splits)

text \<open>\<open>for instruction in iter\<close>: all instructions the iterator yields, in order.\<close>

function iter_collect :: "instructions_iterator \<Rightarrow> svm_instruction list option" where
  "iter_collect it =
     (case iter_next it of
        None \<Rightarrow> None
      | Some (None, it') \<Rightarrow> Some []
      | Some (Some ix, it') \<Rightarrow>
          (case iter_collect it' of None \<Rightarrow> None | Some ixs \<Rightarrow> Some (ix # ixs)))"
  by pat_completeness auto
termination
  by (relation "measure iter_len") (auto intro: iter_next_len)

declare iter_collect.simps [simp del]

definition frame_instructions :: "transaction_frame \<Rightarrow> bytes \<Rightarrow> svm_instruction list option" where
  "frame_instructions f bs = iter_collect (instructions_iter (tf_instructions f) bs)"

section \<open>Address lookup iterator\<close>

record svm_address_table_lookup =
  lk_account_key :: pubkey
  lk_writable_indexes :: bytes
  lk_readonly_indexes :: bytes

record address_table_lookup_iterator =
  ai_bytes :: bytes
  ai_offset :: nat
  ai_num :: u8
  ai_index :: u8

text \<open>A failing read ends the iteration step with \<open>None\<close> and leaves the offset where it failed.\<close>

definition atl_next ::
  "address_table_lookup_iterator \<Rightarrow> svm_address_table_lookup option \<times> address_table_lookup_iterator" where
  "atl_next it =
     (if ai_index it < ai_num it then
        let it = it\<lparr>ai_index := ai_index it + 1\<rparr> in
        case read_type PUBKEY_SIZE (ai_bytes it) (ai_offset it) of Inl _ \<Rightarrow> (None, it) | Inr (key, off) \<Rightarrow>
        case read_compressed_u16 (ai_bytes it) off of Inl _ \<Rightarrow> (None, it\<lparr>ai_offset := off\<rparr>) | Inr (nw, off) \<Rightarrow>
        case read_slice_data 1 (unat nw) (ai_bytes it) off of Inl _ \<Rightarrow> (None, it\<lparr>ai_offset := off\<rparr>) | Inr (ws, off) \<Rightarrow>
        case read_compressed_u16 (ai_bytes it) off of Inl _ \<Rightarrow> (None, it\<lparr>ai_offset := off\<rparr>) | Inr (nr, off) \<Rightarrow>
        case read_slice_data 1 (unat nr) (ai_bytes it) off of Inl _ \<Rightarrow> (None, it\<lparr>ai_offset := off\<rparr>) | Inr (rs, off) \<Rightarrow>
          (Some \<lparr>lk_account_key = key, lk_writable_indexes = ws, lk_readonly_indexes = rs\<rparr>, it\<lparr>ai_offset := off\<rparr>)
      else (None, it))"

definition atl_iter :: "transaction_frame \<Rightarrow> bytes \<Rightarrow> address_table_lookup_iterator" where
  "atl_iter f bs =
     \<lparr>ai_bytes = bs, ai_offset = al_offset (tf_address_table_lookup f),
      ai_num = al_num (tf_address_table_lookup f), ai_index = 0\<rparr>"

end
