(* ===== verification/Tx_Parse.thy ===== *)
theory Tx_Parse
  imports Tx_Frames
begin

text \<open>
  Correctness of the parser of \<^verbatim>\<open>transaction_frame.rs\<close> against the wire format. The wire format
  is given as a printer of the parts of a transaction; an accepted buffer is exactly the printed
  form of the parts its accessors return. In particular no accessor, and no unchecked read of
  the parser or of the iterators, leaves the buffer.
\<close>

section \<open>Inversion of outcomes\<close>

lemma lift_checked_simps [simp]:
  "lift_checked r = Some (Inr x) \<longleftrightarrow> r = Inr x" "lift_checked r \<noteq> None"
  by (simp_all add: lift_checked_def)

lemma lift_unchecked_simps [simp]:
  "lift_unchecked x = Some (Inr y) \<longleftrightarrow> x = Some y" "lift_unchecked x = None \<longleftrightarrow> x = None"
  by (auto simp: lift_unchecked_def)

lemma obind_Inr [unfold_ok]:
  "obind m f = Some (Inr y) \<longleftrightarrow> (\<exists>x. m = Some (Inr x) \<and> f x = Some (Inr y))"
  by (auto simp: obind_def split: option.splits sum.splits)

lemma obind_None: "obind m f = None \<longleftrightarrow> m = None \<or> (\<exists>x. m = Some (Inr x) \<and> f x = None)"
  by (auto simp: obind_def split: option.splits sum.splits)

section \<open>The wire format\<close>

definition wire_ix :: "svm_instruction \<Rightarrow> bytes" where
  "wire_ix ix =
     [ix_program_id_index ix] @ shortvec (of_nat (length (ix_accounts ix))) @ ix_accounts ix @
     shortvec (of_nat (length (ix_data ix))) @ ix_data ix"

definition wire_lookup :: "svm_address_table_lookup \<Rightarrow> bytes" where
  "wire_lookup l =
     lk_account_key l @ shortvec (of_nat (length (lk_writable_indexes l))) @ lk_writable_indexes l @
     shortvec (of_nat (length (lk_readonly_indexes l))) @ lk_readonly_indexes l"

text \<open>The parts of a transaction; \<open>tp_config\<close> holds the raw configuration words of v1.\<close>

record tx_parts =
  tp_version :: transaction_version
  tp_signatures :: "bytes list"
  tp_header :: "u8 \<times> u8 \<times> u8"
  tp_keys :: "pubkey list"
  tp_blockhash :: bytes
  tp_instructions :: "svm_instruction list"
  tp_lookups :: "svm_address_table_lookup list"
  tp_mask :: bytes
  tp_config :: bytes

definition wire_header :: "tx_parts \<Rightarrow> bytes" where
  "wire_header p = (case tp_header p of (a, b, c) \<Rightarrow> [a, b, c])"

definition wire_legacy_or_v0 :: "tx_parts \<Rightarrow> bytes" where
  "wire_legacy_or_v0 p =
     [of_nat (length (tp_signatures p))] @ concat (tp_signatures p) @
     (if tp_version p = V0 then [MESSAGE_VERSION_PREFIX] else []) @ wire_header p @
     [of_nat (length (tp_keys p))] @ concat (tp_keys p) @ tp_blockhash p @
     shortvec (of_nat (length (tp_instructions p))) @ concat (map wire_ix (tp_instructions p)) @
     (if tp_version p = V0 then [of_nat (length (tp_lookups p))] @ concat (map wire_lookup (tp_lookups p)) else [])"

definition wire_v1_header :: "svm_instruction \<Rightarrow> bytes" where
  "wire_v1_header ix =
     [ix_program_id_index ix, of_nat (length (ix_accounts ix))] @ nat_le 2 (length (ix_data ix))"

definition wire_v1_payload :: "svm_instruction \<Rightarrow> bytes" where
  "wire_v1_payload ix = ix_accounts ix @ ix_data ix"

definition version_byte :: "u8 \<Rightarrow> transaction_version \<Rightarrow> u8" where
  "version_byte v1_prefix v = (if v = V1 then v1_prefix else MAGICBLOCK_PREFIX)"

definition wire_v1 :: "u8 \<Rightarrow> tx_parts \<Rightarrow> bytes" where
  "wire_v1 v1_prefix p =
     [version_byte v1_prefix (tp_version p)] @ wire_header p @ tp_mask p @ tp_blockhash p @
     [of_nat (length (tp_instructions p)), of_nat (length (tp_keys p))] @ concat (tp_keys p) @ tp_config p @
     concat (map wire_v1_header (tp_instructions p)) @ concat (map wire_v1_payload (tp_instructions p)) @
     concat (tp_signatures p)"

section \<open>Reading a window\<close>

lemma slice_step:
  assumes "slice bs a b = xs" "slice bs b c = ys" "a \<le> b" "b \<le> c"
  shows "slice bs a c = xs @ ys"
  using slice_append [OF assms(3,4), of bs] assms(1,2) by simp

text \<open>Cutting a window at ascending offsets.\<close>

fun ascending :: "nat \<Rightarrow> nat list \<Rightarrow> bool" where
  "ascending a [] \<longleftrightarrow> True"
| "ascending a (b # cs) \<longleftrightarrow> a \<le> b \<and> ascending b cs"

fun windows :: "'a list \<Rightarrow> nat \<Rightarrow> nat list \<Rightarrow> 'a list" where
  "windows xs a [] = []"
| "windows xs a (b # cs) = slice xs a b @ windows xs b cs"

lemma ascending_last: "ascending a cs \<Longrightarrow> a \<le> last (a # cs)"
proof (induction cs arbitrary: a)
  case (Cons b cs)
  then have "a \<le> b" "b \<le> last (b # cs)" by simp_all
  then show ?case by simp
qed simp

lemma windows_eq: "ascending a cs \<Longrightarrow> windows xs a cs = slice xs a (last (a # cs))"
proof (induction cs arbitrary: a)
  case (Cons b cs)
  then show ?case using ascending_last [of b cs] slice_append [of a b "last (b # cs)" xs] by simp
qed simp

lemma concat_chunks: "length xs = n * sz \<Longrightarrow> concat (chunks sz n xs) = xs"
  by (induction n arbitrary: xs) (auto simp: min_def)

lemma length_chunks [simp]: "length (chunks sz n xs) = n"
  by (induction n arbitrary: xs) auto

lemma chunks_size: "length xs = n * sz \<Longrightarrow> \<forall>c \<in> set (chunks sz n xs). length c = sz"
proof (induction n arbitrary: xs)
  case (Suc n)
  have "length (drop sz xs) = n * sz" using Suc.prems by simp
  from Suc.IH [OF this] Suc.prems show ?case by simp
qed simp

lemma length_shortvec: "length (shortvec n) \<le> 3" "0 < length (shortvec n)"
  by (simp_all add: shortvec_def)

lemma u8_len [simp]: "unat (of_nat (length (shortvec n)) :: u8) = length (shortvec n)"
  using length_shortvec [of n] by (intro nat_byte) simp

lemma of_nat_unat_u16 [simp]: "(of_nat (unat (n :: u16)) :: u16) = n"
  by simp

section \<open>Legacy and v0 instructions\<close>

lemma u8_try_from_sub:
  "u8_try_from (checked_sub (a + length (shortvec n)) a) = Inr (of_nat (length (shortvec n)))"
  using length_shortvec [of n] by (simp add: u8_try_from_def checked_sub_def ok_or_def)

lemma legacy_instruction_sound:
  assumes "legacy_instruction_try_new bs off = Inr (f, off')"
  shows "\<exists>ix. for_legacy_and_v0 f bs off = Some (ix, off') \<and> slice bs off off' = wire_ix ix \<and>
    off < off' \<and> off' \<le> length bs"
proof -
  obtain nacc off1 n1 off2 dlen off3 n2 where r:
    "off < length bs" "read_compressed_u16 bs (off + 1) = Inr (nacc, off1)"
    "u8_try_from (checked_sub off1 (off + 1)) = Inr n1"
    "off2 = off1 + unat nacc" "off2 \<le> length bs"
    "read_compressed_u16 bs off2 = Inr (dlen, off3)"
    "u8_try_from (checked_sub off3 off2) = Inr n2"
    "off' = off3 + unat dlen" "off' \<le> length bs"
    "f = \<lparr>lf_num_accounts = nacc, lf_data_len = dlen, lf_num_accounts_len = n1, lf_data_len_len = n2\<rparr>"
    using assms unfolding legacy_instruction_try_new_def
    by (auto simp: res_bind_Inr read_sound)
  note c1 = read_compressed_u16_sound [OF r(2)] and c2 = read_compressed_u16_sound [OF r(6)]
  have n1: "n1 = of_nat (length (shortvec nacc))" using r(3) unfolding c1(2) u8_try_from_sub by simp
  have n2: "n2 = of_nat (length (shortvec dlen))" using r(7) unfolding c2(2) u8_try_from_sub by simp
  let ?ix = "\<lparr>ix_program_id_index = bs ! off, ix_accounts = slice bs off1 off2, ix_data = slice bs off3 off'\<rparr>"
  have "for_legacy_and_v0 f bs off = Some (?ix, off')"
    using r c1(2) c2(2) n1 n2
    by (simp add: for_legacy_and_v0_def unchecked_read_byte_def unchecked_read_slice_data_def nth_opt_less
        slice_opt_def)
  moreover have "slice bs off off' = wire_ix ?ix"
  proof -
    have "slice bs off (off + 1) = [bs ! off]" using slice_Suc r(1) by simp
    moreover have "length (slice bs off1 off2) = unat nacc" "length (slice bs off3 off') = unat dlen"
      using r by simp_all
    moreover have "slice bs off off' = slice bs off (off + 1) @ slice bs (off + 1) off1 @ slice bs off1 off2 @
        slice bs off2 off3 @ slice bs off3 off'"
      using r(4,8) c1(2) c2(2) by (simp add: slice_append)
    ultimately show ?thesis
      using c1(3) c2(3) by (simp add: wire_ix_def)
  qed
  ultimately show ?thesis using r c1(2) c2(2) by auto
qed

lemma iter_collect_step:
  "iter_next it = Some (Some ix, it') \<Longrightarrow> iter_collect it' = Some ixs \<Longrightarrow> iter_collect it = Some (ix # ixs)"
  by (subst iter_collect.simps) simp

lemma iter_collect_stop: "iter_next it = Some (None, it') \<Longrightarrow> iter_collect it = Some []"
  by (subst iter_collect.simps) simp

lemma unat_suc_u16: "unat (i :: u16) < unat (num :: u16) \<Longrightarrow> unat (i + 1) = unat i + 1"
  using unat_u16_less [of num] by (simp add: unat_plus_if')

lemma legacy_loop_sound:
  assumes "legacy_instructions_loop k bs off = Inr (fs, off')" "unat num = unat i + k"
    "drop (unat i) all = fs" "off \<le> length bs"
  shows "length fs = k \<and> off \<le> off' \<and> off' \<le> length bs \<and>
    (\<exists>ixs. length ixs = k \<and> iter_collect (LegacyAndV0Iter bs off num i all) = Some ixs \<and>
       slice bs off off' = concat (map wire_ix ixs))"
  using assms
proof (induction k arbitrary: off fs i)
  case 0
  then have "i \<ge> num" by (simp add: word_le_nat_alt)
  then show ?case using 0 iter_collect_stop [of "LegacyAndV0Iter bs off num i all"] by simp
next
  case (Suc k)
  obtain f off1 fs' where r: "legacy_instruction_try_new bs off = Inr (f, off1)"
      "legacy_instructions_loop k bs off1 = Inr (fs', off')" "fs = f # fs'"
    using Suc.prems(1) by (auto simp: res_bind_Inr)
  obtain ix where ix: "for_legacy_and_v0 f bs off = Some (ix, off1)" "slice bs off off1 = wire_ix ix"
      "off < off1" "off1 \<le> length bs"
    using legacy_instruction_sound [OF r(1)] by blast
  have lt: "unat i < unat num" using Suc.prems(2) by simp
  then have i1: "unat (i + 1) = unat i + 1" by (rule unat_suc_u16)
  have len: "unat i < length all" using Suc.prems(3) r(3) by (metis drop_all list.distinct(1) not_le)
  have nth: "all ! unat i = f" "drop (unat i + 1) all = fs'"
    using Suc.prems(3) r(3) Cons_nth_drop_Suc [OF len] by auto
  have IH: "length fs' = k \<and> off1 \<le> off' \<and> off' \<le> length bs \<and>
    (\<exists>ixs. length ixs = k \<and> iter_collect (LegacyAndV0Iter bs off1 num (i + 1) all) = Some ixs \<and>
       slice bs off1 off' = concat (map wire_ix ixs))"
    using Suc.prems(2) i1 nth(2) ix(4) by (intro Suc.IH [OF r(2)]) simp_all
  then obtain ixs where ixs: "length ixs = k" "iter_collect (LegacyAndV0Iter bs off1 num (i + 1) all) = Some ixs"
      "slice bs off1 off' = concat (map wire_ix ixs)" by blast
  have "iter_next (LegacyAndV0Iter bs off num i all) = Some (Some ix, LegacyAndV0Iter bs off1 num (i + 1) all)"
    using lt len nth(1) ix(1) by (simp add: nth_opt_less word_le_nat_alt)
  then have "iter_collect (LegacyAndV0Iter bs off num i all) = Some (ix # ixs)"
    using ixs(2) by (rule iter_collect_step)
  moreover have "slice bs off off' = concat (map wire_ix (ix # ixs))"
    using slice_step [OF ix(2) ixs(3)] ix(3) IH by simp
  ultimately show ?case using IH r(3) ix(3) ixs(1) by (intro conjI exI [of _ "ix # ixs"]) simp_all
qed

lemma legacy_instructions_sound:
  assumes "try_new_for_legacy_and_v0 bs off = Inr (fr, off')"
  shows "off \<le> off' \<and> off' \<le> length bs \<and>
    (\<exists>ixs. iter_collect (instructions_iter fr bs) = Some ixs \<and> length ixs < 2 ^ 16 \<and>
       frame_num_instructions fr = of_nat (length ixs) \<and>
       slice bs off off' = shortvec (of_nat (length ixs)) @ concat (map wire_ix ixs))"
proof -
  obtain num off1 fs where r: "read_compressed_u16 bs off = Inr (num, off1)"
      "legacy_instructions_loop (unat num) bs off1 = Inr (fs, off')" "fr = LegacyAndV0Frame num off1 fs"
    using assms unfolding try_new_for_legacy_and_v0_def by (auto simp: res_bind_Inr)
  note c = read_compressed_u16_sound [OF r(1)]
  have s: "length fs = unat num \<and> off1 \<le> off' \<and> off' \<le> length bs \<and>
    (\<exists>ixs. length ixs = unat num \<and> iter_collect (LegacyAndV0Iter bs off1 num 0 fs) = Some ixs \<and>
       slice bs off1 off' = concat (map wire_ix ixs))"
    by (rule legacy_loop_sound [OF r(2)]) (use c in simp_all)
  then obtain ixs where ixs: "length ixs = unat num" "iter_collect (LegacyAndV0Iter bs off1 num 0 fs) = Some ixs"
       "slice bs off1 off' = concat (map wire_ix ixs)" by blast
  have "slice bs off off' = shortvec num @ concat (map wire_ix ixs)"
    using slice_step [OF c(3) ixs(3)] c(2) s by simp
  moreover have "unat num < 2 ^ 16" using unat_u16_less [of num] by simp
  ultimately show ?thesis
    using s c(2) ixs(1,2) r(3) by (auto simp: instructions_iter_def frame_num_instructions_def)
qed

section \<open>Signatures, header, keys and lookups\<close>

lemma signature_try_new_sound:
  assumes "signature_try_new bs off = Inr (f, off')"
  shows "off < length bs \<and> bs ! off = sf_num_signatures f \<and> sf_offset f = off + 1 \<and>
    off' = off + 1 + unat (sf_num_signatures f) * SIGNATURE_SIZE \<and> off' \<le> length bs \<and>
    sf_num_signatures f \<noteq> 0 \<and> sf_num_signatures f \<le> MAX_SIGNATURES_PER_PACKET"
  using assms unfolding signature_try_new_def
  by (auto simp: res_bind_Inr read_sound split: if_splits)

lemma static_keys_try_new_sound:
  assumes "static_keys_try_new bs off = Inr (f, off')"
  shows "off < length bs \<and> bs ! off = sk_num_static_accounts f \<and> sk_offset f = off + 1 \<and>
    off' = off + 1 + unat (sk_num_static_accounts f) * PUBKEY_SIZE \<and> off' \<le> length bs \<and>
    sk_num_static_accounts f \<noteq> 0"
  using assms unfolding static_keys_try_new_def
  by (auto simp: res_bind_Inr read_sound split: if_splits)

lemma prefix_v0:
  assumes "b AND MESSAGE_VERSION_PREFIX \<noteq> 0" "b AND NOT MESSAGE_VERSION_PREFIX = 0"
  shows "b = MESSAGE_VERSION_PREFIX"
proof -
  have "128 \<le> unat b" using assms(1) byte_msb [of b] by (simp add: MESSAGE_VERSION_PREFIX_def)
  moreover have "NOT MESSAGE_VERSION_PREFIX = 0x7F" by (simp add: MESSAGE_VERSION_PREFIX_def)
  then have "unat b mod 128 = 0" using assms(2) byte_low [of b] by simp
  ultimately have "unat b = 128" using msb_split [of b] by simp
  then have "b = 128" by (simp add: word_unat_eq_iff)
  then show ?thesis by (simp add: MESSAGE_VERSION_PREFIX_def)
qed

definition header_bytes :: "message_header_frame \<Rightarrow> bytes" where
  "header_bytes h = (if mh_version h = V0 then [MESSAGE_VERSION_PREFIX] else []) @
     [mh_num_required_signatures h, mh_num_readonly_signed_accounts h, mh_num_readonly_unsigned_accounts h]"

lemma header_try_new_sound:
  assumes "header_try_new_legacy_or_v0 bs off = Inr (h, off')"
  shows "off' \<le> length bs \<and> mh_offset h = off \<and> off' = off + length (header_bytes h) \<and>
    slice bs off off' = header_bytes h \<and> (mh_version h = Legacy \<or> mh_version h = V0)"
proof -
  have s2: "slice bs a (a + 3) = [bs ! a, bs ! (a + 1), bs ! (a + 2)]" if "a + 2 < length bs" for a
    using that slice_append [of a "a + 1" "a + 3" bs] slice_append [of "a + 1" "a + 2" "a + 3" bs]
      slice_Suc [of a bs] slice_Suc [of "a + 1" bs] slice_Suc [of "a + 2" bs]
    by (simp add: numeral_eq_Suc)
  show ?thesis
  proof (cases "bs ! off AND MESSAGE_VERSION_PREFIX = 0")
    case True
    then have "off + 2 < length bs" "off' = off + 3" "mh_offset h = off" "mh_version h = Legacy"
        "mh_num_required_signatures h = bs ! off"
        "mh_num_readonly_signed_accounts h = bs ! (off + 1)" "mh_num_readonly_unsigned_accounts h = bs ! (off + 2)"
      using assms unfolding header_try_new_legacy_or_v0_def
      by (auto simp: res_bind_Inr read_sound)
    then show ?thesis using s2 [of off] by (simp add: header_bytes_def)
  next
    case False
    then have "bs ! off = MESSAGE_VERSION_PREFIX" "off + 3 < length bs" "off' = off + 4" "mh_offset h = off"
        "mh_version h = V0" "mh_num_required_signatures h = bs ! (off + 1)"
        "mh_num_readonly_signed_accounts h = bs ! (off + 2)" "mh_num_readonly_unsigned_accounts h = bs ! (off + 3)"
      using assms prefix_v0 unfolding header_try_new_legacy_or_v0_def
      by (auto simp: res_bind_Inr read_sound Let_def numeral_eq_Suc split: if_splits)
    then show ?thesis
      using s2 [of "off + 1"] slice_append [of off "off + 1" "off + 4" bs] slice_Suc [of off bs]
      by (simp add: header_bytes_def numeral_eq_Suc)
  qed
qed

text \<open>The lookups an accepted v0 buffer holds, read from the recorded offset.\<close>

fun atl_take :: "nat \<Rightarrow> address_table_lookup_iterator \<Rightarrow> svm_address_table_lookup list" where
  "atl_take 0 it = []"
| "atl_take (Suc k) it = (case atl_next it of (None, _) \<Rightarrow> [] | (Some l, it') \<Rightarrow> l # atl_take k it')"

definition frame_lookups :: "transaction_frame \<Rightarrow> bytes \<Rightarrow> svm_address_table_lookup list" where
  "frame_lookups f bs = atl_take (unat (al_num (tf_address_table_lookup f))) (atl_iter f bs)"

lemma atl_loop_sound:
  assumes "atl_loop k bs off tw tr = Inr ((tw', tr'), off')" "off \<le> length bs" "unat num = unat i + k"
  shows "off \<le> off' \<and> off' \<le> length bs \<and>
    (\<exists>ls. atl_take k \<lparr>ai_bytes = bs, ai_offset = off, ai_num = num, ai_index = i\<rparr> = ls \<and> length ls = k \<and>
      slice bs off off' = concat (map wire_lookup ls) \<and>
      (\<forall>l \<in> set ls. length (lk_account_key l) = PUBKEY_SIZE) \<and>
      tw' = tw + sum_list (map (\<lambda>l. length (lk_writable_indexes l)) ls) \<and>
      tr' = tr + sum_list (map (\<lambda>l. length (lk_readonly_indexes l)) ls))"
  using assms
proof (induction k arbitrary: off tw tr i)
  case (Suc k)
  obtain off1 nw off2 nr off3 where r:
    "off1 = off + PUBKEY_SIZE" "off1 \<le> length bs" "read_compressed_u16 bs off1 = Inr (nw, off2)"
    "off2 + unat nw \<le> length bs" "read_compressed_u16 bs (off2 + unat nw) = Inr (nr, off3)"
    "off3 + unat nr \<le> length bs"
    "atl_loop k bs (off3 + unat nr) (tw + unat nw) (tr + unat nr) = Inr ((tw', tr'), off')"
    "off3 + unat nr < usize_bound"
    using Suc.prems(1) by (auto simp: res_bind_Inr read_sound checked_add_u32_def split: if_splits)
  note c1 = read_compressed_u16_sound [OF r(3)] and c2 = read_compressed_u16_sound [OF r(5)]
  let ?e = "off3 + unat nr"
  let ?l = "\<lparr>lk_account_key = slice bs off off1, lk_writable_indexes = slice bs off2 (off2 + unat nw),
    lk_readonly_indexes = slice bs off3 ?e\<rparr>"
  have lt: "i < num" using Suc.prems(3) by (simp add: word_less_nat_alt)
  have i1: "unat (i + 1) = unat i + 1"
    using Suc.prems(3) unat_u8_less [of num] by (simp add: unat_plus_if')
  obtain ls where ls: "?e \<le> off'" "off' \<le> length bs"
      "atl_take k \<lparr>ai_bytes = bs, ai_offset = ?e, ai_num = num, ai_index = i + 1\<rparr> = ls"
      "length ls = k" "slice bs ?e off' = concat (map wire_lookup ls)"
      "\<forall>l \<in> set ls. length (lk_account_key l) = PUBKEY_SIZE"
      "tw' = tw + unat nw + sum_list (map (\<lambda>l. length (lk_writable_indexes l)) ls)"
      "tr' = tr + unat nr + sum_list (map (\<lambda>l. length (lk_readonly_indexes l)) ls)"
  proof -
    have "unat num = unat (i + 1) + k" using Suc.prems(3) i1 by simp
    from Suc.IH [OF r(7,6) this] show ?thesis using that by blast
  qed
  have "read_type PUBKEY_SIZE bs off = Inr (slice bs off off1, off1)"
      "read_slice_data 1 (unat nw) bs off2 = Inr (slice bs off2 (off2 + unat nw), off2 + unat nw)"
      "read_slice_data 1 (unat nr) bs off3 = Inr (slice bs off3 ?e, ?e)"
    using r c1(2) c2(2) by (simp_all add: read_type_Inr read_slice_data_Inr)
  then have take: "atl_take (Suc k) \<lparr>ai_bytes = bs, ai_offset = off, ai_num = num, ai_index = i\<rparr> = ?l # ls"
    using ls(3) lt r(3,5) by (simp add: atl_next_def)
  have "slice bs off ?e = slice bs off off1 @ slice bs off1 off2 @ slice bs off2 (off2 + unat nw) @
      slice bs (off2 + unat nw) off3 @ slice bs off3 ?e"
    using r(1) c1(2) c2(2) by (simp add: slice_append)
  then have "slice bs off ?e = wire_lookup ?l"
    using c1(3) c2(3) r by (simp add: wire_lookup_def)
  then have "slice bs off off' = concat (map wire_lookup (?l # ls))"
    using slice_step [of bs off ?e "wire_lookup ?l" off'] ls(1,5) r(1) c1(2) c2(2) by simp
  moreover have "length (slice bs off off1) = PUBKEY_SIZE" "length (slice bs off2 (off2 + unat nw)) = unat nw"
      "length (slice bs off3 ?e) = unat nr"
    using r by simp_all
  ultimately show ?case
    using ls take r(1) c1(2) c2(2) by (intro conjI exI [of _ "?l # ls"]) simp_all
qed simp

lemma atl_try_new_sound:
  assumes "atl_try_new bs off = Inr (a, off')"
  shows "off < off' \<and> off' \<le> length bs \<and>
    (\<exists>ls. atl_take (unat (al_num a)) \<lparr>ai_bytes = bs, ai_offset = al_offset a, ai_num = al_num a, ai_index = 0\<rparr> = ls \<and>
      length ls = unat (al_num a) \<and>
      slice bs off off' = [of_nat (length ls)] @ concat (map wire_lookup ls) \<and>
      unat (al_total_writable a) = sum_list (map (\<lambda>l. length (lk_writable_indexes l)) ls) \<and>
      unat (al_total_readonly a) = sum_list (map (\<lambda>l. length (lk_readonly_indexes l)) ls))"
proof -
  obtain tw tr where r: "off < length bs" "al_num a = bs ! off" "al_offset a = off + 1"
      "atl_loop (unat (al_num a)) bs (off + 1) 0 0 = Inr ((tw, tr), off')"
      "tw < 2 ^ 16" "tr < 2 ^ 16" "al_total_writable a = of_nat tw" "al_total_readonly a = of_nat tr"
    using assms unfolding atl_try_new_def
    by (auto simp: res_bind_Inr read_sound u16_try_from_def split: if_splits)
  have fit: "unat (of_nat n :: u16) = n" if "n < 2 ^ 16" for n
    using that by (simp add: unat_of_nat take_bit_eq_mod)
  have lo: "off + 1 \<le> length bs" "unat (al_num a) = unat (0 :: u8) + unat (al_num a)" using r(1) by simp_all
  obtain ls where ls: "off + 1 \<le> off'" "off' \<le> length bs"
      "atl_take (unat (al_num a)) \<lparr>ai_bytes = bs, ai_offset = off + 1, ai_num = al_num a, ai_index = 0\<rparr> = ls"
      "length ls = unat (al_num a)" "slice bs (off + 1) off' = concat (map wire_lookup ls)"
      "tw = sum_list (map (\<lambda>l. length (lk_writable_indexes l)) ls)"
      "tr = sum_list (map (\<lambda>l. length (lk_readonly_indexes l)) ls)"
    using atl_loop_sound [OF r(4) lo] by auto
  have "slice bs off (off + 1) = [of_nat (length ls)]" using slice_Suc [of off bs] r(1,2) ls(4) by simp
  from slice_step [OF this ls(5)] ls(1)
  have "slice bs off off' = [of_nat (length ls)] @ concat (map wire_lookup ls)" by simp
  then show ?thesis
    using ls r(3,7,8) fit [OF r(5)] fit [OF r(6)] by (intro conjI exI [of _ ls]) simp_all
qed

section \<open>Whole transactions\<close>

text \<open>\<open>frame_parts f bs p\<close>: every accessor of the frame succeeds on the buffer, and \<open>p\<close> is what they return.\<close>

definition frame_parts :: "transaction_frame \<Rightarrow> bytes \<Rightarrow> tx_parts \<Rightarrow> bool" where
  "frame_parts f bs p \<longleftrightarrow>
     tp_version p = mh_version (tf_message_header f) \<and>
     frame_signatures f bs = Some (tp_signatures p) \<and>
     tp_header p = (mh_num_required_signatures (tf_message_header f),
       mh_num_readonly_signed_accounts (tf_message_header f), mh_num_readonly_unsigned_accounts (tf_message_header f)) \<and>
     frame_static_account_keys f bs = Some (tp_keys p) \<and>
     frame_recent_blockhash f bs = Some (tp_blockhash p) \<and>
     frame_instructions f bs = Some (tp_instructions p) \<and>
     frame_num_instructions (tf_instructions f) = of_nat (length (tp_instructions p)) \<and>
     length (tp_instructions p) < 2 ^ 16 \<and>
     frame_lookups f bs = tp_lookups p \<and>
     unat (al_num (tf_address_table_lookup f)) = length (tp_lookups p)"

lemma chunk_region:
  assumes "start + n * sz \<le> length bs"
  shows "concat (chunks sz n (slice bs start (start + n * sz))) = slice bs start (start + n * sz)"
    and "\<forall>c \<in> set (chunks sz n (slice bs start (start + n * sz))). length c = sz"
proof -
  have len: "length (slice bs start (start + n * sz)) = n * sz" using assms by simp
  show "concat (chunks sz n (slice bs start (start + n * sz))) = slice bs start (start + n * sz)"
    by (rule concat_chunks [OF len])
  show "\<forall>c \<in> set (chunks sz n (slice bs start (start + n * sz))). length c = sz"
    by (rule chunks_size [OF len])
qed

lemma legacy_or_v0_sound:
  assumes "try_new_as_legacy_or_v0 bs = Inr f"
  shows "\<exists>p. frame_parts f bs p \<and> bs = wire_legacy_or_v0 p \<and> (tp_version p = Legacy \<or> tp_version p = V0)"
proof -
  obtain sig o1 hdr o2 keys o3 ixs o5 atl where r:
    "signature_try_new bs 0 = Inr (sig, o1)" "header_try_new_legacy_or_v0 bs o1 = Inr (hdr, o2)"
    "static_keys_try_new bs o2 = Inr (keys, o3)" "o3 + HASH_SIZE \<le> length bs"
    "try_new_for_legacy_and_v0 bs (o3 + HASH_SIZE) = Inr (ixs, o5)"
    "(if mh_version hdr = V0 then atl_try_new bs o5 else Inr (atl_default, o5)) = Inr (atl, length bs)"
    "f = \<lparr>tf_signature = sig, tf_message_header = hdr, tf_static_account_keys = keys,
            tf_recent_blockhash_offset = o3, tf_instructions = ixs, tf_address_table_lookup = atl,
            tf_transaction_config = not_applicable, tf_data_len = length bs\<rparr>"
    using assms unfolding try_new_as_legacy_or_v0_def by (auto simp: res_bind_Inr read_sound split: if_splits)
  note s1 = signature_try_new_sound [OF r(1)] and s2 = header_try_new_sound [OF r(2)]
    and s3 = static_keys_try_new_sound [OF r(3)] and s4 = legacy_instructions_sound [OF r(5)]
  obtain xs where xs: "iter_collect (instructions_iter ixs bs) = Some xs" "length xs < 2 ^ 16"
      "frame_num_instructions ixs = of_nat (length xs)"
      "slice bs (o3 + HASH_SIZE) o5 = shortvec (of_nat (length xs)) @ concat (map wire_ix xs)"
    using s4 by blast
  let ?ls = "atl_take (unat (al_num atl)) \<lparr>ai_bytes = bs, ai_offset = al_offset atl, ai_num = al_num atl, ai_index = 0\<rparr>"
  have at: "o5 \<le> length bs \<and> length ?ls = unat (al_num atl) \<and> slice bs o5 (length bs) =
      (if mh_version hdr = V0 then [of_nat (length ?ls)] @ concat (map wire_lookup ?ls) else [])"
  proof (cases "mh_version hdr = V0")
    case True
    then have "atl_try_new bs o5 = Inr (atl, length bs)" using r(6) by simp
    from atl_try_new_sound [OF this] True show ?thesis by auto
  next
    case False
    then have "atl = atl_default" "o5 = length bs" using r(6) by simp_all
    then show ?thesis using False by (simp add: atl_default_def)
  qed
  define ls where "ls = ?ls"
  let ?ns = "unat (sf_num_signatures sig)" and ?nk = "unat (sk_num_static_accounts keys)"
  define sigs where "sigs = chunks SIGNATURE_SIZE ?ns (slice bs 1 o1)"
  define ks where "ks = chunks PUBKEY_SIZE ?nk (slice bs (o2 + 1) o3)"
  let ?p = "\<lparr>tp_version = mh_version hdr, tp_signatures = sigs,
    tp_header = (mh_num_required_signatures hdr, mh_num_readonly_signed_accounts hdr, mh_num_readonly_unsigned_accounts hdr),
    tp_keys = ks, tp_blockhash = slice bs o3 (o3 + HASH_SIZE), tp_instructions = xs, tp_lookups = ls,
    tp_mask = [], tp_config = []\<rparr>"
  have f: "tf_signature f = sig" "tf_message_header f = hdr" "tf_static_account_keys f = keys"
      "tf_recent_blockhash_offset f = o3" "tf_instructions f = ixs" "tf_address_table_lookup f = atl"
    unfolding r(7) by simp_all
  have "frame_signatures f bs = Some sigs" "frame_static_account_keys f bs = Some ks"
      "frame_recent_blockhash f bs = Some (slice bs o3 (o3 + HASH_SIZE))"
    using s1 s3 r(4) by (simp_all add: frame_signatures_def frame_static_account_keys_def
        frame_recent_blockhash_def slice_opt_def Let_def sigs_def ks_def f)
  moreover have "frame_instructions f bs = Some xs" "frame_lookups f bs = ls" "length ls = unat (al_num atl)"
    using xs(1) at by (simp_all add: frame_instructions_def frame_lookups_def atl_iter_def ls_def f)
  ultimately have "frame_parts f bs ?p"
    using xs(2,3) by (simp add: frame_parts_def f)
  moreover have "bs = wire_legacy_or_v0 ?p"
  proof -
    have len: "length sigs = ?ns" "length ks = ?nk" by (simp_all add: sigs_def ks_def)
    have "slice bs 0 1 = [sf_num_signatures sig]" "slice bs o2 (o2 + 1) = [sk_num_static_accounts keys]"
      using s1 s3 slice_Suc [of 0 bs] slice_Suc [of o2 bs] by simp_all
    then have byte: "slice bs 0 1 = [of_nat (length sigs)]" "slice bs o2 (o2 + 1) = [of_nat (length ks)]"
      unfolding len by simp_all
    have region: "slice bs 1 o1 = concat sigs" "slice bs (o2 + 1) o3 = concat ks"
      using s1 s3 chunk_region(1) [of 1 ?ns SIGNATURE_SIZE bs] chunk_region(1) [of "o2 + 1" ?nk PUBKEY_SIZE bs]
      by (simp_all add: sigs_def ks_def)
    have hd: "slice bs o1 o2 = header_bytes hdr" using s2 by blast
    have tl: "slice bs o5 (length bs) =
        (if mh_version hdr = V0 then [of_nat (length ls)] @ concat (map wire_lookup ls) else [])"
      using at unfolding ls_def by blast
    have ord: "1 \<le> o1" "o1 \<le> o2" "o2 + 1 \<le> o3" "o3 + HASH_SIZE \<le> o5" "o5 \<le> length bs"
      using s1 s2 s3 s4 at by simp_all
    have "bs = windows bs 0 [1, o1, o2, o2 + 1, o3, o3 + HASH_SIZE, o5, length bs]"
      using ord by (subst windows_eq) simp_all
    also have "\<dots> = wire_legacy_or_v0 ?p"
      unfolding windows.simps byte region xs(4) hd tl
      by (simp add: wire_legacy_or_v0_def wire_header_def header_bytes_def)
    finally show ?thesis .
  qed
  ultimately show ?thesis using s2 by (intro exI [of _ ?p]) simp
qed

section \<open>Version 1\<close>

lemma read_v1_header_ok:
  assumes "hoff + 4 \<le> length bs"
  shows "\<exists>h. read_v1_header bs hoff = Some (h, hoff + 4) \<and>
    slice bs hoff (hoff + 4) = [vh_program_id_index h, vh_num_accounts h] @ nat_le 2 (unat (vh_data_len h))"
proof -
  have "length (slice bs hoff (hoff + 4)) = 4" using assms by simp
  then obtain a b c d where raw: "slice bs hoff (hoff + 4) = [a, b, c, d]"
    by (auto simp: length_Suc_conv numeral_eq_Suc)
  have "le_nat [c, d] < 2 ^ 16" using le_nat_bound [of "[c, d]"] by simp
  then have "unat (of_nat (le_nat [c, d]) :: u16) = le_nat [c, d]"
    by (simp only: unat_of_nat take_bit_eq_mod len16) simp
  then have dl: "nat_le 2 (unat (of_nat (le_nat [c, d]) :: u16)) = [c, d]"
    using nat_le_le_nat [of "[c, d]"] by (simp only: list.size) (simp add: numeral_2_eq_2)
  have sl: "slice [a, b, c, d] 2 4 = [c, d]" by (simp add: slice_def)
  show ?thesis
    using assms dl unfolding read_v1_header_def unchecked_copy_value_def V1_HEADER_SIZE_def
    by (simp add: slice_opt_def raw sl)
qed

lemma v1_payload_len_defined:
  "hoff + 4 * k \<le> length bs \<Longrightarrow> v1_payload_len k bs hoff acc \<noteq> None"
proof (induction k arbitrary: hoff acc)
  case (Suc k)
  obtain h where "read_v1_header bs hoff = Some (h, hoff + 4)"
    using read_v1_header_ok [of hoff bs] Suc.prems by auto
  then show ?case using Suc.IH [of "hoff + 4"] Suc.prems by (auto simp: obind_None)
qed simp

lemma iter_next_v1:
  assumes "i < num" "read_v1_header bs hoff = Some (h, hoff + 4)"
    "poff + unat (vh_num_accounts h) + unat (vh_data_len h) \<le> length bs"
  shows "iter_next (V1Iter bs i num hoff poff) =
    Some (Some \<lparr>ix_program_id_index = vh_program_id_index h,
        ix_accounts = slice bs poff (poff + unat (vh_num_accounts h)),
        ix_data = slice bs (poff + unat (vh_num_accounts h)) (poff + unat (vh_num_accounts h) + unat (vh_data_len h))\<rparr>,
      V1Iter bs (i + 1) num (hoff + 4) (poff + unat (vh_num_accounts h) + unat (vh_data_len h)))"
  using assms by (simp add: for_v1_def unchecked_read_slice_data_def slice_opt_def)

lemma v1_payload_sound:
  assumes "v1_payload_len k bs hoff acc = Some (Inr tot)" "hoff + 4 * k \<le> length bs"
  shows "acc \<le> tot \<and> (\<forall>poff num i. poff + (tot - acc) \<le> length bs \<and> unat num = unat i + k \<longrightarrow>
    (\<exists>ixs. length ixs = k \<and> iter_collect (V1Iter bs i num hoff poff) = Some ixs \<and>
       slice bs hoff (hoff + 4 * k) = concat (map wire_v1_header ixs) \<and>
       slice bs poff (poff + (tot - acc)) = concat (map wire_v1_payload ixs)))"
  using assms
proof (induction k arbitrary: hoff acc)
  case 0
  have "iter_collect (V1Iter bs i num hoff poff) = Some []" if "unat num = unat i" for i num poff
    using that iter_collect_stop [of "V1Iter bs i num hoff poff"] by (simp add: word_le_nat_alt)
  then show ?case using 0 by simp
next
  case (Suc k)
  obtain h where h: "read_v1_header bs hoff = Some (h, hoff + 4)"
    "slice bs hoff (hoff + 4) = [vh_program_id_index h, vh_num_accounts h] @ nat_le 2 (unat (vh_data_len h))"
    using read_v1_header_ok [of hoff bs] Suc.prems by auto
  let ?na = "unat (vh_num_accounts h)" and ?nd = "unat (vh_data_len h)"
  have rest: "v1_payload_len k bs (hoff + 4) (acc + (?na + ?nd)) = Some (Inr tot)"
    using Suc.prems(1) h(1) by (auto simp: obind_Inr)
  have fit: "hoff + 4 + 4 * k \<le> length bs" using Suc.prems(2) by simp
  note IH = Suc.IH [OF rest fit]
  show ?case
  proof (intro conjI allI impI; (elim conjE)?)
    show "acc \<le> tot" using IH by simp
    fix poff and num i :: u16
    assume p: "poff + (tot - acc) \<le> length bs" and n: "unat num = unat i + Suc k"
    let ?p1 = "poff + ?na" and ?p2 = "poff + ?na + ?nd"
    let ?ix = "\<lparr>ix_program_id_index = vh_program_id_index h, ix_accounts = slice bs poff ?p1, ix_data = slice bs ?p1 ?p2\<rparr>"
    have i1: "unat (i + 1) = unat i + 1" using n by (intro unat_suc_u16 [of _ num]) simp
    have d: "tot - (acc + (?na + ?nd)) + (?na + ?nd) = tot - acc" using IH by simp
    obtain ixs where ixs: "length ixs = k" "iter_collect (V1Iter bs (i + 1) num (hoff + 4) ?p2) = Some ixs"
        "slice bs (hoff + 4) (hoff + 4 + 4 * k) = concat (map wire_v1_header ixs)"
        "slice bs ?p2 (poff + (tot - acc)) = concat (map wire_v1_payload ixs)"
    proof -
      have "?p2 + (tot - (acc + (?na + ?nd))) = poff + (tot - acc)" using d by simp
      moreover have "unat num = unat (i + 1) + k" using n i1 by simp
      ultimately show ?thesis using IH that p by metis
    qed
    have p2: "?p2 \<le> poff + (tot - acc)" using d by linarith
    have "iter_next (V1Iter bs i num hoff poff) = Some (Some ?ix, V1Iter bs (i + 1) num (hoff + 4) ?p2)"
      using p p2 n by (intro iter_next_v1 h(1)) (simp_all add: word_less_nat_alt)
    then have "iter_collect (V1Iter bs i num hoff poff) = Some (?ix # ixs)"
      using ixs(2) by (rule iter_collect_step)
    moreover have "slice bs hoff (hoff + 4) = wire_v1_header ?ix"
      using h(2) p p2 by (simp add: wire_v1_header_def)
    then have "slice bs hoff (hoff + 4 * Suc k) = concat (map wire_v1_header (?ix # ixs))"
      using slice_step [OF _ ixs(3), of hoff] by (simp add: add.assoc)
    moreover have "slice bs poff ?p2 = wire_v1_payload ?ix"
      by (simp add: wire_v1_payload_def slice_append)
    then have "slice bs poff (poff + (tot - acc)) = concat (map wire_v1_payload (?ix # ixs))"
      using slice_step [OF _ ixs(4), of poff] p2 by simp
    ultimately show "\<exists>ixs. length ixs = Suc k \<and> iter_collect (V1Iter bs i num hoff poff) = Some ixs \<and>
        slice bs hoff (hoff + 4 * Suc k) = concat (map wire_v1_header ixs) \<and>
        slice bs poff (poff + (tot - acc)) = concat (map wire_v1_payload ixs)"
      using ixs(1) by (intro exI [of _ "?ix # ixs"]) simp
  qed
qed

lemma try_new_for_v1_defined [simp]: "try_new_for_v1 num bs off \<noteq> None"
  using v1_payload_len_defined [of off "unat num" bs 0]
  by (auto simp: try_new_for_v1_def obind_None Let_def check_remaining_Inr V1_HEADER_SIZE_def)

lemma try_new_for_v1_sound:
  assumes "try_new_for_v1 num bs off = Some (Inr (fr, off'))"
  shows "\<exists>ixs mid. off \<le> mid \<and> mid \<le> off' \<and> off' \<le> length bs \<and> length ixs = unat num \<and>
    iter_collect (instructions_iter fr bs) = Some ixs \<and> frame_num_instructions fr = of_nat (length ixs) \<and>
    slice bs off mid = concat (map wire_v1_header ixs) \<and> slice bs mid off' = concat (map wire_v1_payload ixs)"
proof -
  let ?mid = "off + 4 * unat num"
  obtain tot where r: "?mid \<le> length bs" "v1_payload_len (unat num) bs off 0 = Some (Inr tot)"
      "?mid + tot \<le> length bs" "off' = ?mid + tot" "fr = V1Frame (ucast num) off ?mid"
    using assms
    by (auto simp: try_new_for_v1_def obind_Inr Let_def check_remaining_Inr V1_HEADER_SIZE_def)
  have u: "unat (ucast num :: u16) = unat num"
    using unat_u8_less [of num] by (simp add: unsigned_ucast_eq take_bit_eq_mod)
  obtain ixs where "length ixs = unat num" "iter_collect (V1Iter bs 0 (ucast num) off ?mid) = Some ixs"
      "slice bs off ?mid = concat (map wire_v1_header ixs)"
      "slice bs ?mid (?mid + tot) = concat (map wire_v1_payload ixs)"
  proof -
    have "?mid + (tot - 0) \<le> length bs \<and> unat (ucast num :: u16) = unat (0 :: u16) + unat num"
      using r(3) u by simp
    from v1_payload_sound [OF r(2,1), THEN conjunct2, rule_format, OF this] show ?thesis
      using that unfolding diff_zero by blast
  qed
  then show ?thesis
    using r by (intro exI [of _ ixs] exI [of _ ?mid]) (simp add: instructions_iter_def frame_num_instructions_def)
qed

lemma config_try_new_sound:
  assumes "config_try_new mo msk bs off = Some (Inr (c, off'))"
  shows "cf_mask_offset c = mo \<and> mo \<noteq> 0 \<and> cf_mask c = msk \<and> cf_values_offset c = off \<and>
    cf_num_values c = of_nat (count_ones msk) \<and> sanitize_mask msk = Inr () \<and>
    off' = off + unat (cf_num_values c) * 4 \<and> off' \<le> length bs"
  using assms
  by (auto simp: config_try_new_def res_bind_Inr Let_def read_sound split: if_splits)

lemma config_try_new_None [simp]: "config_try_new mo msk bs off = None \<longleftrightarrow> mo = 0"
  by (simp add: config_try_new_def)

lemma try_new_as_v1_defined: "try_new_as_v1 v1_prefix bs \<noteq> None"
proof (cases "check_remaining bs 0 FIXED_V1_PREFIX_LEN")
  case (Inl e)
  then show ?thesis by (simp add: try_new_as_v1_def obind_def lift_checked_def)
next
  case (Inr u)
  then have len: "42 \<le> length bs" by (simp add: check_remaining_Inr FIXED_V1_PREFIX_LEN_def HASH_SIZE_def)
  have rb: "unchecked_read_byte bs k = Some (bs ! k, k + 1)" if "k < 42" for k
    using len that by (simp add: unchecked_read_byte_def nth_opt_def)
  have cp: "unchecked_copy_value 4 bs 4 = Some (slice bs 4 8)"
    using len by (simp add: unchecked_copy_value_def slice_opt_def)
  show ?thesis
    unfolding try_new_as_v1_def Let_def
    by (auto simp: obind_None rb cp HASH_SIZE_def simp del: One_nat_def not_None_eq split: if_splits)
qed

lemma try_new_as_v1_sound:
  assumes "try_new_as_v1 v1_prefix bs = Some (Inr f)"
  shows "\<exists>p. frame_parts f bs p \<and> bs = wire_v1 v1_prefix p \<and> (tp_version p = V1 \<or> tp_version p = Magicblock)"
proof -
  obtain version nix naddr o1 cfg o2 ixs o3 where r:
    "42 \<le> length bs" "v1_version v1_prefix (bs ! 0) = Inr version"
    "nix = bs ! 40" "naddr = bs ! 41" "o1 = 42 + unat naddr * PUBKEY_SIZE" "o1 \<le> length bs"
    "config_try_new 4 (of_nat (le_nat (slice bs 4 8))) bs o1 = Some (Inr (cfg, o2))"
    "try_new_for_v1 nix bs o2 = Some (Inr (ixs, o3))"
    "o3 + unat (bs ! 1) * SIGNATURE_SIZE = length bs"
    "f = \<lparr>tf_signature = \<lparr>sf_num_signatures = bs ! 1, sf_offset = o3\<rparr>,
          tf_message_header = \<lparr>mh_offset = 0, mh_version = version, mh_num_required_signatures = bs ! 1,
            mh_num_readonly_signed_accounts = bs ! 2, mh_num_readonly_unsigned_accounts = bs ! 3\<rparr>,
          tf_static_account_keys = \<lparr>sk_num_static_accounts = naddr, sk_offset = 42\<rparr>,
          tf_recent_blockhash_offset = 8, tf_instructions = ixs, tf_address_table_lookup = atl_default,
          tf_transaction_config = cfg, tf_data_len = length bs\<rparr>"
    using assms unfolding try_new_as_v1_def Let_def
    by (auto simp: obind_Inr check_remaining_Inr FIXED_V1_PREFIX_LEN_def HASH_SIZE_def unchecked_read_byte_def
        unchecked_copy_value_def read_sound bind_eq_Some_conv simp del: One_nat_def split: if_splits)
  note c = config_try_new_sound [OF r(7)]
  obtain xs mid where xs: "o2 \<le> mid" "mid \<le> o3" "o3 \<le> length bs" "length xs = unat nix"
      "iter_collect (instructions_iter ixs bs) = Some xs" "frame_num_instructions ixs = of_nat (length xs)"
      "slice bs o2 mid = concat (map wire_v1_header xs)" "slice bs mid o3 = concat (map wire_v1_payload xs)"
    using try_new_for_v1_sound [OF r(8)] by blast
  define sigs where "sigs = chunks SIGNATURE_SIZE (unat (bs ! 1)) (slice bs o3 (length bs))"
  define ks where "ks = chunks PUBKEY_SIZE (unat naddr) (slice bs 42 o1)"
  let ?p = "\<lparr>tp_version = version, tp_signatures = sigs, tp_header = (bs ! 1, bs ! 2, bs ! 3),
    tp_keys = ks, tp_blockhash = slice bs 8 40, tp_instructions = xs, tp_lookups = [],
    tp_mask = slice bs 4 8, tp_config = slice bs o1 o2\<rparr>"
  have ver: "bs ! 0 = version_byte v1_prefix version" "version = V1 \<or> version = Magicblock"
    using r(2) by (auto simp: v1_version_def version_byte_def split: if_splits)
  have f: "frame_signatures f bs = Some sigs" "frame_static_account_keys f bs = Some ks"
      "frame_recent_blockhash f bs = Some (slice bs 8 40)" "frame_instructions f bs = Some xs"
      "frame_lookups f bs = []" "al_num (tf_address_table_lookup f) = 0"
    using r(1,5,6,9) xs(5) by (simp_all add: r(10) frame_signatures_def frame_static_account_keys_def
        frame_recent_blockhash_def frame_instructions_def frame_lookups_def slice_opt_def Let_def sigs_def ks_def
        HASH_SIZE_def atl_default_def)
  have "length xs < 2 ^ 16" using xs(4) unat_u8_less [of nix] by simp
  then have "frame_parts f bs ?p"
    using f xs(6) by (simp add: frame_parts_def r(10))
  moreover have "bs = wire_v1 v1_prefix ?p"
  proof -
    have len: "length sigs = unat (bs ! 1)" "length ks = unat naddr" by (simp_all add: sigs_def ks_def)
    have byte: "slice bs k (k + 1) = [bs ! k]" if "k < 42" for k
      using slice_Suc [of k bs] r(1) that by simp
    have region: "slice bs o3 (length bs) = concat sigs" "slice bs 42 o1 = concat ks"
      using r(5,6,9) chunk_region(1) [of o3 "unat (bs ! 1)" SIGNATURE_SIZE bs]
        chunk_region(1) [of 42 "unat naddr" PUBKEY_SIZE bs] by (simp_all add: sigs_def ks_def)
    have ord: "42 \<le> o1" "o1 \<le> o2" using r(5) c by simp_all
    have "bs = windows bs 0 [0 + 1, 1 + 1, 2 + 1, 3 + 1, 8, 40, 40 + 1, 41 + 1, o1, o2, mid, o3, length bs]"
      using ord xs(1-3) by (subst windows_eq) simp_all
    also have "\<dots> = [bs ! 0] @ [bs ! 1] @ [bs ! 2] @ [bs ! 3] @ slice bs 4 8 @ slice bs 8 40 @ [bs ! 40] @ [bs ! 41] @
        concat ks @ slice bs o1 o2 @ concat (map wire_v1_header xs) @ concat (map wire_v1_payload xs) @ concat sigs"
      using byte [of 0] byte [of 1] byte [of 2] byte [of 3] byte [of 40] byte [of 41]
      by (simp add: region xs(7,8) del: One_nat_def)
    also have "\<dots> = wire_v1 v1_prefix ?p"
      unfolding ver(1) using r(3,4) xs(4) len(2) by (simp add: wire_v1_def wire_header_def)
    finally show ?thesis .
  qed
  ultimately show ?thesis using ver(2) by (intro exI [of _ ?p]) simp
qed

lemma frame_parse_parts:
  assumes "frame_try_new v1_prefix bs = Some (Inr f)"
  shows "\<exists>p. frame_parts f bs p \<and>
    bs = (case tp_version p of Legacy \<Rightarrow> wire_legacy_or_v0 p | V0 \<Rightarrow> wire_legacy_or_v0 p
          | V1 \<Rightarrow> wire_v1 v1_prefix p | Magicblock \<Rightarrow> wire_v1 v1_prefix p)"
proof -
  consider "try_new_as_legacy_or_v0 bs = Inr f" | "try_new_as_v1 v1_prefix bs = Some (Inr f)"
    using assms by (auto simp: frame_try_new_def obind_Inr split: if_splits)
  then show ?thesis
  proof cases
    case 1
    from legacy_or_v0_sound [OF this] obtain p where "frame_parts f bs p" "bs = wire_legacy_or_v0 p"
      "tp_version p = Legacy \<or> tp_version p = V0" by blast
    then show ?thesis by (intro exI [of _ p] conjI) (elim disjE; simp)+
  next
    case 2
    from try_new_as_v1_sound [OF this] obtain p where "frame_parts f bs p" "bs = wire_v1 v1_prefix p"
      "tp_version p = V1 \<or> tp_version p = Magicblock" by blast
    then show ?thesis by (intro exI [of _ p] conjI) (elim disjE; simp)+
  qed
qed

section \<open>Properties of the parser\<close>

text \<open>
  C8. The parser never reads out of bounds and never panics: for every buffer and whatever the
  version byte of v1 messages is, it returns a frame or an error. The reads it makes without
  bounds checks are all covered by the checks before them.
\<close>

theorem frame_try_new_defined: "frame_try_new v1_prefix bs \<noteq> None"
  using try_new_as_v1_defined by (auto simp: frame_try_new_def obind_None simp del: not_None_eq split: if_splits)


definition sample_tx :: bytes where
  "sample_tx = [1] @ replicate 64 7 @ [1, 0, 0] @ [2] @ replicate 32 5 @ replicate 32 6 @ replicate 32 9 @ [1] @
     [1, 1, 0, 2, 8, 8]"

lemma sample_tx_nth:
  "sample_tx ! 0 = 1" "sample_tx ! 65 = 1" "sample_tx ! 66 = 0" "sample_tx ! 67 = 0" "sample_tx ! 68 = 2"
  "sample_tx ! 165 = 1" "sample_tx ! 166 = 1" "sample_tx ! 167 = 1" "sample_tx ! 168 = 0" "sample_tx ! 169 = 2"
  "length sample_tx = 172"
  by (simp_all add: sample_tx_def nth_append)

lemmas parse_eval = ok_or_def ensure_def try_u32_offset_def u32_bound_def usize_bound_def nth_opt_def checked_add_def
  checked_mul_def check_remaining_def read_byte_def advance_offset_for_array_def advance_offset_for_type_def
  SIGNATURE_SIZE_def PUBKEY_SIZE_def HASH_SIZE_def PACKET_DATA_SIZE_def MESSAGE_VERSION_PREFIX_def

lemma sample_tx_compact:
  "read_compressed_u16 sample_tx 165 = Inr (1, 166)" "read_compressed_u16 sample_tx 167 = Inr (1, 168)"
  "read_compressed_u16 sample_tx 169 = Inr (2, 170)"
  by (simp_all add: read_compressed_u16_one sample_tx_nth usize_bound_def group1_def)

lemma sample_tx_instructions:
  "try_new_for_legacy_and_v0 sample_tx 165 = Inr (LegacyAndV0Frame 1 166
     [\<lparr>lf_num_accounts = 1, lf_data_len = 2, lf_num_accounts_len = 1, lf_data_len_len = 1\<rparr>], 172)"
  by (simp add: try_new_for_legacy_and_v0_def sample_tx_compact legacy_instruction_try_new_def sample_tx_nth
      u8_try_from_def checked_sub_def parse_eval)

lemma sample_tx_accepted: "\<exists>f. frame_try_new 0x81 sample_tx = Some (Inr f) \<and> mh_version (tf_message_header f) = Legacy"
  by (simp add: frame_try_new_def obind_def lift_checked_def is_legacy_or_v0_def try_new_as_legacy_or_v0_def
      signature_try_new_def header_try_new_legacy_or_v0_def static_keys_try_new_def sample_tx_nth
      MAX_SIGNATURES_PER_PACKET_def LEGACY_OR_V0_MAX_STATIC_ACCOUNTS_PER_PACKET_def sample_tx_instructions parse_eval)


end
