(* ===== verification/Tx_Sanitize.thy ===== *)
theory Tx_Sanitize
  imports Tx_Parse
begin

text \<open>
  Sanitization and resolution of transaction views: \<^verbatim>\<open>sanitize.rs\<close>, the view accessors of
  \<^verbatim>\<open>transaction_view.rs\<close> that rely on it, and the writability cache of
  \<^verbatim>\<open>resolved_transaction_view.rs\<close>. The minimum heap size and the id of the upgradeable loader are
  constants of other crates and appear as the parameters \<open>min_heap\<close> and \<open>loader_id\<close>.
\<close>

section \<open>Views\<close>

record transaction_view =
  tv_data :: bytes
  tv_frame :: transaction_frame

definition try_new_unsanitized :: "u8 \<Rightarrow> bytes \<Rightarrow> transaction_view outcome" where
  "try_new_unsanitized v1_prefix bs =
     obind (frame_try_new v1_prefix bs) (\<lambda>f. lift_checked (Inr \<lparr>tv_data = bs, tv_frame = f\<rparr>))"

definition num_signatures :: "transaction_view \<Rightarrow> u8" where
  "num_signatures v = sf_num_signatures (tf_signature (tv_frame v))"

definition view_version :: "transaction_view \<Rightarrow> transaction_version" where
  "view_version v = mh_version (tf_message_header (tv_frame v))"

definition num_required_signatures :: "transaction_view \<Rightarrow> u8" where
  "num_required_signatures v = mh_num_required_signatures (tf_message_header (tv_frame v))"

definition num_readonly_signed_static_accounts :: "transaction_view \<Rightarrow> u8" where
  "num_readonly_signed_static_accounts v = mh_num_readonly_signed_accounts (tf_message_header (tv_frame v))"

definition num_readonly_unsigned_static_accounts :: "transaction_view \<Rightarrow> u8" where
  "num_readonly_unsigned_static_accounts v = mh_num_readonly_unsigned_accounts (tf_message_header (tv_frame v))"

definition num_static_account_keys :: "transaction_view \<Rightarrow> u8" where
  "num_static_account_keys v = sk_num_static_accounts (tf_static_account_keys (tv_frame v))"

definition num_instructions :: "transaction_view \<Rightarrow> u16" where
  "num_instructions v = frame_num_instructions (tf_instructions (tv_frame v))"

definition num_address_table_lookups :: "transaction_view \<Rightarrow> u8" where
  "num_address_table_lookups v = al_num (tf_address_table_lookup (tv_frame v))"

definition total_writable_lookup_accounts :: "transaction_view \<Rightarrow> u16" where
  "total_writable_lookup_accounts v = al_total_writable (tf_address_table_lookup (tv_frame v))"

definition total_readonly_lookup_accounts :: "transaction_view \<Rightarrow> u16" where
  "total_readonly_lookup_accounts v = al_total_readonly (tf_address_table_lookup (tv_frame v))"

definition signatures :: "transaction_view \<Rightarrow> bytes list option" where
  "signatures v = frame_signatures (tv_frame v) (tv_data v)"

definition static_account_keys :: "transaction_view \<Rightarrow> pubkey list option" where
  "static_account_keys v = frame_static_account_keys (tv_frame v) (tv_data v)"

definition view_instructions :: "transaction_view \<Rightarrow> svm_instruction list option" where
  "view_instructions v = frame_instructions (tv_frame v) (tv_data v)"

definition view_config :: "transaction_view \<Rightarrow> transaction_config_frame option" where
  "view_config v = (let c = tf_transaction_config (tv_frame v) in if is_present c then Some c else None)"

definition message_data :: "transaction_view \<Rightarrow> bytes option" where
  "message_data v = (let (a, b) = message_range (tv_frame v) in slice_opt (tv_data v) a b)"

section \<open>Sanitization\<close>

definition USE_STATIC_ACCOUNT_KEYS_SET_SIZE :: nat where "USE_STATIC_ACCOUNT_KEYS_SET_SIZE = 32"
definition MAGICBLOCK_INSTRUCTION_TRACE_LENGTH :: nat where "MAGICBLOCK_INSTRUCTION_TRACE_LENGTH = 255"
definition MAX_STANDARD_TRANSACTION_SIZE :: nat where "MAX_STANDARD_TRANSACTION_SIZE = 65535"
definition MAX_MAGICBLOCK_TRANSACTION_SIZE :: nat where "MAX_MAGICBLOCK_TRANSACTION_SIZE = 16 * 1024 * 1024"
definition MAX_MAGICBLOCK_ACCOUNT_LOCKS :: nat where "MAX_MAGICBLOCK_ACCOUNT_LOCKS = 255"
definition MAX_INSTRUCTION_TRACE_LENGTH :: nat where "MAX_INSTRUCTION_TRACE_LENGTH = 64"
definition MAX_ACCOUNTS_PER_INSTRUCTION :: nat where "MAX_ACCOUNTS_PER_INSTRUCTION = 255"
definition MAX_HEAP_FRAME_BYTES :: nat where "MAX_HEAP_FRAME_BYTES = 256 * 1024"

definition sanitize_transaction_size :: "transaction_view \<Rightarrow> tx_error + unit" where
  "sanitize_transaction_size v =
     (let max_size = (case view_version v of Magicblock \<Rightarrow> MAX_MAGICBLOCK_TRANSACTION_SIZE
                      | _ \<Rightarrow> MAX_STANDARD_TRANSACTION_SIZE) in
      if length (tv_data v) > max_size then Inl SanitizeError else Inr ())"

definition sanitize_message_header :: "transaction_view \<Rightarrow> tx_error + unit" where
  "sanitize_message_header v =
     (if num_required_signatures v < 1 then Inl SanitizeError
      else if num_readonly_signed_static_accounts v \<ge> num_required_signatures v then Inl SanitizeError
      else if num_readonly_unsigned_static_accounts v > num_static_account_keys v - num_required_signatures v
      then Inl SanitizeError
      else Inr ())"

definition sanitize_config :: "nat \<Rightarrow> transaction_view \<Rightarrow> unit outcome" where
  "sanitize_config min_heap v =
     (case view_config v of
        None \<Rightarrow> lift_checked (Inr ())
      | Some c \<Rightarrow>
          obind (lift_unchecked (requested_heap_size c (tv_data v))) (\<lambda>req.
          case req of
            None \<Rightarrow> lift_checked (Inr ())
          | Some heap \<Rightarrow>
              if \<not> (min_heap \<le> heap \<and> heap \<le> MAX_HEAP_FRAME_BYTES) \<or> \<not> 1024 dvd heap
              then lift_checked (Inl SanitizeError) else lift_checked (Inr ())))"

definition sanitize_signatures :: "transaction_view \<Rightarrow> tx_error + unit" where
  "sanitize_signatures v =
     (if num_signatures v \<noteq> num_required_signatures v then Inl SanitizeError
      else if num_signatures v > MAX_SIGNATURES_PER_PACKET then Inl SanitizeError
      else if num_static_account_keys v < num_signatures v then Inl SanitizeError
      else Inr ())"

definition u16_saturating_add :: "nat \<Rightarrow> nat \<Rightarrow> nat" where
  "u16_saturating_add a b = min (a + b) 65535"

definition total_number_of_accounts :: "transaction_view \<Rightarrow> nat" where
  "total_number_of_accounts v =
     u16_saturating_add (u16_saturating_add (unat (num_static_account_keys v)) (unat (total_writable_lookup_accounts v)))
       (unat (total_readonly_lookup_accounts v))"

text \<open>
  The two duplicate checks: insertion into the thread-local set, which is left empty again, and
  comparison of each key with the later ones.
\<close>

fun any_duplicate_insert :: "pubkey list \<Rightarrow> pubkey set \<Rightarrow> bool \<times> pubkey set" where
  "any_duplicate_insert [] seen = (False, seen)"
| "any_duplicate_insert (k # ks) seen =
     (if k \<in> seen then (True, seen) else any_duplicate_insert ks (insert k seen))"

fun any_duplicate_later :: "pubkey list \<Rightarrow> bool" where
  "any_duplicate_later [] = False"
| "any_duplicate_later (k # ks) = (k \<in> set ks \<or> any_duplicate_later ks)"

definition has_duplicates :: "pubkey list \<Rightarrow> bool" where
  "has_duplicates keys =
     (if length keys \<ge> USE_STATIC_ACCOUNT_KEYS_SET_SIZE then fst (any_duplicate_insert keys {})
      else any_duplicate_later keys)"

definition sanitize_account_access :: "transaction_view \<Rightarrow> unit outcome" where
  "sanitize_account_access v =
     (let limit = (case view_version v of Legacy \<Rightarrow> 256 | V0 \<Rightarrow> 256 | V1 \<Rightarrow> 64
                   | Magicblock \<Rightarrow> MAX_MAGICBLOCK_ACCOUNT_LOCKS) in
      if total_number_of_accounts v > limit then lift_checked (Inl SanitizeError)
      else
        obind (lift_unchecked (static_account_keys v)) (\<lambda>keys.
        if has_duplicates keys then lift_checked (Inl SanitizeError) else lift_checked (Inr ())))"

fun sanitize_instruction_list :: "u8 \<Rightarrow> u8 \<Rightarrow> bool \<Rightarrow> svm_instruction list \<Rightarrow> tx_error + unit" where
  "sanitize_instruction_list max_pid max_acc lim [] = Inr ()"
| "sanitize_instruction_list max_pid max_acc lim (ix # ixs) =
     (if ix_program_id_index ix > max_pid then Inl SanitizeError
      else if ix_program_id_index ix = 0 then Inl SanitizeError
      else if \<exists>a \<in> set (ix_accounts ix). a > max_acc then Inl SanitizeError
      else if lim \<and> length (ix_accounts ix) > MAX_ACCOUNTS_PER_INSTRUCTION then Inl SanitizeError
      else sanitize_instruction_list max_pid max_acc lim ixs)"

definition sanitize_instructions :: "transaction_view \<Rightarrow> bool \<Rightarrow> unit outcome" where
  "sanitize_instructions v lim =
     (let limit = (case view_version v of Magicblock \<Rightarrow> MAGICBLOCK_INSTRUCTION_TRACE_LENGTH
                   | _ \<Rightarrow> MAX_INSTRUCTION_TRACE_LENGTH) in
      if unat (num_instructions v) > limit then lift_checked (Inl SanitizeError)
      else
        let max_pid = num_static_account_keys v - 1;
            max_acc = (ucast ((of_nat (total_number_of_accounts v) :: u16) - 1) :: u8) in
        obind (lift_unchecked (view_instructions v)) (\<lambda>ixs.
        lift_checked (sanitize_instruction_list max_pid max_acc lim ixs)))"

definition sanitize_address_table_lookups :: "transaction_view \<Rightarrow> tx_error + unit" where
  "sanitize_address_table_lookups v =
     (if num_address_table_lookups v \<noteq> 0 then Inl AddressLookupMismatch else Inr ())"

definition sanitize :: "nat \<Rightarrow> transaction_view \<Rightarrow> bool \<Rightarrow> unit outcome" where
  "sanitize min_heap v lim =
     obind (lift_checked (sanitize_transaction_size v)) (\<lambda>_.
     obind (lift_checked (sanitize_message_header v)) (\<lambda>_.
     obind (sanitize_config min_heap v) (\<lambda>_.
     obind (lift_checked (sanitize_signatures v)) (\<lambda>_.
     obind (sanitize_account_access v) (\<lambda>_.
     obind (sanitize_instructions v lim) (\<lambda>_.
     lift_checked (sanitize_address_table_lookups v)))))))"

definition try_new_sanitized :: "u8 \<Rightarrow> nat \<Rightarrow> bytes \<Rightarrow> bool \<Rightarrow> transaction_view outcome" where
  "try_new_sanitized v1_prefix min_heap bs lim =
     obind (try_new_unsanitized v1_prefix bs) (\<lambda>v.
     obind (sanitize min_heap v lim) (\<lambda>_. lift_checked (Inr v)))"

section \<open>Accessors of sanitized views\<close>

definition num_static_unsigned_static_accounts :: "transaction_view \<Rightarrow> u8" where
  "num_static_unsigned_static_accounts v = num_static_account_keys v - num_required_signatures v"

definition num_writable_unsigned_static_accounts :: "transaction_view \<Rightarrow> u8" where
  "num_writable_unsigned_static_accounts v =
     num_static_unsigned_static_accounts v - num_readonly_unsigned_static_accounts v"

definition num_writable_signed_static_accounts :: "transaction_view \<Rightarrow> u8" where
  "num_writable_signed_static_accounts v = num_required_signatures v - num_readonly_signed_static_accounts v"

definition total_num_accounts :: "transaction_view \<Rightarrow> u16" where
  "total_num_accounts v =
     ucast (num_static_account_keys v) + total_writable_lookup_accounts v + total_readonly_lookup_accounts v"

definition num_requested_write_locks :: "transaction_view \<Rightarrow> u64" where
  "num_requested_write_locks v =
     ucast ((ucast (num_static_account_keys v - num_readonly_signed_static_accounts v
              - num_readonly_unsigned_static_accounts v) :: u16) + total_writable_lookup_accounts v)"

text \<open>Pairing each instruction with its program id panics when the index is out of range.\<close>

fun pair_programs :: "pubkey list \<Rightarrow> svm_instruction list \<Rightarrow> (pubkey \<times> svm_instruction) list option" where
  "pair_programs keys [] = Some []"
| "pair_programs keys (ix # ixs) = do {
     k \<leftarrow> nth_opt keys (unat (ix_program_id_index ix));
     rest \<leftarrow> pair_programs keys ixs;
     Some ((k, ix) # rest)
   }"

definition program_instructions :: "transaction_view \<Rightarrow> (pubkey \<times> svm_instruction) list option" where
  "program_instructions v = do {
     keys \<leftarrow> static_account_keys v;
     ixs \<leftarrow> view_instructions v;
     pair_programs keys ixs
   }"

definition fee_payer :: "transaction_view \<Rightarrow> pubkey option" where
  "fee_payer v = do { keys \<leftarrow> static_account_keys v; nth_opt keys 0 }"

definition transaction_signature :: "transaction_view \<Rightarrow> bytes option" where
  "transaction_signature v = do { sigs \<leftarrow> signatures v; nth_opt sigs 0 }"

section \<open>Resolved views\<close>

record loaded_addresses =
  la_writable :: "pubkey list"
  la_readonly :: "pubkey list"

record resolved_view =
  rv_view :: transaction_view
  rv_writable_cache :: "u64 list"

definition account_keys :: "pubkey list \<Rightarrow> loaded_addresses option \<Rightarrow> pubkey list" where
  "account_keys keys la = keys @ (case la of None \<Rightarrow> [] | Some a \<Rightarrow> la_writable a @ la_readonly a)"

definition is_requested_write :: "transaction_view \<Rightarrow> nat \<Rightarrow> bool" where
  "is_requested_write v i =
     (let nstatic = unat (num_static_account_keys v); nsigned = unat (num_required_signatures v) in
      if i \<ge> nstatic then i - nstatic < unat (total_writable_lookup_accounts v)
      else if i \<ge> nsigned then i - nsigned < unat (num_writable_unsigned_static_accounts v)
      else i < unat (num_writable_signed_static_accounts v))"

text \<open>\<open>cache[i / 64] |= 1 << (i % 64)\<close> and the test of that bit; the array access panics out of range.\<close>

definition set_cache_bit :: "nat \<Rightarrow> u64 list \<Rightarrow> u64 list option" where
  "set_cache_bit i cache = do {
     w \<leftarrow> nth_opt cache (i div 64);
     Some (cache[i div 64 := w OR push_bit (i mod 64) 1])
   }"

definition clear_cache_bit :: "nat \<Rightarrow> u64 list \<Rightarrow> u64 list option" where
  "clear_cache_bit i cache = do {
     w \<leftarrow> nth_opt cache (i div 64);
     Some (cache[i div 64 := w AND NOT (push_bit (i mod 64) 1)])
   }"

fun cache_requested :: "transaction_view \<Rightarrow> pubkey set \<Rightarrow> nat \<Rightarrow> pubkey list \<Rightarrow> u64 list \<Rightarrow> u64 list option" where
  "cache_requested v reserved i [] cache = Some cache"
| "cache_requested v reserved i (k # ks) cache =
     (if is_requested_write v i \<and> k \<notin> reserved then do {
        cache \<leftarrow> set_cache_bit i cache;
        cache_requested v reserved (Suc i) ks cache
      } else cache_requested v reserved (Suc i) ks cache)"

text \<open>The loop over instructions, with the memoized search for the upgradeable loader.\<close>

fun demote_programs :: "pubkey \<Rightarrow> pubkey list \<Rightarrow> svm_instruction list \<Rightarrow> bool option \<Rightarrow> u64 list \<Rightarrow> u64 list option" where
  "demote_programs loader_id keys [] present cache = Some cache"
| "demote_programs loader_id keys (ix # ixs) present cache = do {
     let i = unat (ix_program_id_index ix);
     w \<leftarrow> nth_opt cache (i div 64);
     if w AND push_bit (i mod 64) 1 \<noteq> 0 then
       (let found = (case present of Some b \<Rightarrow> b | None \<Rightarrow> loader_id \<in> set keys) in
        if \<not> found then do {
          cache \<leftarrow> clear_cache_bit i cache;
          demote_programs loader_id keys ixs (Some found) cache
        } else demote_programs loader_id keys ixs (Some found) cache)
     else demote_programs loader_id keys ixs present cache
   }"

definition cache_is_writable ::
  "pubkey \<Rightarrow> transaction_view \<Rightarrow> loaded_addresses option \<Rightarrow> pubkey set \<Rightarrow> u64 list option" where
  "cache_is_writable loader_id v la reserved = do {
     keys \<leftarrow> static_account_keys v;
     let ks = account_keys keys la;
     cache \<leftarrow> cache_requested v reserved 0 ks [0, 0, 0, 0];
     ixs \<leftarrow> view_instructions v;
     demote_programs loader_id ks ixs None cache
   }"

definition resolved_try_new ::
  "pubkey \<Rightarrow> transaction_view \<Rightarrow> loaded_addresses option \<Rightarrow> pubkey set \<Rightarrow> resolved_view outcome" where
  "resolved_try_new loader_id v la reserved =
     (let mismatch =
        (case la of
           Some a \<Rightarrow> length (la_writable a) \<noteq> unat (total_writable_lookup_accounts v) \<or>
                     length (la_readonly a) \<noteq> unat (total_readonly_lookup_accounts v)
         | None \<Rightarrow> total_writable_lookup_accounts v \<noteq> 0 \<or> total_readonly_lookup_accounts v \<noteq> 0) in
      if mismatch then lift_checked (Inl AddressLookupMismatch)
      else
        obind (lift_unchecked (cache_is_writable loader_id v la reserved)) (\<lambda>cache.
        lift_checked (Inr \<lparr>rv_view = v, rv_writable_cache = cache\<rparr>)))"

definition is_writable :: "resolved_view \<Rightarrow> nat \<Rightarrow> bool" where
  "is_writable rv i =
     (case nth_opt (rv_writable_cache rv) (i div 64) of
        None \<Rightarrow> False
      | Some w \<Rightarrow> w AND push_bit (i mod 64) 1 \<noteq> 0)"

definition is_signer :: "resolved_view \<Rightarrow> nat \<Rightarrow> bool" where
  "is_signer rv i \<longleftrightarrow> i < unat (num_required_signatures (rv_view rv))"

definition is_invoked :: "resolved_view \<Rightarrow> nat \<Rightarrow> bool option" where
  "is_invoked rv i =
     (if i < 256 then do {
        ixs \<leftarrow> view_instructions (rv_view rv);
        Some (\<exists>ix \<in> set ixs. unat (ix_program_id_index ix) = i)
      } else Some False)"

section \<open>The duplicate check\<close>

lemma any_duplicate_insert_iff: "fst (any_duplicate_insert ks seen) \<longleftrightarrow> \<not> distinct ks \<or> set ks \<inter> seen \<noteq> {}"
  by (induction ks seen rule: any_duplicate_insert.induct) auto

lemma any_duplicate_later_iff: "any_duplicate_later ks \<longleftrightarrow> \<not> distinct ks"
  by (induction ks) auto

lemma has_duplicates_iff: "has_duplicates ks \<longleftrightarrow> \<not> distinct ks"
  by (simp add: has_duplicates_def any_duplicate_insert_iff any_duplicate_later_iff)

section \<open>What sanitization guarantees\<close>

text \<open>A view whose frame was parsed from its data: the premise of the unsafe accessors.\<close>

definition view_ok :: "u8 \<Rightarrow> transaction_view \<Rightarrow> bool" where
  "view_ok v1_prefix v \<longleftrightarrow> frame_try_new v1_prefix (tv_data v) = Some (Inr (tv_frame v))"

lemma frame_signatures_length:
  "frame_signatures f bs = Some s \<Longrightarrow> length s = unat (sf_num_signatures (tf_signature f))"
  by (auto simp: frame_signatures_def Let_def bind_eq_Some_conv)

lemma frame_static_account_keys_length:
  "frame_static_account_keys f bs = Some ks \<Longrightarrow> length ks = unat (sk_num_static_accounts (tf_static_account_keys f))"
  by (auto simp: frame_static_account_keys_def Let_def bind_eq_Some_conv)

lemma view_ok_parts:
  assumes "view_ok v1_prefix v"
  obtains sigs keys ixs where "signatures v = Some sigs" "length sigs = unat (num_signatures v)"
    "static_account_keys v = Some keys" "length keys = unat (num_static_account_keys v)"
    "view_instructions v = Some ixs" "length ixs = unat (num_instructions v)"
proof -
  obtain p where p: "frame_parts (tv_frame v) (tv_data v) p"
    using frame_parse_parts [of v1_prefix "tv_data v" "tv_frame v"] assms by (auto simp: view_ok_def)
  then have f: "frame_signatures (tv_frame v) (tv_data v) = Some (tp_signatures p)"
      "frame_static_account_keys (tv_frame v) (tv_data v) = Some (tp_keys p)"
      "frame_instructions (tv_frame v) (tv_data v) = Some (tp_instructions p)"
      "frame_num_instructions (tf_instructions (tv_frame v)) = of_nat (length (tp_instructions p))"
      "length (tp_instructions p) < 2 ^ 16"
    by (simp_all add: frame_parts_def)
  have "unat (num_instructions v) = length (tp_instructions p)"
    unfolding num_instructions_def f(4) using f(5) by (simp add: unat_of_nat take_bit_eq_mod)
  then show thesis
    using that [of "tp_signatures p" "tp_keys p" "tp_instructions p"] f(1-3)
      frame_signatures_length [OF f(1)] frame_static_account_keys_length [OF f(2)]
    by (simp add: signatures_def static_account_keys_def view_instructions_def num_signatures_def
        num_static_account_keys_def)
qed

lemma view_ok_cases:
  assumes "view_ok v1_prefix v"
  obtains "try_new_as_legacy_or_v0 (tv_data v) = Inr (tv_frame v)"
    | "try_new_as_v1 v1_prefix (tv_data v) = Some (Inr (tv_frame v))"
  using assms by (auto simp: view_ok_def frame_try_new_def obind_Inr split: if_splits)

subsection \<open>Configuration words\<close>

lemma low_bits_mask: "bit (push_bit b 1 - 1 :: u32) n \<longleftrightarrow> n < b \<and> n < 32"
proof -
  have "(push_bit b 1 - 1 :: u32) = mask b" by (simp add: mask_eq_exp_minus_1 push_bit_of_1)
  then show ?thesis by (auto simp: bit_mask_iff)
qed

lemma count_ones_card: "count_ones w = card {n. n < 32 \<and> bit w n}"
proof -
  have "count_ones w = card (set (filter (bit w) [0..<32]))"
    unfolding count_ones_def by (intro distinct_card [symmetric] distinct_filter distinct_upt)
  also have "set (filter (bit w) [0..<32]) = {n. n < 32 \<and> bit w n}"
    unfolding set_filter set_upt by auto
  finally show ?thesis .
qed

lemma count_ones_below:
  assumes "bit w b" "b < 32"
  shows "count_ones (w AND (push_bit b 1 - 1)) < count_ones w"
  unfolding count_ones_card
proof (rule psubset_card_mono)
  show "{n. n < 32 \<and> bit (w AND (push_bit b 1 - 1)) n} \<subset> {n. n < 32 \<and> bit w n}"
    unfolding bit_and_iff low_bits_mask using assms by blast
qed simp

lemma count_ones_le: "count_ones w \<le> 32"
proof -
  have "length (filter (bit w) [0..<32]) \<le> length [0..<(32::nat)]" by (rule length_filter_le)
  then show ?thesis unfolding count_ones_def length_upt by linarith
qed

lemma has_bit_iff: "has_bit w b \<longleftrightarrow> b < 32 \<and> bit w b"
  by (simp add: has_bit_def bit_iff_odd_drop_bit and_one_eq odd_iff_mod_2_eq_one)

lemma legacy_frame_rest:
  assumes "try_new_as_legacy_or_v0 bs = Inr f"
  shows "tf_transaction_config f = not_applicable \<and>
    (tf_address_table_lookup f = atl_default \<or>
     (\<exists>off off'. atl_try_new bs off = Inr (tf_address_table_lookup f, off')))"
  using assms unfolding try_new_as_legacy_or_v0_def by (auto simp: res_bind_Inr split: if_splits)

lemma v1_frame_rest:
  assumes "try_new_as_v1 v1_prefix bs = Some (Inr f)"
  shows "tf_address_table_lookup f = atl_default \<and>
    (\<exists>mo msk off off'. config_try_new mo msk bs off = Some (Inr (tf_transaction_config f, off')))"
  using assms unfolding try_new_as_v1_def Let_def by (auto simp: obind_Inr split: if_splits) blast

lemma view_ok_no_lookups:
  assumes "view_ok v1_prefix v" "num_address_table_lookups v = 0"
  shows "total_writable_lookup_accounts v = 0" "total_readonly_lookup_accounts v = 0"
proof -
  let ?a = "tf_address_table_lookup (tv_frame v)"
  have zero: "al_num ?a = 0" using assms(2) by (simp add: num_address_table_lookups_def)
  have "?a = atl_default \<or> (\<exists>off off'. atl_try_new (tv_data v) off = Inr (?a, off'))"
    using assms(1) by (cases rule: view_ok_cases) (use legacy_frame_rest v1_frame_rest in blast)+
  then have "al_total_writable ?a = 0 \<and> al_total_readonly ?a = 0"
  proof
    assume "?a = atl_default"
    then show ?thesis by (simp add: atl_default_def)
  next
    assume "\<exists>off off'. atl_try_new (tv_data v) off = Inr (?a, off')"
    then obtain off off' where "atl_try_new (tv_data v) off = Inr (?a, off')" by blast
    from atl_try_new_sound [OF this] zero show ?thesis by (auto simp: unat_eq_0)
  qed
  then show "total_writable_lookup_accounts v = 0" "total_readonly_lookup_accounts v = 0"
    by (simp_all add: total_writable_lookup_accounts_def total_readonly_lookup_accounts_def)
qed

definition config_ok :: "transaction_config_frame \<Rightarrow> nat \<Rightarrow> bool" where
  "config_ok c len \<longleftrightarrow> (is_present c \<longrightarrow>
     sanitize_mask (cf_mask c) = Inr () \<and> cf_values_offset c + 4 * count_ones (cf_mask c) \<le> len)"

lemma view_ok_config:
  assumes "view_ok v1_prefix v"
  shows "config_ok (tf_transaction_config (tv_frame v)) (length (tv_data v))"
  using assms
proof (cases rule: view_ok_cases)
  case 1
  then have "tf_transaction_config (tv_frame v) = not_applicable" using legacy_frame_rest by blast
  then show ?thesis by (simp add: config_ok_def is_present_def not_applicable_def)
next
  case 2
  then obtain mo msk off off' where
    "config_try_new mo msk (tv_data v) off = Some (Inr (tf_transaction_config (tv_frame v), off'))"
    using v1_frame_rest by blast
  from config_try_new_sound [OF this] show ?thesis
    using count_ones_le [of msk] by (auto simp: config_ok_def nat_byte mult.commute)
qed

lemma word_offset_bound:
  assumes "config_ok c len" "word_offset c b = Some off"
  shows "off + 4 \<le> len"
proof -
  from assms(2) have b: "is_present c" "b < 32" "bit (cf_mask c) b"
      "off = cf_values_offset c + unat (of_nat (count_ones (cf_mask c AND (push_bit b 1 - 1))) :: u8) * 4"
    by (auto simp: word_offset_def word_index_for_bit_def bind_eq_Some_conv has_bit_iff split: if_splits)
  have "count_ones (cf_mask c AND (push_bit b 1 - 1)) < count_ones (cf_mask c)"
    using b by (intro count_ones_below)
  moreover have "count_ones (cf_mask c AND (push_bit b 1 - 1)) < 256"
    using count_ones_le [of "cf_mask c AND (push_bit b 1 - 1)"] by linarith
  ultimately show ?thesis
    using assms(1) b(1) unfolding b(4) config_ok_def by (simp add: nat_byte)
qed

lemma config_value_defined: "config_ok c (length bs) \<Longrightarrow> config_value 4 b c bs \<noteq> None"
  using word_offset_bound [of c "length bs" b]
  by (auto simp: config_value_def unchecked_copy_value_def slice_opt_def bind_eq_None_conv split: option.splits)

lemma priority_fee_defined:
  assumes "config_ok c (length bs)"
  shows "priority_fee_lamports c bs \<noteq> None"
proof (cases "word_offset c 0")
  case None
  then show ?thesis by (simp add: priority_fee_lamports_def config_value_def)
next
  case (Some off)
  then have b: "is_present c" "bit (cf_mask c) 0" "off = cf_values_offset c +
      unat (of_nat (count_ones (cf_mask c AND (push_bit 0 1 - 1))) :: u8) * 4"
    by (auto simp: word_offset_def word_index_for_bit_def bind_eq_Some_conv has_bit_iff split: if_splits)
  have "count_ones (cf_mask c AND (push_bit 0 1 - 1)) = 0"
    by (simp add: count_ones_card)
  then have off: "off = cf_values_offset c" using b(3) by simp
  have ok: "sanitize_mask (cf_mask c) = Inr ()" "cf_values_offset c + 4 * count_ones (cf_mask c) \<le> length bs"
    using assms b(1) by (auto simp: config_ok_def)
  have "has_bit (cf_mask c) 0 = has_bit (cf_mask c) 1"
    using ok(1) by (auto simp: sanitize_mask_def split: if_splits)
  then have "{0, 1} \<subseteq> {n. n < 32 \<and> bit (cf_mask c) n}" using b(2) by (auto simp: has_bit_iff)
  then have "card {0 :: nat, 1} \<le> count_ones (cf_mask c)"
    unfolding count_ones_card by (intro card_mono) simp_all
  then have "off + 8 \<le> length bs" using ok(2) off by simp
  then show ?thesis
    using Some by (simp add: priority_fee_lamports_def config_value_def unchecked_copy_value_def slice_opt_def)
qed

subsection \<open>Sanitization runs to an answer\<close>

lemma sanitize_defined:
  assumes "view_ok v1_prefix v"
  shows "sanitize min_heap v lim \<noteq> None"
proof -
  obtain sigs keys ixs where p: "static_account_keys v = Some keys" "view_instructions v = Some ixs"
    using view_ok_parts [OF assms] by metis
  have "sanitize_config min_heap v \<noteq> None"
    using config_value_defined [OF view_ok_config [OF assms], of 4]
    by (auto simp: sanitize_config_def view_config_def Let_def obind_None requested_heap_size_def
        split: option.splits if_splits simp del: not_None_eq)
  then show ?thesis
    using p by (auto simp: sanitize_def obind_None sanitize_account_access_def sanitize_instructions_def Let_def
        simp del: not_None_eq split: if_splits)
qed

subsection \<open>What a sanitized view satisfies\<close>

text \<open>The constraints the rest of the engine relies on, over the parts the accessors return.\<close>

definition instruction_ok :: "nat \<Rightarrow> svm_instruction \<Rightarrow> bool" where
  "instruction_ok nkeys ix \<longleftrightarrow>
     0 < unat (ix_program_id_index ix) \<and> unat (ix_program_id_index ix) < nkeys \<and>
     (\<forall>a \<in> set (ix_accounts ix). unat a < nkeys)"

definition sane :: "transaction_view \<Rightarrow> bool" where
  "sane v \<longleftrightarrow> (\<exists>sigs keys ixs.
     signatures v = Some sigs \<and> static_account_keys v = Some keys \<and> view_instructions v = Some ixs \<and>
     distinct keys \<and> length keys = unat (num_static_account_keys v) \<and>
     length sigs = unat (num_required_signatures v) \<and> 0 < length sigs \<and> length sigs \<le> 12 \<and>
     unat (num_readonly_signed_static_accounts v) < length sigs \<and>
     length sigs + unat (num_readonly_unsigned_static_accounts v) \<le> length keys \<and>
     (\<forall>ix \<in> set ixs. instruction_ok (length keys) ix) \<and>
     num_address_table_lookups v = 0 \<and>
     total_writable_lookup_accounts v = 0 \<and> total_readonly_lookup_accounts v = 0)"

lemma sanitize_instruction_list_sound:
  "sanitize_instruction_list mp ma lim ixs = Inr () \<Longrightarrow> ix \<in> set ixs \<Longrightarrow>
     0 < unat (ix_program_id_index ix) \<and> unat (ix_program_id_index ix) \<le> unat mp \<and>
     (\<forall>a \<in> set (ix_accounts ix). unat a \<le> unat ma) \<and>
     (lim \<longrightarrow> length (ix_accounts ix) \<le> MAX_ACCOUNTS_PER_INSTRUCTION)"
  by (induction ixs) (auto simp: not_less word_le_nat_alt unat_gt_0 split: if_splits)

lemma max_account_index_u8:
  assumes "0 < n" "n < 256"
  shows "unat (ucast ((of_nat n :: u16) - 1) :: u8) = n - 1"
proof -
  have pred: "(of_nat n :: u16) - 1 = of_nat (n - 1)" using assms(1) by (simp add: of_nat_diff)
  have val: "unat (of_nat (n - 1) :: u16) = n - 1"
    unfolding unat_of_nat len16 using assms(2) by simp
  have "unat (ucast (of_nat (n - 1) :: u16) :: u8) = take_bit 8 (n - 1)"
    unfolding unsigned_ucast_eq val by simp
  then show ?thesis unfolding pred using assms(2) by (simp add: take_bit_eq_mod)
qed

lemma sanitize_sane:
  assumes ok: "view_ok v1_prefix v" and s: "sanitize min_heap v lim = Some (Inr ())"
  shows "sane v"
proof -
  obtain sigs keys ixs where p: "signatures v = Some sigs" "length sigs = unat (num_signatures v)"
      "static_account_keys v = Some keys" "length keys = unat (num_static_account_keys v)"
      "view_instructions v = Some ixs"
    using view_ok_parts [OF ok] by metis
  have r: "sanitize_message_header v = Inr ()" "sanitize_signatures v = Inr ()"
      "sanitize_account_access v = Some (Inr ())" "sanitize_instructions v lim = Some (Inr ())"
      "sanitize_address_table_lookups v = Inr ()"
    using s by (auto simp: sanitize_def obind_Inr)
  have nl: "num_address_table_lookups v = 0"
    using r(5) by (auto simp: sanitize_address_table_lookups_def split: if_splits)
  note tot = view_ok_no_lookups [OF ok nl]
  have sig: "num_signatures v = num_required_signatures v" "unat (num_signatures v) \<le> 12"
      "unat (num_signatures v) \<le> unat (num_static_account_keys v)"
    using r(2) by (auto simp: sanitize_signatures_def MAX_SIGNATURES_PER_PACKET_def PACKET_DATA_SIZE_def
        SIGNATURE_SIZE_def PUBKEY_SIZE_def not_less word_le_nat_alt split: if_splits)
  have hdr: "0 < unat (num_required_signatures v)"
      "unat (num_readonly_signed_static_accounts v) < unat (num_required_signatures v)"
      "unat (num_readonly_unsigned_static_accounts v) \<le> unat (num_static_account_keys v - num_required_signatures v)"
    using r(1) by (auto simp: sanitize_message_header_def not_less not_le word_le_nat_alt word_less_nat_alt
        split: if_splits)
  have sub: "unat (num_static_account_keys v - num_required_signatures v) =
      unat (num_static_account_keys v) - unat (num_required_signatures v)"
    using sig(1,3) by (simp add: unat_sub word_le_nat_alt)
  have dist: "distinct keys"
    using r(3) p(3) by (auto simp: sanitize_account_access_def Let_def obind_Inr has_duplicates_iff split: if_splits)
  have total: "total_number_of_accounts v = length keys"
    using tot p(4) unat_u8_less [of "num_static_account_keys v"]
    by (simp add: total_number_of_accounts_def u16_saturating_add_def)
  have nk: "0 < length keys" "length keys < 256"
    using hdr(1) sig(1,3) p(4) unat_u8_less [of "num_static_account_keys v"] by simp_all
  have mp: "unat (num_static_account_keys v - 1) = length keys - 1"
    using nk p(4) by (simp add: unat_sub word_le_nat_alt)
  have "sanitize_instruction_list (num_static_account_keys v - 1)
      (ucast ((of_nat (length keys) :: u16) - 1)) lim ixs = Inr ()"
    using r(4) p(5) by (auto simp: sanitize_instructions_def Let_def obind_Inr total split: if_splits)
  from sanitize_instruction_list_sound [OF this]
  have "\<forall>ix \<in> set ixs. instruction_ok (length keys) ix"
    unfolding instruction_ok_def mp max_account_index_u8 [OF nk] using nk(1) by fastforce
  moreover have "length sigs + unat (num_readonly_unsigned_static_accounts v) \<le> length keys"
    using hdr(3) sub sig(1,3) p(2,4) by simp
  ultimately show ?thesis
    unfolding sane_def using p dist hdr sig nl tot by (intro exI [of _ sigs] exI [of _ keys] exI [of _ ixs]) simp
qed

section \<open>The writability cache\<close>

definition cache_bit :: "u64 list \<Rightarrow> nat \<Rightarrow> bool" where
  "cache_bit cache j \<longleftrightarrow> j div 64 < length cache \<and> bit (cache ! (j div 64)) (j mod 64)"

lemma and_push_bit_1: "w AND 2 ^ k \<noteq> 0 \<longleftrightarrow> bit w k" for w :: u64
  using and_exp_eq_0_iff_not_bit [of w k] by simp

lemma bit_push_bit_one: "k < 64 \<Longrightarrow> bit (2 ^ k :: u64) n \<longleftrightarrow> n = k"
  by (auto simp: bit_exp_iff)

lemma same_slot: "i div 64 = j div 64 \<Longrightarrow> i mod 64 = j mod 64 \<Longrightarrow> i = (j :: nat)"
  by (metis div_mult_mod_eq)

lemma set_cache_bit_eq:
  assumes "length cache = 4" "i < 256"
  shows "\<exists>cache'. set_cache_bit i cache = Some cache' \<and> length cache' = 4 \<and>
    (\<forall>j. cache_bit cache' j \<longleftrightarrow> j = i \<or> cache_bit cache j)"
proof -
  have lt: "i div 64 < length cache" using assms by auto
  let ?c = "cache[i div 64 := cache ! (i div 64) OR push_bit (i mod 64) 1]"
  have "cache_bit ?c j \<longleftrightarrow> j = i \<or> cache_bit cache j" for j
    using lt same_slot [of j i]
    by (cases "j div 64 = i div 64") (auto simp: cache_bit_def bit_or_iff bit_push_bit_one)
  then show ?thesis using lt assms(1) by (simp add: set_cache_bit_def nth_opt_less)
qed

lemma clear_cache_bit_eq:
  assumes "length cache = 4" "i < 256"
  shows "\<exists>cache'. clear_cache_bit i cache = Some cache' \<and> length cache' = 4 \<and>
    (\<forall>j. cache_bit cache' j \<longleftrightarrow> j \<noteq> i \<and> cache_bit cache j)"
proof -
  have lt: "i div 64 < length cache" using assms by auto
  let ?c = "cache[i div 64 := cache ! (i div 64) AND NOT (push_bit (i mod 64) 1)]"
  have "cache_bit ?c j \<longleftrightarrow> j \<noteq> i \<and> cache_bit cache j" for j
    using lt same_slot [of j i]
    by (cases "j div 64 = i div 64") (auto simp: cache_bit_def bit_and_iff bit_not_iff bit_push_bit_one)
  then show ?thesis using lt assms(1) by (simp add: clear_cache_bit_def nth_opt_less)
qed

lemma cache_requested_eq:
  assumes "length cache = 4" "i + length ks \<le> 256"
  shows "\<exists>cache'. cache_requested v reserved i ks cache = Some cache' \<and> length cache' = 4 \<and>
    (\<forall>j. cache_bit cache' j \<longleftrightarrow> cache_bit cache j \<or>
       (i \<le> j \<and> j < i + length ks \<and> is_requested_write v j \<and> ks ! (j - i) \<notin> reserved))"
  using assms
proof (induction ks arbitrary: i cache)
  case (Cons k ks)
  let ?hit = "is_requested_write v i \<and> k \<notin> reserved"
  obtain c1 where c1: "(if ?hit then set_cache_bit i cache else Some cache) = Some c1" "length c1 = 4"
      "\<And>j. cache_bit c1 j \<longleftrightarrow> cache_bit cache j \<or> j = i \<and> ?hit"
    using set_cache_bit_eq [OF Cons.prems(1), of i] Cons.prems by (cases ?hit) auto
  obtain c2 where c2: "cache_requested v reserved (Suc i) ks c1 = Some c2" "length c2 = 4"
      "\<And>j. cache_bit c2 j \<longleftrightarrow> cache_bit c1 j \<or>
        (Suc i \<le> j \<and> j < Suc i + length ks \<and> is_requested_write v j \<and> ks ! (j - Suc i) \<notin> reserved)"
    using Cons.IH [OF c1(2), of "Suc i"] Cons.prems by auto
  have "cache_requested v reserved i (k # ks) cache = Some c2"
    using c1(1) c2(1) by (auto split: if_splits)
  moreover have "cache_bit c2 j \<longleftrightarrow> cache_bit cache j \<or>
       (i \<le> j \<and> j < i + length (k # ks) \<and> is_requested_write v j \<and> (k # ks) ! (j - i) \<notin> reserved)" for j
  proof (cases "j = i")
    case False
    then have "Suc i \<le> j \<Longrightarrow> (k # ks) ! (j - i) = ks ! (j - Suc i)" by (simp add: nth_Cons')
    then show ?thesis using False c1(3) c2(3) by auto
  qed (use c1(3) c2(3) in auto)
  ultimately show ?case using c2(2) by blast
qed auto

lemma demote_programs_eq:
  assumes "length cache = 4" "present = None \<or> present = Some (loader_id \<in> set keys)"
  shows "\<exists>cache'. demote_programs loader_id keys ixs present cache = Some cache' \<and> length cache' = 4 \<and>
    (\<forall>j. cache_bit cache' j \<longleftrightarrow> cache_bit cache j \<and>
       (loader_id \<in> set keys \<or> (\<forall>ix \<in> set ixs. unat (ix_program_id_index ix) \<noteq> j)))"
  using assms
proof (induction ixs arbitrary: present cache)
  case (Cons ix ixs)
  let ?i = "unat (ix_program_id_index ix)" and ?f = "loader_id \<in> set keys"
  have i: "?i < 256" by (rule unat_u8_less)
  have lt: "?i div 64 < length cache" using i Cons.prems(1) by auto
  have found: "(case present of Some b \<Rightarrow> b | None \<Rightarrow> ?f) = ?f" using Cons.prems(2) by auto
  have hit: "cache ! (?i div 64) AND push_bit (?i mod 64) 1 \<noteq> 0 \<longleftrightarrow> cache_bit cache ?i"
    using lt by (simp add: and_push_bit_1 cache_bit_def)
  obtain c1 where c1: "clear_cache_bit ?i cache = Some c1" "length c1 = 4"
      "\<And>j. cache_bit c1 j \<longleftrightarrow> j \<noteq> ?i \<and> cache_bit cache j"
    using clear_cache_bit_eq [OF Cons.prems(1) i] by blast
  let ?drop = "cache_bit cache ?i \<and> \<not> ?f"
  let ?c = "if ?drop then c1 else cache" and ?p = "if cache_bit cache ?i then Some ?f else present"
  have step: "demote_programs loader_id keys (ix # ixs) present cache = demote_programs loader_id keys ixs ?p ?c"
    using lt found c1(1) hit by (simp add: nth_opt_less Let_def)
  have "length ?c = 4" "?p = None \<or> ?p = Some ?f" using c1(2) Cons.prems by auto
  then obtain c2 where c2: "demote_programs loader_id keys ixs ?p ?c = Some c2" "length c2 = 4"
      "\<And>j. cache_bit c2 j \<longleftrightarrow> cache_bit ?c j \<and> (?f \<or> (\<forall>ix \<in> set ixs. unat (ix_program_id_index ix) \<noteq> j))"
    using Cons.IH [of ?c ?p] by blast
  have "cache_bit ?c j \<longleftrightarrow> cache_bit cache j \<and> (?f \<or> j \<noteq> ?i)" for j
    using c1(3) [of j] by (cases "j = ?i") auto
  then show ?case using step c2 by (intro exI [of _ c2]) auto
qed simp

section \<open>Resolved views of sanitized transactions\<close>

text \<open>Writability by position, as the header defines it.\<close>

definition header_writable :: "nat \<Rightarrow> nat \<Rightarrow> nat \<Rightarrow> nat \<Rightarrow> nat \<Rightarrow> bool" where
  "header_writable nkeys nreq ros rou i \<longleftrightarrow> i < nkeys \<and> (if i < nreq then i < nreq - ros else i < nkeys - rou)"

lemma sane_counts:
  assumes "sane v"
  shows "unat (num_writable_signed_static_accounts v) =
      unat (num_required_signatures v) - unat (num_readonly_signed_static_accounts v)"
    and "unat (num_writable_unsigned_static_accounts v) =
      unat (num_static_account_keys v) - unat (num_required_signatures v) - unat (num_readonly_unsigned_static_accounts v)"
    and "unat (num_readonly_signed_static_accounts v) < unat (num_required_signatures v)"
    and "unat (num_required_signatures v) + unat (num_readonly_unsigned_static_accounts v) \<le> unat (num_static_account_keys v)"
proof -
  show lt: "unat (num_readonly_signed_static_accounts v) < unat (num_required_signatures v)"
    and le: "unat (num_required_signatures v) + unat (num_readonly_unsigned_static_accounts v) \<le> unat (num_static_account_keys v)"
    using assms by (auto simp: sane_def)
  show "unat (num_writable_signed_static_accounts v) =
      unat (num_required_signatures v) - unat (num_readonly_signed_static_accounts v)"
    unfolding num_writable_signed_static_accounts_def using lt by (simp add: unat_sub word_le_nat_alt)
  have "unat (num_static_unsigned_static_accounts v) =
      unat (num_static_account_keys v) - unat (num_required_signatures v)"
    unfolding num_static_unsigned_static_accounts_def using le by (simp add: unat_sub word_le_nat_alt)
  then show "unat (num_writable_unsigned_static_accounts v) =
      unat (num_static_account_keys v) - unat (num_required_signatures v) - unat (num_readonly_unsigned_static_accounts v)"
    unfolding num_writable_unsigned_static_accounts_def using le by (simp add: unat_sub word_le_nat_alt)
qed

lemma sane_requested_write:
  assumes "sane v"
  shows "is_requested_write v i \<longleftrightarrow>
    header_writable (unat (num_static_account_keys v)) (unat (num_required_signatures v))
      (unat (num_readonly_signed_static_accounts v)) (unat (num_readonly_unsigned_static_accounts v)) i"
proof -
  have "total_writable_lookup_accounts v = 0" using assms by (auto simp: sane_def)
  then show ?thesis
    using sane_counts [OF assms] by (auto simp: is_requested_write_def header_writable_def Let_def)
qed

lemma resolved_sound:
  assumes v: "sane v" and r: "resolved_try_new loader_id v la reserved = Some (Inr rv)"
    and k: "static_account_keys v = Some keys" and x: "view_instructions v = Some ixs"
  shows "rv_view rv = v" and "is_writable rv i \<longleftrightarrow>
    i < length keys \<and> is_requested_write v i \<and> keys ! i \<notin> reserved \<and>
    (loader_id \<in> set keys \<or> (\<forall>ix \<in> set ixs. unat (ix_program_id_index ix) \<noteq> i))"
proof -
  have nk: "length keys = unat (num_static_account_keys v)" "length keys \<le> 256"
      and tot: "total_writable_lookup_accounts v = 0" "total_readonly_lookup_accounts v = 0"
    using v k unat_u8_less [of "num_static_account_keys v"] by (auto simp: sane_def)
  have ks: "account_keys keys la = keys"
    using r tot by (auto simp: resolved_try_new_def account_keys_def Let_def split: option.splits if_splits)
  obtain c1 where c1: "cache_requested v reserved 0 keys [0, 0, 0, 0] = Some c1" "length c1 = 4"
      "\<And>j. cache_bit c1 j \<longleftrightarrow> cache_bit [0, 0, 0, 0] j \<or>
        (0 \<le> j \<and> j < 0 + length keys \<and> is_requested_write v j \<and> keys ! (j - 0) \<notin> reserved)"
    using cache_requested_eq [of "[0, 0, 0, 0]" 0 keys v reserved] nk(2) by auto
  obtain c2 where c2: "demote_programs loader_id keys ixs None c1 = Some c2"
      "\<And>j. cache_bit c2 j \<longleftrightarrow> cache_bit c1 j \<and>
       (loader_id \<in> set keys \<or> (\<forall>ix \<in> set ixs. unat (ix_program_id_index ix) \<noteq> j))"
    using demote_programs_eq [OF c1(2), of None] by blast
  have rv: "rv = \<lparr>rv_view = v, rv_writable_cache = c2\<rparr>"
    using r k x c1(1) c2(1) ks
    by (auto simp: resolved_try_new_def Let_def obind_Inr cache_is_writable_def split: if_splits)
  then show "rv_view rv = v" by simp
  have zero: "\<not> cache_bit [0, 0, 0, 0] j" for j
    by (auto simp: cache_bit_def nth_Cons' bit_0_eq)
  have "is_writable rv i \<longleftrightarrow> cache_bit c2 i"
    by (auto simp: is_writable_def rv cache_bit_def and_push_bit_1 nth_opt_def)
  then show "is_writable rv i \<longleftrightarrow>
    i < length keys \<and> is_requested_write v i \<and> keys ! i \<notin> reserved \<and>
    (loader_id \<in> set keys \<or> (\<forall>ix \<in> set ixs. unat (ix_program_id_index ix) \<noteq> i))"
    using c2(2) c1(3) zero by auto
qed

lemma resolved_defined:
  assumes v: "sane v"
  shows "\<exists>rv. resolved_try_new loader_id v None reserved = Some (Inr rv)"
proof -
  obtain keys ixs where k: "static_account_keys v = Some keys" "view_instructions v = Some ixs"
      and nk: "length keys \<le> 256"
      and tot: "total_writable_lookup_accounts v = 0" "total_readonly_lookup_accounts v = 0"
    using v unat_u8_less [of "num_static_account_keys v"] by (auto simp: sane_def)
  obtain c1 where c1: "cache_requested v reserved 0 keys [0, 0, 0, 0] = Some c1" "length c1 = 4"
    using cache_requested_eq [of "[0, 0, 0, 0]" 0 keys v reserved] nk by auto
  obtain c2 where "demote_programs loader_id keys ixs None c1 = Some c2"
    using demote_programs_eq [OF c1(2), of None] by blast
  then show ?thesis
    using k tot c1(1)
    by (simp add: resolved_try_new_def cache_is_writable_def account_keys_def obind_def lift_unchecked_def lift_checked_def)
qed

lemma pair_programs_defined:
  "\<forall>ix \<in> set ixs. instruction_ok (length keys) ix \<Longrightarrow>
     pair_programs keys ixs = Some (map (\<lambda>ix. (keys ! unat (ix_program_id_index ix), ix)) ixs)"
  by (induction ixs) (simp_all add: instruction_ok_def nth_opt_less)

lemma card_header_writable:
  assumes "ros < nreq" "nreq + rou \<le> nkeys"
  shows "card {i. header_writable nkeys nreq ros rou i} = nkeys - ros - rou"
proof -
  have "{i. header_writable nkeys nreq ros rou i} = {..<nreq - ros} \<union> {nreq..<nkeys - rou}"
    using assms by (auto simp: header_writable_def)
  moreover have "card ({..<nreq - ros} \<union> {nreq..<nkeys - rou}) = (nreq - ros) + (nkeys - rou - nreq)"
    by (subst card_Un_disjoint) auto
  ultimately show ?thesis using assms by simp
qed

lemma unat_u8_widen: "unat (ucast (ucast (w :: u8) :: u16) :: u64) = unat w"
  by transfer simp

lemma sane_write_locks:
  assumes "sane v"
  shows "unat (num_requested_write_locks v) = card {i. is_requested_write v i}"
proof -
  let ?n = "unat (num_static_account_keys v)" and ?ros = "unat (num_readonly_signed_static_accounts v)"
    and ?rou = "unat (num_readonly_unsigned_static_accounts v)"
  note c = sane_counts(3,4) [OF assms]
  have w: "total_writable_lookup_accounts v = 0" using assms by (auto simp: sane_def)
  have "unat (num_static_account_keys v - num_readonly_signed_static_accounts v
              - num_readonly_unsigned_static_accounts v) = ?n - ?ros - ?rou"
    using c by (simp add: unat_sub word_le_nat_alt)
  then have "unat (num_requested_write_locks v) = ?n - ?ros - ?rou"
    using w by (simp add: num_requested_write_locks_def unat_u8_widen)
  then show ?thesis
    unfolding sane_requested_write [OF assms] card_header_writable [OF c] .
qed

section \<open>A sample transaction\<close>

definition sample_view :: transaction_view where
  "sample_view = \<lparr>tv_data = sample_tx, tv_frame =
     \<lparr>tf_signature = \<lparr>sf_num_signatures = 1, sf_offset = 1\<rparr>,
      tf_message_header = \<lparr>mh_offset = 65, mh_version = Legacy, mh_num_required_signatures = 1,
        mh_num_readonly_signed_accounts = 0, mh_num_readonly_unsigned_accounts = 0\<rparr>,
      tf_static_account_keys = \<lparr>sk_num_static_accounts = 2, sk_offset = 69\<rparr>,
      tf_recent_blockhash_offset = 133,
      tf_instructions = LegacyAndV0Frame 1 166
        [\<lparr>lf_num_accounts = 1, lf_data_len = 2, lf_num_accounts_len = 1, lf_data_len_len = 1\<rparr>],
      tf_address_table_lookup = atl_default, tf_transaction_config = not_applicable, tf_data_len = 172\<rparr>\<rparr>"

lemma sample_unsanitized: "try_new_unsanitized 0x81 sample_tx = Some (Inr sample_view)"
  by (simp add: sample_view_def try_new_unsanitized_def frame_try_new_def obind_def lift_checked_def is_legacy_or_v0_def
      try_new_as_legacy_or_v0_def signature_try_new_def header_try_new_legacy_or_v0_def static_keys_try_new_def
      sample_tx_nth MAX_SIGNATURES_PER_PACKET_def LEGACY_OR_V0_MAX_STATIC_ACCOUNTS_PER_PACKET_def
      sample_tx_instructions parse_eval)

lemma sample_tx_slices:
  "slice_opt sample_tx 168 169 = Some [0]" "slice_opt sample_tx 170 172 = Some [8, 8]"
  "slice_opt sample_tx 69 133 = Some (replicate 32 5 @ replicate 32 6)"
  "slice_opt sample_tx 1 65 = Some (replicate 64 7)"
  by (simp_all add: slice_opt_def slice_def sample_tx_def)

lemma chunks_two: "chunks sz 2 xs = [take sz xs, take sz (drop sz xs)]"
  by (simp add: numeral_2_eq_2)

lemma sample_keys: "static_account_keys sample_view = Some [replicate 32 5, replicate 32 6]"
  by (simp add: static_account_keys_def frame_static_account_keys_def sample_view_def PUBKEY_SIZE_def
      sample_tx_slices(3) chunks_two)

lemma sample_signatures: "signatures sample_view = Some [replicate 64 7]"
  by (simp add: signatures_def frame_signatures_def sample_view_def SIGNATURE_SIZE_def
      sample_tx_slices(4) [unfolded One_nat_def])

lemma sample_view_instructions:
  "view_instructions sample_view = Some [\<lparr>ix_program_id_index = 1, ix_accounts = [0], ix_data = [8, 8]\<rparr>]"
  by (simp add: view_instructions_def frame_instructions_def instructions_iter_def sample_view_def iter_collect.simps
      for_legacy_and_v0_def unchecked_read_byte_def unchecked_read_slice_data_def sample_tx_nth sample_tx_slices nth_opt_def)

lemma sample_counts:
  "view_version sample_view = Legacy" "num_required_signatures sample_view = 1" "num_signatures sample_view = 1"
  "num_readonly_signed_static_accounts sample_view = 0" "num_readonly_unsigned_static_accounts sample_view = 0"
  "num_static_account_keys sample_view = 2" "view_config sample_view = None" "num_address_table_lookups sample_view = 0"
  "total_number_of_accounts sample_view = 2" "num_instructions sample_view = 1" "length (tv_data sample_view) = 172"
  by (simp_all add: view_version_def num_required_signatures_def num_readonly_signed_static_accounts_def num_signatures_def
    num_readonly_unsigned_static_accounts_def num_static_account_keys_def view_config_def num_address_table_lookups_def
    total_number_of_accounts_def total_writable_lookup_accounts_def total_readonly_lookup_accounts_def num_instructions_def
    sample_view_def atl_default_def not_applicable_def is_present_def frame_num_instructions_def u16_saturating_add_def
    sample_tx_nth(11))

lemma sample_sanitized: "try_new_sanitized 0x81 32768 sample_tx False = Some (Inr sample_view)"
  by (simp add: try_new_sanitized_def sample_unsanitized obind_def sanitize_def lift_checked_def lift_unchecked_def
    sanitize_account_access_def sanitize_instructions_def sample_keys sample_view_instructions sample_counts
    sanitize_transaction_size_def sanitize_message_header_def sanitize_config_def sanitize_signatures_def
    sanitize_address_table_lookups_def MAX_STANDARD_TRANSACTION_SIZE_def MAX_SIGNATURES_PER_PACKET_def PACKET_DATA_SIZE_def
    SIGNATURE_SIZE_def PUBKEY_SIZE_def MAX_INSTRUCTION_TRACE_LENGTH_def has_duplicates_iff)

section \<open>Properties\<close>

text \<open>
  C10. Parsing and sanitizing a transaction always ends with a view or an error, for every byte
  string: no accessor used by sanitization reads out of bounds or panics.
\<close>

theorem try_new_sanitized_defined: "try_new_sanitized v1_prefix min_heap bs lim \<noteq> None"
proof -
  have "sanitize min_heap \<lparr>tv_data = bs, tv_frame = f\<rparr> lim \<noteq> None" if "frame_try_new v1_prefix bs = Some (Inr f)" for f
    using that sanitize_defined [of v1_prefix] by (simp add: view_ok_def)
  moreover have "frame_try_new v1_prefix bs \<noteq> None"
    using try_new_as_v1_defined by (auto simp: frame_try_new_def obind_None simp del: not_None_eq split: if_splits)
  ultimately show ?thesis
    by (auto simp: try_new_sanitized_def try_new_unsanitized_def obind_None obind_Inr simp del: not_None_eq)
qed

text \<open>
  C11. What sanitization establishes: a sanitized transaction has pairwise distinct static keys,
  between one and twelve signatures, as many as its header requires, a writable fee payer,
  disjoint signer and read-only regions, program indexes that name a key other than the fee
  payer, account indexes in range, and no address lookups.
\<close>

theorem sanitized_sane:
  assumes "try_new_sanitized v1_prefix min_heap bs lim = Some (Inr v)"
  shows "sane v"
  using assms sanitize_sane [of v1_prefix v min_heap lim]
  by (auto simp: try_new_sanitized_def try_new_unsanitized_def obind_Inr view_ok_def)

theorem sanitized_sane_witness:
  "try_new_sanitized 0x81 32768 sample_tx False = Some (Inr sample_view) \<and> sane sample_view"
  using sanitized_sane [OF sample_sanitized] sample_sanitized by simp

text \<open>
  C12. The writability cache of a resolved view is exact: resolution of a sanitized transaction
  without lookups never panics, and account \<open>i\<close> is reported writable exactly when the header
  places it in a writable region, its key is not reserved, and it is not a program that is
  invoked by an instruction while the upgradeable loader is absent from the keys.
\<close>

theorem resolved_writable_exact:
  assumes "try_new_sanitized v1_prefix min_heap bs lim = Some (Inr v)"
  shows "\<exists>rv keys ixs. resolved_try_new loader_id v None reserved = Some (Inr rv) \<and>
    static_account_keys v = Some keys \<and> view_instructions v = Some ixs \<and>
    (\<forall>i. is_writable rv i \<longleftrightarrow>
       header_writable (length keys) (unat (num_required_signatures v))
         (unat (num_readonly_signed_static_accounts v)) (unat (num_readonly_unsigned_static_accounts v)) i \<and>
       keys ! i \<notin> reserved \<and>
       (loader_id \<in> set keys \<or> (\<forall>ix \<in> set ixs. unat (ix_program_id_index ix) \<noteq> i)))"
proof -
  have v: "sane v"
    using assms sanitize_sane [of v1_prefix v min_heap lim]
    by (auto simp: try_new_sanitized_def try_new_unsanitized_def obind_Inr view_ok_def)
  obtain keys ixs where k: "static_account_keys v = Some keys" "view_instructions v = Some ixs"
      "length keys = unat (num_static_account_keys v)"
    using v by (auto simp: sane_def)
  obtain rv where rv: "resolved_try_new loader_id v None reserved = Some (Inr rv)"
    using resolved_defined [OF v] by blast
  show ?thesis
    using rv k resolved_sound(2) [OF v rv k(1,2)] sane_requested_write [OF v]
    by (fastforce simp: header_writable_def)
qed

theorem resolved_writable_exact_witness:
  "\<exists>rv. resolved_try_new (replicate 32 1) sample_view None {} = Some (Inr rv) \<and> is_writable rv 0 \<and> \<not> is_writable rv 1"
proof -
  from resolved_writable_exact [OF sample_sanitized, of "replicate 32 1" "{}"] obtain rv where
    "resolved_try_new (replicate 32 1) sample_view None {} = Some (Inr rv)"
    "\<forall>i. is_writable rv i \<longleftrightarrow> header_writable (Suc (Suc 0)) (Suc 0) 0 0 i \<and> Suc 0 \<noteq> i"
    by (auto simp: sample_keys sample_view_instructions sample_counts)
  then show ?thesis by (auto simp: header_writable_def)
qed

text \<open>
  C13. The accessors that assume sanitization are safe on sanitized views: the fee payer and the
  transaction signature exist, every instruction is paired with an existing program key, the fee
  payer is writable by the header, and the wrapping \<open>u8\<close>/\<open>u16\<close> arithmetic of
  \<open>num_requested_write_locks\<close> computes the number of accounts the header marks writable.
\<close>

theorem sanitized_accessors:
  assumes "try_new_sanitized v1_prefix min_heap bs lim = Some (Inr v)"
  shows "\<exists>keys sigs ixs. static_account_keys v = Some keys \<and> signatures v = Some sigs \<and> view_instructions v = Some ixs \<and>
    fee_payer v = Some (keys ! 0) \<and> transaction_signature v = Some (sigs ! 0) \<and>
    program_instructions v = Some (map (\<lambda>ix. (keys ! unat (ix_program_id_index ix), ix)) ixs) \<and>
    is_requested_write v 0 \<and> unat (num_requested_write_locks v) = card {i. is_requested_write v i}"
proof -
  have v: "sane v"
    using assms sanitize_sane [of v1_prefix v min_heap lim]
    by (auto simp: try_new_sanitized_def try_new_unsanitized_def obind_Inr view_ok_def)
  obtain keys sigs ixs where k: "static_account_keys v = Some keys" "signatures v = Some sigs" "view_instructions v = Some ixs"
      "0 < length sigs" "length sigs \<le> length keys" "\<forall>ix \<in> set ixs. instruction_ok (length keys) ix"
    using v by (auto simp: sane_def)
  have "fee_payer v = Some (keys ! 0)" "transaction_signature v = Some (sigs ! 0)"
    using k(1,2,4,5) nth_opt_less [of 0 keys] nth_opt_less [of 0 sigs]
    by (auto simp: fee_payer_def transaction_signature_def)
  moreover have "is_requested_write v 0"
    using sane_counts(3,4) [OF v] by (simp add: sane_requested_write [OF v] header_writable_def)
  ultimately show ?thesis
    using k(1-3) pair_programs_defined [OF k(6)] sane_write_locks [OF v] by (simp add: program_instructions_def)
qed

theorem sanitized_accessors_witness:
  "fee_payer sample_view = Some (replicate 32 5) \<and> unat (num_requested_write_locks sample_view) = card {i. is_requested_write sample_view i}"
  using sanitized_accessors [OF sample_sanitized] by (auto simp: sample_keys)

end
