(* ===== verification/Account_Mode.thy ===== *)
theory Account_Mode
  imports Prelude
begin

text \<open>
  Account modes and their lifecycle: \<^verbatim>\<open>solana/account/src/mode.rs\<close>. A mode is a 16-bit discriminant
  that packs a kind, an access permission and a data-flow direction; the accessors unpack it and
  reach \<^verbatim>\<open>unreachable!\<close> (here \<open>None\<close>) on any other bit pattern. The lifecycle rules of
  \<open>validate_transition\<close> become a step relation on mode and slot.
\<close>

unbundle bit_operations_syntax

section \<open>Modes and their encoding\<close>

datatype account_kind = KindMissing | KindRegular | KindClosed
datatype access_mode = ReadOnly | Writable
datatype data_flow = NoSync | BaseToEr | ErToBase
datatype state_authority = Base | Er

datatype account_mode = Missing | Mirrored | Delegated | Undelegating | Magic | Runtime | Closed

definition KIND_OFFSET :: nat where "KIND_OFFSET = 0"
definition ACCESS_OFFSET :: nat where "ACCESS_OFFSET = 8"
definition FLOW_OFFSET :: nat where "FLOW_OFFSET = 10"
definition KIND_MASK :: u16 where "KIND_MASK = push_bit KIND_OFFSET 0x00FF"
definition ACCESS_MASK :: u16 where "ACCESS_MASK = push_bit ACCESS_OFFSET 0x0003"
definition FLOW_MASK :: u16 where "FLOW_MASK = push_bit FLOW_OFFSET 0x0003"

fun kind_disc :: "account_kind \<Rightarrow> u16" where
  "kind_disc KindMissing = 0"
| "kind_disc KindRegular = 1"
| "kind_disc KindClosed = 3"

fun access_disc :: "access_mode \<Rightarrow> u16" where
  "access_disc ReadOnly = 0"
| "access_disc Writable = 1"

fun flow_disc :: "data_flow \<Rightarrow> u16" where
  "flow_disc NoSync = 0"
| "flow_disc BaseToEr = 1"
| "flow_disc ErToBase = 2"

definition mode_encode :: "account_kind \<Rightarrow> access_mode \<Rightarrow> data_flow \<Rightarrow> u16" where
  "mode_encode kind access flow =
     push_bit KIND_OFFSET (kind_disc kind) OR push_bit ACCESS_OFFSET (access_disc access)
       OR push_bit FLOW_OFFSET (flow_disc flow)"

fun mode_disc :: "account_mode \<Rightarrow> u16" where
  "mode_disc Missing = mode_encode KindMissing ReadOnly BaseToEr"
| "mode_disc Mirrored = mode_encode KindRegular ReadOnly BaseToEr"
| "mode_disc Delegated = mode_encode KindRegular Writable ErToBase"
| "mode_disc Undelegating = mode_encode KindRegular ReadOnly ErToBase"
| "mode_disc Magic = mode_encode KindRegular Writable NoSync"
| "mode_disc Runtime = mode_encode KindRegular ReadOnly NoSync"
| "mode_disc Closed = mode_encode KindClosed ReadOnly NoSync"

definition mode_kind :: "account_mode \<Rightarrow> account_kind option" where
  "mode_kind m =
     (let k = drop_bit KIND_OFFSET (mode_disc m AND KIND_MASK) in
      if k = 0 then Some KindMissing else if k = 1 then Some KindRegular
      else if k = 3 then Some KindClosed else None)"

definition mode_access :: "account_mode \<Rightarrow> access_mode option" where
  "mode_access m =
     (let k = drop_bit ACCESS_OFFSET (mode_disc m AND ACCESS_MASK) in
      if k = 0 then Some ReadOnly else if k = 1 then Some Writable else None)"

definition mode_data_flow :: "account_mode \<Rightarrow> data_flow option" where
  "mode_data_flow m =
     (let k = drop_bit FLOW_OFFSET (mode_disc m AND FLOW_MASK) in
      if k = 0 then Some NoSync else if k = 1 then Some BaseToEr
      else if k = 2 then Some ErToBase else None)"

definition mode_is_writable :: "account_mode \<Rightarrow> bool option" where
  "mode_is_writable m = do { a \<leftarrow> mode_access m; Some (a = Writable) }"

definition mode_authority :: "account_mode \<Rightarrow> state_authority option option" where
  "mode_authority m = do {
     k \<leftarrow> mode_kind m;
     f \<leftarrow> mode_data_flow m;
     Some (if k = KindMissing \<or> k = KindClosed then None
           else if f = BaseToEr then Some Base else Some Er)
   }"

definition requires_persistence :: "account_mode \<Rightarrow> bool option" where
  "requires_persistence m = do { a \<leftarrow> mode_authority m; Some (a = Some Er) }"

text \<open>\<open>From<AccountMode> for [u8; 2]\<close> and \<open>TryFrom<[u8; 2]> for AccountMode\<close>.\<close>

definition mode_bytes :: "account_mode \<Rightarrow> bytes" where
  "mode_bytes m = nat_le 2 (unat (mode_disc m))"

definition mode_try_from :: "bytes \<Rightarrow> bytes + account_mode" where
  "mode_try_from bs =
     (if bs = [0, 4] then Inr Missing
      else if bs = [1, 4] then Inr Mirrored
      else if bs = [1, 0] then Inr Runtime
      else if bs = [1, 9] then Inr Delegated
      else if bs = [1, 1] then Inr Magic
      else if bs = [1, 8] then Inr Undelegating
      else if bs = [3, 0] then Inr Closed
      else Inl bs)"

section \<open>Lifecycle transitions\<close>

datatype account_patch_error =
    InvalidModeTransition account_mode account_mode
  | InvalidSlotTransition u64 u64

text \<open>The match of \<open>validate_transition\<close>: the slot comparison a mode pair requires, if any.\<close>

fun transition_slots :: "account_mode \<Rightarrow> account_mode \<Rightarrow> (u64 \<Rightarrow> u64 \<Rightarrow> bool) option" where
  "transition_slots Missing Missing = Some (\<lambda>from to. to > from)"
| "transition_slots Mirrored Missing = Some (\<lambda>from to. to > from)"
| "transition_slots Mirrored Mirrored = Some (\<lambda>from to. to > from)"
| "transition_slots Runtime Runtime = Some (\<lambda>from to. to > from)"
| "transition_slots Undelegating Delegated = Some (\<lambda>from to. to > from)"
| "transition_slots Missing Undelegating = None"
| "transition_slots Missing _ = Some (\<lambda>from to. to \<ge> from)"
| "transition_slots Mirrored Delegated = Some (\<lambda>from to. to \<ge> from)"
| "transition_slots Mirrored Magic = Some (\<lambda>from to. to \<ge> from)"
| "transition_slots Mirrored Closed = Some (\<lambda>from to. to \<ge> from)"
| "transition_slots Delegated Undelegating = Some (\<lambda>from to. to \<ge> from)"
| "transition_slots Magic Delegated = Some (\<lambda>from to. to \<ge> from)"
| "transition_slots Magic Closed = Some (\<lambda>from to. to \<ge> from)"
| "transition_slots Undelegating Missing = Some (\<lambda>from to. to \<ge> from)"
| "transition_slots Undelegating Mirrored = Some (\<lambda>from to. to \<ge> from)"
| "transition_slots Undelegating Closed = Some (\<lambda>from to. to \<ge> from)"
| "transition_slots _ _ = None"

definition validate_transition ::
  "account_mode \<Rightarrow> account_mode \<Rightarrow> u64 \<Rightarrow> u64 \<Rightarrow> account_patch_error + unit" where
  "validate_transition self to from_slot to_slot =
     (case transition_slots self to of
        None \<Rightarrow> Inl (InvalidModeTransition self to)
      | Some ok \<Rightarrow>
          if \<not> ok from_slot to_slot then Inl (InvalidSlotTransition from_slot to_slot) else Inr ())"

section \<open>Encoding lemmas\<close>

lemma mode_disc_values:
  "mode_disc Missing = 0x0400" "mode_disc Mirrored = 0x0401" "mode_disc Delegated = 0x0901"
  "mode_disc Undelegating = 0x0801" "mode_disc Magic = 0x0101" "mode_disc Runtime = 0x0001"
  "mode_disc Closed = 0x0003"
  by code_simp+

lemma mode_kind_simps [simp]:
  "mode_kind m = Some (case m of Missing \<Rightarrow> KindMissing | Closed \<Rightarrow> KindClosed | _ \<Rightarrow> KindRegular)"
  by (induction m; code_simp)

lemma mode_access_simps [simp]:
  "mode_access m = Some (if m = Delegated \<or> m = Magic then Writable else ReadOnly)"
  by (induction m; code_simp)

lemma mode_data_flow_simps [simp]:
  "mode_data_flow m = Some (case m of Missing \<Rightarrow> BaseToEr | Mirrored \<Rightarrow> BaseToEr | Delegated \<Rightarrow> ErToBase
     | Undelegating \<Rightarrow> ErToBase | _ \<Rightarrow> NoSync)"
  by (induction m; code_simp)

lemma mode_bytes_values:
  "mode_bytes m = (case m of Missing \<Rightarrow> [0, 4] | Mirrored \<Rightarrow> [1, 4] | Runtime \<Rightarrow> [1, 0] | Delegated \<Rightarrow> [1, 9]
     | Magic \<Rightarrow> [1, 1] | Undelegating \<Rightarrow> [1, 8] | Closed \<Rightarrow> [3, 0])"
  by (induction m; code_simp)

lemma mode_bytes_length [simp]: "length (mode_bytes m) = 2"
  by (cases m) (simp_all add: mode_bytes_values)

lemma mode_try_from_bytes [simp]: "mode_try_from (mode_bytes m) = Inr m"
  by (cases m) (simp_all add: mode_try_from_def mode_bytes_values)

lemma mode_try_from_Inr: "mode_try_from bs = Inr m \<longleftrightarrow> bs = mode_bytes m"
  by (cases m) (auto simp: mode_try_from_def mode_bytes_values)

section \<open>Lifecycle runs\<close>

inductive lifecycle_step :: "account_mode \<times> u64 \<Rightarrow> account_mode \<times> u64 \<Rightarrow> bool" where
  transition: "validate_transition m m' s s' = Inr () \<Longrightarrow> lifecycle_step (m, s) (m', s')"

inductive_simps lifecycle_step_iff: "lifecycle_step (m, s) (m', s')"

lemma transition_slots_le: "transition_slots m m' = Some ok \<Longrightarrow> ok s s' \<Longrightarrow> s \<le> s'"
  by (induction m m' rule: transition_slots.induct) auto

lemma validate_transition_le: "validate_transition m m' s s' = Inr () \<Longrightarrow> s \<le> s'"
  by (auto simp: validate_transition_def transition_slots_le split: option.splits if_splits)

lemma validate_transition_same_mode:
  "validate_transition m m s s' = Inr () \<longleftrightarrow> (m = Missing \<or> m = Mirrored \<or> m = Runtime) \<and> s < s'"
  by (cases m) (simp_all add: validate_transition_def)

lemma validate_transition_Closed: "validate_transition Closed m s s' \<noteq> Inr ()"
  by (cases m) (simp_all add: validate_transition_def)

lemma validate_transition_Er:
  assumes "validate_transition m m' s s' = Inr ()" "mode_authority m = Some (Some Er)" "m \<noteq> Undelegating"
  shows "mode_authority m' = Some (Some Er) \<or> m' = Closed"
  using assms by (cases m; cases m') (simp_all add: validate_transition_def mode_authority_def)

lemma lifecycle_slot_mono: "lifecycle_step\<^sup>*\<^sup>* x y \<Longrightarrow> snd x \<le> snd y"
  by (induction rule: rtranclp_induct) (auto elim!: lifecycle_step.cases dest: validate_transition_le)

lemma lifecycle_Closed: "lifecycle_step\<^sup>*\<^sup>* x y \<Longrightarrow> fst x = Closed \<Longrightarrow> y = x"
  by (induction rule: rtranclp_induct) (auto elim!: lifecycle_step.cases simp: validate_transition_Closed)

lemma lifecycle_handoff:
  assumes "lifecycle_step\<^sup>*\<^sup>* x y" "mode_authority (fst x) = Some (Some Er)"
  shows "mode_authority (fst y) = Some (Some Er) \<or> fst y = Closed \<or>
    (\<exists>t. lifecycle_step\<^sup>*\<^sup>* x (Undelegating, t) \<and> lifecycle_step\<^sup>*\<^sup>* (Undelegating, t) y)"
  using assms
proof (induction rule: rtranclp_induct)
  case (step y z)
  obtain m s m' s' where yz: "y = (m, s)" "z = (m', s')" and v: "validate_transition m m' s s' = Inr ()"
    using step.hyps(2) by (auto elim: lifecycle_step.cases)
  from step.IH [OF step.prems] consider
      "mode_authority m = Some (Some Er)" "m \<noteq> Undelegating" | "m = Undelegating" | "m = Closed"
    | t where "lifecycle_step\<^sup>*\<^sup>* x (Undelegating, t)" "lifecycle_step\<^sup>*\<^sup>* (Undelegating, t) y"
    using yz(1) by fastforce
  then show ?case
  proof cases
    case 1
    then show ?thesis using validate_transition_Er [OF v] yz(2) by auto
  next
    case 2
    then have "lifecycle_step\<^sup>*\<^sup>* x (Undelegating, s)" "lifecycle_step\<^sup>*\<^sup>* (Undelegating, s) z"
      using step.hyps yz(1) by auto
    then show ?thesis by blast
  next
    case 3
    then show ?thesis using v validate_transition_Closed by blast
  next
    case 4
    then show ?thesis using step.hyps(2) by (blast intro: rtranclp.rtrancl_into_rtrancl)
  qed
qed simp

section \<open>Properties\<close>

text \<open>
  C14. The two-byte mode codec is exact: a byte pair decodes to a mode exactly when it is that
  mode's little-endian discriminant, and the accessors that unpack the discriminant never reach
  their unreachable arms and return the kind, access and flow the mode was declared with.
\<close>

theorem mode_codec_exact:
  "(mode_try_from bs = Inr m \<longleftrightarrow> bs = mode_bytes m) \<and>
   mode_kind m \<noteq> None \<and> mode_access m \<noteq> None \<and> mode_data_flow m \<noteq> None \<and>
   mode_disc m = mode_encode (the (mode_kind m)) (the (mode_access m)) (the (mode_data_flow m))"
  by (cases m) (simp_all add: mode_try_from_Inr)



end
