(* ===== verification/Memory.thy ===== *)
theory Memory
  imports Prelude
begin

text \<open>
  Byte-addressed memory for the code that works through raw pointers: reads and writes of byte
  ranges, which are \<open>None\<close> outside the allocation, typed loads and stores through a codec, and
  the laws about reading after writing that the account and storage components use.
\<close>

type_synonym memory = bytes

definition mem_read :: "memory \<Rightarrow> nat \<Rightarrow> nat \<Rightarrow> bytes option" where
  "mem_read m p n = slice_opt m p (p + n)"

definition mem_write :: "memory \<Rightarrow> nat \<Rightarrow> bytes \<Rightarrow> memory option" where
  "mem_write m p bs =
     (if p + length bs \<le> length m then Some (take p m @ bs @ drop (p + length bs) m) else None)"

definition mem_load :: "nat \<Rightarrow> (bytes \<Rightarrow> 'a option) \<Rightarrow> memory \<Rightarrow> nat \<Rightarrow> 'a option" where
  "mem_load sz dec m p = do { bs \<leftarrow> mem_read m p sz; dec bs }"

definition mem_store :: "('a \<Rightarrow> bytes) \<Rightarrow> memory \<Rightarrow> nat \<Rightarrow> 'a \<Rightarrow> memory option" where
  "mem_store enc m p x = mem_write m p (enc x)"

text \<open>Two memories that agree everywhere but on a range of addresses.\<close>

definition agree_outside :: "nat \<Rightarrow> nat \<Rightarrow> memory \<Rightarrow> memory \<Rightarrow> bool" where
  "agree_outside lo hi m m' \<longleftrightarrow> length m' = length m \<and> (\<forall>i < length m. i < lo \<or> hi \<le> i \<longrightarrow> m' ! i = m ! i)"

named_theorems mem_simps "reads after writes"

section \<open>Reading and writing\<close>

lemma mem_write_Some: "p + length bs \<le> length m \<Longrightarrow> \<exists>m'. mem_write m p bs = Some m'"
  by (simp add: mem_write_def)

lemma mem_writeD:
  assumes "mem_write m p bs = Some m'"
  shows "length m' = length m" "p + length bs \<le> length m"
    "i < length m \<Longrightarrow> m' ! i = (if p \<le> i \<and> i < p + length bs then bs ! (i - p) else m ! i)"
  using assms by (auto simp: mem_write_def nth_append split: if_splits)

lemma mem_read_Some: "p + n \<le> length m \<Longrightarrow> \<exists>bs. mem_read m p n = Some bs"
  by (simp add: mem_read_def slice_opt_def)

lemma mem_readD:
  assumes "mem_read m p n = Some bs"
  shows "length bs = n" "p + n \<le> length m" "i < n \<Longrightarrow> bs ! i = m ! (p + i)"
  using assms by (auto simp: mem_read_def slice_def)

lemma mem_read_eqI:
  assumes "p + n \<le> length m" "length bs = n" "\<And>i. i < n \<Longrightarrow> m ! (p + i) = bs ! i"
  shows "mem_read m p n = Some bs"
proof -
  have "slice m p (p + n) = bs"
    using assms by (intro nth_equalityI) (auto simp: slice_def)
  then show ?thesis using assms(1) by (simp add: mem_read_def slice_opt_def)
qed

lemma mem_read_cong:
  assumes "length m' = length m" "\<And>i. i < n \<Longrightarrow> p + i < length m \<Longrightarrow> m' ! (p + i) = m ! (p + i)"
  shows "mem_read m' p n = mem_read m p n"
proof (cases "mem_read m p n")
  case None
  then show ?thesis using assms(1) by (simp add: mem_read_def slice_opt_def split: if_splits)
next
  case (Some bs)
  then show ?thesis using assms mem_readD [OF Some] by (auto intro!: mem_read_eqI)
qed

lemma mem_read_write_same:
  "mem_write m p bs = Some m' \<Longrightarrow> n = length bs \<Longrightarrow> mem_read m' p n = Some bs"
  using mem_writeD [of m p bs m'] by (auto intro!: mem_read_eqI)

lemma mem_read_write_frame:
  "mem_write m p bs = Some m' \<Longrightarrow> q + n \<le> p \<or> p + length bs \<le> q \<Longrightarrow> mem_read m' q n = mem_read m q n"
  using mem_writeD [of m p bs m'] by (intro mem_read_cong) auto

lemma mem_read_sub:
  assumes "mem_read m p n = Some bs" "i + k \<le> n"
  shows "mem_read m (p + i) k = Some (slice bs i (i + k))"
  using assms mem_readD [OF assms(1)]
  by (intro mem_read_eqI) (auto simp: slice_def ac_simps)

lemma mem_read_split:
  "mem_read m p (a + b) = do { xs \<leftarrow> mem_read m p a; ys \<leftarrow> mem_read m (p + a) b; Some (xs @ ys) }"
  by (auto simp: mem_read_def slice_opt_def ac_simps bind_eq_None_conv slice_append)

lemma nth_splice:
  assumes "off \<le> length xs" "k < length xs \<or> off \<le> k \<and> k < off + length ys"
  shows "(take off xs @ ys @ drop (off + length ys) xs) ! k = (if off \<le> k \<and> k < off + length ys then ys ! (k - off) else xs ! k)"
  using assms by (auto simp: nth_append)

lemma mem_read_splice:
  assumes r: "mem_read m q (length dat) = Some dat" and off: "off \<le> length dat" "len \<le> max (off + length bs) (length dat)"
    and b: "q + len \<le> length m" and w: "mem_write m (q + off) bs = Some m1"
  shows "mem_read m1 q len = Some (take len (take off dat @ bs @ drop (off + length bs) dat))"
proof (rule mem_read_eqI)
  let ?d = "take off dat @ bs @ drop (off + length bs) dat"
  show "q + len \<le> length m1" using mem_writeD(1) [OF w] b by simp
  show "length (take len ?d) = len" using off by auto
  fix k assume k: "k < len"
  have c: "k < length dat \<or> off \<le> k \<and> k < off + length bs" using k off by auto
  have d: "take len ?d ! k = (if off \<le> k \<and> k < off + length bs then bs ! (k - off) else dat ! k)"
    unfolding nth_take [OF k] by (rule nth_splice [OF off(1) c])
  show "m1 ! (q + k) = take len ?d ! k"
  proof (cases "off \<le> k \<and> k < off + length bs")
    case True
    then show ?thesis using mem_writeD(3) [OF w, of "q + k"] b k unfolding d by simp
  next
    case False
    then have "dat ! k = m ! (q + k)" using c mem_readD(3) [OF r, of k] by blast
    moreover have "\<not> (q + off \<le> q + k \<and> q + k < q + off + length bs)" "q + k < length m"
      using False b k by auto
    then have "m1 ! (q + k) = m ! (q + k)" using mem_writeD(3) [OF w, of "q + k"] by argo
    ultimately show ?thesis unfolding d if_not_P [OF False] by simp
  qed
qed

lemma mem_write_append:
  "mem_write m p (xs @ ys) = do { m1 \<leftarrow> mem_write m p xs; mem_write m1 (p + length xs) ys }"
  by (auto simp: mem_write_def ac_simps)

section \<open>Agreement outside a range\<close>

lemma agree_outside_refl [simp]: "agree_outside lo hi m m"
  by (simp add: agree_outside_def)

lemma agree_outside_trans:
  "agree_outside lo hi m m' \<Longrightarrow> agree_outside lo hi m' m'' \<Longrightarrow> agree_outside lo hi m m''"
  by (auto simp: agree_outside_def)

lemma agree_outside_mono:
  "agree_outside lo hi m m' \<Longrightarrow> lo' \<le> lo \<Longrightarrow> hi \<le> hi' \<Longrightarrow> agree_outside lo' hi' m m'"
  by (auto simp: agree_outside_def)

lemma agree_outside_length: "agree_outside lo hi m m' \<Longrightarrow> length m' = length m"
  by (simp add: agree_outside_def)

lemma agree_outside_write:
  "mem_write m p bs = Some m' \<Longrightarrow> lo \<le> p \<Longrightarrow> p + length bs \<le> hi \<Longrightarrow> agree_outside lo hi m m'"
  using mem_writeD [of m p bs m'] by (auto simp: agree_outside_def)

lemma agree_outside_read:
  "agree_outside lo hi m m' \<Longrightarrow> q + n \<le> lo \<or> hi \<le> q \<Longrightarrow> mem_read m' q n = mem_read m q n"
  by (rule mem_read_cong) (auto simp: agree_outside_def)

lemma agree_outside_load:
  "agree_outside lo hi m m' \<Longrightarrow> q + n \<le> lo \<or> hi \<le> q \<Longrightarrow> mem_load n dec m' q = mem_load n dec m q"
  by (simp add: mem_load_def agree_outside_read)

section \<open>Typed cells\<close>

text \<open>A value of fixed size whose bytes decode to it again.\<close>

locale mem_codec =
  fixes sz :: nat and enc :: "'a \<Rightarrow> bytes" and dec :: "bytes \<Rightarrow> 'a option" and ok :: "'a \<Rightarrow> bool"
  assumes enc_length: "ok x \<Longrightarrow> length (enc x) = sz"
    and dec_enc: "ok x \<Longrightarrow> dec (enc x) = Some x"
begin

lemma store_Some: "ok x \<Longrightarrow> p + sz \<le> length m \<Longrightarrow> \<exists>m'. mem_store enc m p x = Some m'"
  by (simp add: mem_store_def mem_write_Some enc_length)

lemma load_store_same: "ok x \<Longrightarrow> mem_store enc m p x = Some m' \<Longrightarrow> mem_load sz dec m' p = Some x"
  using mem_read_write_same [of m p "enc x" m' sz]
  by (simp add: mem_load_def mem_store_def enc_length dec_enc)

lemma load_store_frame:
  "ok x \<Longrightarrow> mem_store enc m p x = Some m' \<Longrightarrow> q + n \<le> p \<or> p + sz \<le> q \<Longrightarrow> mem_load n d m' q = mem_load n d m q"
  using mem_read_write_frame [of m p "enc x" m' q n]
  by (simp add: mem_load_def mem_store_def enc_length)

lemma read_store_frame:
  "ok x \<Longrightarrow> mem_store enc m p x = Some m' \<Longrightarrow> q + n \<le> p \<or> p + sz \<le> q \<Longrightarrow> mem_read m' q n = mem_read m q n"
  using mem_read_write_frame [of m p "enc x" m' q n]
  by (simp add: mem_store_def enc_length)

lemma store_length: "mem_store enc m p x = Some m' \<Longrightarrow> length m' = length m"
  using mem_writeD(1) [of m p "enc x" m'] by (simp add: mem_store_def)

lemma store_agree:
  "ok x \<Longrightarrow> mem_store enc m p x = Some m' \<Longrightarrow> lo \<le> p \<Longrightarrow> p + sz \<le> hi \<Longrightarrow> agree_outside lo hi m m'"
  using agree_outside_write [of m p "enc x" m' lo hi] by (simp add: mem_store_def enc_length)

end

definition enc_u32 :: "u32 \<Rightarrow> bytes" where "enc_u32 w = nat_le 4 (unat w)"
definition dec_u32 :: "bytes \<Rightarrow> u32 option" where "dec_u32 bs = Some (of_nat (le_nat bs))"
definition enc_u64 :: "u64 \<Rightarrow> bytes" where "enc_u64 w = nat_le 8 (unat w)"
definition dec_u64 :: "bytes \<Rightarrow> u64 option" where "dec_u64 bs = Some (of_nat (le_nat bs))"

lemma le_nat_u32 [simp]: "le_nat (nat_le 4 (unat (w :: u32))) = unat w"
  using unat_u32_less [of w] by (simp add: le_nat_nat_le)

lemma le_nat_u64 [simp]: "le_nat (nat_le 8 (unat (w :: u64))) = unat w"
  using unat_u64_less [of w] by (simp add: le_nat_nat_le)

lemma enc_u32_simps [simp]: "length (enc_u32 w) = 4" "dec_u32 (enc_u32 w) = Some w"
  by (simp_all add: enc_u32_def dec_u32_def)

lemma enc_u64_simps [simp]: "length (enc_u64 w) = 8" "dec_u64 (enc_u64 w) = Some w"
  by (simp_all add: enc_u64_def dec_u64_def)

interpretation u32_cell: mem_codec 4 enc_u32 dec_u32 "\<lambda>_. True"
  by unfold_locales simp_all

lemma mem_load_u32_Some: "p + 4 \<le> length m \<Longrightarrow> \<exists>w. mem_load 4 dec_u32 m p = Some w"
  using mem_read_Some [of p 4 m] by (auto simp: mem_load_def dec_u32_def)

end
