(* ===== verification/Account_Borrowed.thy ===== *)
theory Account_Borrowed
  imports Account_Mode Memory
begin

text \<open>
  The zero-copy account layout: \<^verbatim>\<open>solana/account/src/cow/borrowed.rs\<close> and the serialization of
  \<^verbatim>\<open>cow/owned.rs\<close>. A buffer holds a header, the account's key and two images; the parity of the
  header's sequence selects the active image, writers work in the other one. Pointers are byte
  addresses into a memory, every access through a raw pointer is a memory access that is \<open>None\<close>
  out of bounds, and \<open>AccountCore\<close> is stored in its C layout.
\<close>

section \<open>Layout\<close>

record account_core =
  ac_lamports :: u64
  ac_owner :: pubkey
  ac_slot :: u64
  ac_commit_seq :: u32
  ac_mode :: account_mode
  ac_flags :: u8
  ac_padding :: u8

record owned_account =
  oa_core :: account_core
  oa_data :: bytes

definition ALIGNMENT :: nat where "ALIGNMENT = 8"
definition STORAGE_UNIT :: nat where "STORAGE_UNIT = 8"
definition CORE_SIZE :: nat where "CORE_SIZE = 8 + 32 + 8 + 4 + 2 + 1 + 1"
definition DATA_HEADER_SIZE :: nat where "DATA_HEADER_SIZE = 4 + 4"
definition ACCOUNT_HEADER_SIZE :: nat where "ACCOUNT_HEADER_SIZE = 4 + 4"
definition KEY_SIZE :: nat where "KEY_SIZE = 32"
definition STATIC_SIZE :: nat where "STATIC_SIZE = CORE_SIZE + DATA_HEADER_SIZE"
definition IMAGE_OFFSET :: nat where "IMAGE_OFFSET = (ACCOUNT_HEADER_SIZE + KEY_SIZE) div STORAGE_UNIT"

definition enc_core :: "account_core \<Rightarrow> bytes" where
  "enc_core c = enc_u64 (ac_lamports c) @ ac_owner c @ enc_u64 (ac_slot c) @ enc_u32 (ac_commit_seq c)
     @ mode_bytes (ac_mode c) @ [ac_flags c, ac_padding c]"

text \<open>Reading a core whose mode bytes are no discriminant is undefined behaviour, hence \<open>None\<close>.\<close>

definition dec_core :: "bytes \<Rightarrow> account_core option" where
  "dec_core bs =
     (case mode_try_from (slice bs 52 54) of
        Inl _ \<Rightarrow> None
      | Inr m \<Rightarrow> Some
          \<lparr>ac_lamports = of_nat (le_nat (slice bs 0 8)), ac_owner = slice bs 8 40,
           ac_slot = of_nat (le_nat (slice bs 40 48)), ac_commit_seq = of_nat (le_nat (slice bs 48 52)),
           ac_mode = m, ac_flags = bs ! 54, ac_padding = bs ! 55\<rparr>)"

abbreviation load_core :: "memory \<Rightarrow> nat \<Rightarrow> account_core option" where
  "load_core \<equiv> mem_load 56 dec_core"

abbreviation store_core :: "memory \<Rightarrow> nat \<Rightarrow> account_core \<Rightarrow> memory option" where
  "store_core \<equiv> mem_store enc_core"

abbreviation load_u32 :: "memory \<Rightarrow> nat \<Rightarrow> u32 option" where
  "load_u32 \<equiv> mem_load 4 dec_u32"

abbreviation store_u32 :: "memory \<Rightarrow> nat \<Rightarrow> u32 \<Rightarrow> memory option" where
  "store_u32 \<equiv> mem_store enc_u32"

section \<open>Data slices\<close>

record data_slice =
  ds_header :: nat
  ds_ptr :: nat

definition data_slice_init :: "nat \<Rightarrow> data_slice" where
  "data_slice_init header = \<lparr>ds_header = header, ds_ptr = header + DATA_HEADER_SIZE\<rparr>"

definition ds_len :: "memory \<Rightarrow> data_slice \<Rightarrow> nat option" where
  "ds_len m d = do {
     len \<leftarrow> load_u32 m (ds_header d);
     cap \<leftarrow> load_u32 m (ds_header d + 4);
     Some (unat (min len cap))
   }"

definition ds_capacity :: "memory \<Rightarrow> data_slice \<Rightarrow> nat option" where
  "ds_capacity m d = do { cap \<leftarrow> load_u32 m (ds_header d + 4); Some (unat cap) }"

definition ds_spare :: "memory \<Rightarrow> data_slice \<Rightarrow> nat option" where
  "ds_spare m d = do { cap \<leftarrow> ds_capacity m d; len \<leftarrow> ds_len m d; Some (cap - len) }"

definition ds_resize :: "memory \<Rightarrow> data_slice \<Rightarrow> nat \<Rightarrow> u8 \<Rightarrow> memory option" where
  "ds_resize m d len val = do {
     prev \<leftarrow> ds_len m d;
     let delta = len - prev;
     m \<leftarrow> (if delta > 0 then mem_write m (ds_ptr d + prev) (replicate delta val) else Some m);
     store_u32 m (ds_header d) (of_nat len)
   }"

definition ds_extend :: "memory \<Rightarrow> data_slice \<Rightarrow> bytes \<Rightarrow> memory option" where
  "ds_extend m d bs = do {
     len \<leftarrow> ds_len m d;
     m \<leftarrow> mem_write m (ds_ptr d + len) bs;
     raw \<leftarrow> load_u32 m (ds_header d);
     store_u32 m (ds_header d) (raw + of_nat (length bs))
   }"

definition ds_set :: "memory \<Rightarrow> data_slice \<Rightarrow> bytes \<Rightarrow> memory option" where
  "ds_set m d bs = do {
     m \<leftarrow> mem_write m (ds_ptr d) bs;
     store_u32 m (ds_header d) (of_nat (length bs))
   }"

text \<open>The \<open>Deref\<close> and \<open>DerefMut\<close> slices: reading all bytes, and writing a sub-range in place.\<close>

definition ds_get :: "memory \<Rightarrow> data_slice \<Rightarrow> bytes option" where
  "ds_get m d = do { len \<leftarrow> ds_len m d; mem_read m (ds_ptr d) len }"

definition ds_put :: "memory \<Rightarrow> data_slice \<Rightarrow> nat \<Rightarrow> bytes \<Rightarrow> memory option" where
  "ds_put m d off bs = do {
     len \<leftarrow> ds_len m d;
     if off + length bs \<le> len then mem_write m (ds_ptr d + off) bs else None
   }"

section \<open>Borrowed accounts\<close>

record borrowed_account =
  bw_header :: nat
  bw_core :: nat
  bw_data :: data_slice
  bw_version :: u32

text \<open>Image selection; the offset counts storage units from the header.\<close>

definition image_offset :: "u32 \<Rightarrow> u32 \<Rightarrow> bool \<Rightarrow> nat" where
  "image_offset space sequence active =
     (let even = (sequence mod 2 = 0);
          step = (if active \<noteq> even then 1 else 0 :: u32) in
      unat (step * space) + IMAGE_OFFSET)"

definition hdr_sequence :: "memory \<Rightarrow> nat \<Rightarrow> u32 option" where
  "hdr_sequence m h = load_u32 m h"

definition hdr_space :: "memory \<Rightarrow> nat \<Rightarrow> u32 option" where
  "hdr_space m h = load_u32 m (h + 4)"

definition borrowed_sequence :: "memory \<Rightarrow> borrowed_account \<Rightarrow> u32 option" where
  "borrowed_sequence m b = hdr_sequence m (bw_header b)"

definition borrowed_span :: "memory \<Rightarrow> nat \<Rightarrow> u32 option" where
  "borrowed_span m p = do { space \<leftarrow> hdr_space m p; Some (space * 2 + of_nat IMAGE_OFFSET) }"

definition borrowed_pubkey :: "memory \<Rightarrow> nat \<Rightarrow> pubkey option" where
  "borrowed_pubkey m p = mem_read m (p + STORAGE_UNIT) KEY_SIZE"

definition borrowed_init :: "memory \<Rightarrow> nat \<Rightarrow> borrowed_account option" where
  "borrowed_init m p = do {
     version \<leftarrow> hdr_sequence m p;
     space \<leftarrow> hdr_space m p;
     let core = p + image_offset space version True * STORAGE_UNIT;
     Some \<lparr>bw_header = p, bw_core = core, bw_data = data_slice_init (core + CORE_SIZE), bw_version = version\<rparr>
   }"

text \<open>\<open>copy_from_nonoverlapping\<close> is undefined on overlapping ranges.\<close>

definition mem_copy_nonoverlapping :: "memory \<Rightarrow> nat \<Rightarrow> nat \<Rightarrow> nat \<Rightarrow> memory option" where
  "mem_copy_nonoverlapping m src dst n =
     (if src + n \<le> dst \<or> dst + n \<le> src then do { bs \<leftarrow> mem_read m src n; mem_write m dst bs } else None)"

definition borrowed_translate :: "memory \<Rightarrow> borrowed_account \<Rightarrow> (memory \<times> borrowed_account) option" where
  "borrowed_translate m b = do {
     space \<leftarrow> hdr_space m (bw_header b);
     let dst = bw_header b + image_offset space (bw_version b) False * STORAGE_UNIT;
     if bw_core b = dst then Some (m, b)
     else do {
       m \<leftarrow> mem_copy_nonoverlapping m (bw_core b) dst (unat space * STORAGE_UNIT);
       Some (m, b\<lparr>bw_core := dst, bw_data := data_slice_init (dst + CORE_SIZE)\<rparr>)
     }
   }"

definition borrowed_commit :: "memory \<Rightarrow> borrowed_account \<Rightarrow> memory option" where
  "borrowed_commit m b = do {
     space \<leftarrow> hdr_space m (bw_header b);
     let shadow = bw_header b + image_offset space (bw_version b) False * STORAGE_UNIT;
     if bw_core b \<noteq> shadow then Some m
     else do {
       let nxt = bw_version b + 1;
       cur \<leftarrow> hdr_sequence m (bw_header b);
       if cur = bw_version b then store_u32 m (bw_header b) nxt else Some m
     }
   }"

definition borrowed_reset :: "memory \<Rightarrow> borrowed_account \<Rightarrow> borrowed_account option" where
  "borrowed_reset m b = do {
     version \<leftarrow> hdr_sequence m (bw_header b);
     space \<leftarrow> hdr_space m (bw_header b);
     let core = bw_header b + image_offset space version True * STORAGE_UNIT;
     Some (b\<lparr>bw_version := version, bw_core := core, bw_data := data_slice_init (core + CORE_SIZE)\<rparr>)
   }"

definition borrowed_rollback :: "memory \<Rightarrow> borrowed_account \<Rightarrow> memory option" where
  "borrowed_rollback m b = do {
     cur \<leftarrow> hdr_sequence m (bw_header b);
     store_u32 m (bw_header b) (cur - 1)
   }"

definition borrowed_owner :: "memory \<Rightarrow> borrowed_account \<Rightarrow> pubkey option" where
  "borrowed_owner m b = do { c \<leftarrow> load_core m (bw_core b); Some (ac_owner c) }"

definition borrowed_storage :: "memory \<Rightarrow> borrowed_account \<Rightarrow> bytes option" where
  "borrowed_storage m b = do { len \<leftarrow> ds_len m (bw_data b); mem_read m (bw_core b) (STATIC_SIZE + len) }"

definition borrowed_owned :: "memory \<Rightarrow> borrowed_account \<Rightarrow> owned_account option" where
  "borrowed_owned m b = do {
     core \<leftarrow> load_core m (bw_core b);
     dat \<leftarrow> ds_get m (bw_data b);
     Some \<lparr>oa_core = core, oa_data = dat\<rparr>
   }"

section \<open>Serialization\<close>

definition owned_allocation :: "owned_account \<Rightarrow> u32" where
  "owned_allocation a = of_nat ((STATIC_SIZE + length (oa_data a) + (ALIGNMENT - 1)) div ALIGNMENT)"

definition owned_units :: "owned_account \<Rightarrow> u32" where
  "owned_units a = owned_allocation a * 2 + of_nat IMAGE_OFFSET"

definition enc_account_header :: "u32 \<Rightarrow> bytes" where
  "enc_account_header space = enc_u32 0 @ enc_u32 space"

definition enc_data_header :: "u32 \<Rightarrow> u32 \<Rightarrow> bytes" where
  "enc_data_header len allocation =
     enc_u32 len @ enc_u32 (of_nat (unat allocation * STORAGE_UNIT - STATIC_SIZE))"

definition owned_serialize :: "memory \<Rightarrow> nat \<Rightarrow> owned_account \<Rightarrow> pubkey \<Rightarrow> memory option" where
  "owned_serialize m p a key = do {
     let allocation = owned_allocation a;
     m \<leftarrow> mem_write m p (enc_account_header allocation);
     let p = p + ACCOUNT_HEADER_SIZE;
     m \<leftarrow> mem_write m p key;
     let p = p + KEY_SIZE;
     m \<leftarrow> store_core m p (oa_core a);
     let p = p + CORE_SIZE;
     m \<leftarrow> mem_write m p (enc_data_header (of_nat (length (oa_data a))) allocation);
     let p = p + DATA_HEADER_SIZE;
     mem_write m p (oa_data a)
   }"

end
