(* ===== verification/Account_Image.thy ===== *)
theory Account_Image
  imports Account_Borrowed
begin

text \<open>
  Correctness of the two-image layout: a well-formed buffer, views of it, and what each operation
  of \<^verbatim>\<open>borrowed.rs\<close> does to the account a view shows and to the account a fresh reader sees.
\<close>

section \<open>Cells\<close>

definition core_ok :: "account_core \<Rightarrow> bool" where
  "core_ok c \<longleftrightarrow> length (ac_owner c) = 32"

lemma enc_core_length: "core_ok c \<Longrightarrow> length (enc_core c) = 56"
  by (simp add: enc_core_def core_ok_def)

lemma slice_append_l: "j \<le> length xs \<Longrightarrow> slice (xs @ ys) i j = slice xs i j"
  by (simp add: slice_def)

lemma slice_append_r: "length xs \<le> i \<Longrightarrow> i \<le> j \<Longrightarrow> slice (xs @ ys) i j = slice ys (i - length xs) (j - length xs)"
  by (simp add: slice_def)

lemma slice_whole: "length xs = n \<Longrightarrow> slice xs 0 n = xs"
  by auto

lemma dec_enc_core: "core_ok c \<Longrightarrow> dec_core (enc_core c) = Some c"
proof -
  assume "core_ok c"
  then have o: "length (ac_owner c) = 32" by (simp add: core_ok_def)
  have "slice (enc_core c) 0 8 = enc_u64 (ac_lamports c)" "slice (enc_core c) 8 40 = ac_owner c"
    "slice (enc_core c) 40 48 = enc_u64 (ac_slot c)" "slice (enc_core c) 48 52 = enc_u32 (ac_commit_seq c)"
    "slice (enc_core c) 52 54 = mode_bytes (ac_mode c)" "enc_core c ! 54 = ac_flags c" "enc_core c ! 55 = ac_padding c"
    using o by (simp_all add: enc_core_def slice_append_l slice_append_r slice_whole nth_append)
  then show ?thesis by (simp add: dec_core_def enc_u64_def enc_u32_def)
qed

interpretation core_cell: mem_codec 56 enc_core dec_core core_ok
  by unfold_locales (simp_all add: enc_core_length dec_enc_core)

lemma dec_core_ok: "dec_core bs = Some c \<Longrightarrow> length bs = 56 \<Longrightarrow> core_ok c"
  by (auto simp: dec_core_def core_ok_def split: sum.splits)

lemma load_core_ok: "load_core m p = Some c \<Longrightarrow> core_ok c"
  by (auto simp: mem_load_def bind_eq_Some_conv dest: dec_core_ok mem_readD(1))

lemma load_core_mem: "load_core m p = Some c \<Longrightarrow> p + 56 \<le> length m"
  by (auto simp: mem_load_def bind_eq_Some_conv dest!: mem_readD(2))

lemma load_u32_mem: "load_u32 m p = Some w \<Longrightarrow> p + 4 \<le> length m"
  by (auto simp: mem_load_def bind_eq_Some_conv dest!: mem_readD(2))

lemma unat_of_nat_u32: "k < 2 ^ 32 \<Longrightarrow> unat (of_nat k :: u32) = k"
  by (simp add: unat_of_nat take_bit_nat_eq_self)

section \<open>Images\<close>

text \<open>An image of \<open>n\<close> bytes at \<open>p\<close>: a valid core, and a data length within the capacity that fills the rest.\<close>

definition image_ok :: "memory \<Rightarrow> nat \<Rightarrow> nat \<Rightarrow> bool" where
  "image_ok m p n \<longleftrightarrow> (\<exists>c len cap. load_core m p = Some c \<and> load_u32 m (p + 56) = Some len \<and>
     load_u32 m (p + 60) = Some cap \<and> len \<le> cap \<and> 64 + unat cap = n \<and> p + n \<le> length m)"

definition image_account :: "memory \<Rightarrow> nat \<Rightarrow> owned_account option" where
  "image_account m p = do {
     c \<leftarrow> load_core m p;
     dat \<leftarrow> ds_get m (data_slice_init (p + 56));
     Some \<lparr>oa_core = c, oa_data = dat\<rparr>
   }"

lemma ds_init_simps [simp]:
  "ds_header (data_slice_init h) = h" "ds_ptr (data_slice_init h) = h + 8"
  by (simp_all add: data_slice_init_def DATA_HEADER_SIZE_def)

lemma ds_len_image:
  "ds_len m (data_slice_init (p + 56)) = do {
     len \<leftarrow> load_u32 m (p + 56); cap \<leftarrow> load_u32 m (p + 60); Some (unat (min len cap)) }"
  by (simp add: ds_len_def ac_simps)

lemma image_get:
  assumes "image_ok m p n"
  obtains c dat cap where "image_account m p = Some \<lparr>oa_core = c, oa_data = dat\<rparr>" "load_core m p = Some c" "core_ok c"
    "load_u32 m (p + 56) = Some (of_nat (length dat))" "load_u32 m (p + 60) = Some cap" "64 + unat cap = n"
    "64 + length dat \<le> n" "mem_read m (p + 64) (length dat) = Some dat" "p + n \<le> length m"
    "ds_len m (data_slice_init (p + 56)) = Some (length dat)" "64 \<le> n"
proof -
  obtain c len cap where i: "load_core m p = Some c" "load_u32 m (p + 56) = Some len"
      "load_u32 m (p + 60) = Some cap" "len \<le> cap" "64 + unat cap = n" "p + n \<le> length m"
    using assms by (auto simp: image_ok_def)
  have lc: "unat len \<le> unat cap" using i(4) by (simp add: word_le_nat_alt)
  then obtain dat where d: "mem_read m (p + 64) (unat len) = Some dat"
    using mem_read_Some [of "p + 64" "unat len" m] i(5,6) by auto
  have l: "ds_len m (data_slice_init (p + 56)) = Some (unat len)"
    using i by (simp add: ds_len_image min_def)
  then have "image_account m p = Some \<lparr>oa_core = c, oa_data = dat\<rparr>"
    using i(1) d by (simp add: image_account_def ds_get_def ac_simps)
  moreover have "length dat = unat len" using mem_readD(1) [OF d] by simp
  ultimately show ?thesis
    using that [of c dat cap] i d l lc load_core_ok [OF i(1)] unat_u32_less [of cap] by simp
qed

text \<open>The account of an image depends only on the bytes of the image, wherever they lie.\<close>

lemma image_ok_copy:
  assumes "image_ok m p n" "mem_read m p n = Some img" "mem_read m' q n = Some img" "q + n \<le> length m'"
  shows "image_ok m' q n \<and> image_account m' q = image_account m p"
proof -
  obtain c dat cap where g: "image_account m p = Some \<lparr>oa_core = c, oa_data = dat\<rparr>" "load_core m p = Some c"
    "load_u32 m (p + 56) = Some (of_nat (length dat))" "load_u32 m (p + 60) = Some cap" "64 + unat cap = n"
    "64 + length dat \<le> n" "mem_read m (p + 64) (length dat) = Some dat"
    "ds_len m (data_slice_init (p + 56)) = Some (length dat)" "64 \<le> n"
    by (rule image_get [OF assms(1)])
  have r: "mem_read m' (q + i) k = mem_read m (p + i) k" if "i + k \<le> n" for i k
    using mem_read_sub [OF assms(2) that] mem_read_sub [OF assms(3) that] by simp
  have l: "load_core m' q = load_core m p" "load_u32 m' (q + 56) = load_u32 m (p + 56)"
    "load_u32 m' (q + 60) = load_u32 m (p + 60)" "mem_read m' (q + 64) (length dat) = mem_read m (p + 64) (length dat)"
    using r [of 0 56] r [of 56 4] r [of 60 4] r [of 64 "length dat"] g(6,9) by (simp_all add: mem_load_def)
  have "ds_len m' (data_slice_init (q + 56)) = Some (length dat)"
    using g(8) l by (simp add: ds_len_image)
  then show ?thesis
    using assms(1,4) g(1,2,7,8) l by (auto simp: image_ok_def image_account_def ds_get_def ac_simps)
qed

lemma image_ok_cong:
  assumes "image_ok m p n" "mem_read m' p n = mem_read m p n" "length m' = length m"
  shows "image_ok m' p n \<and> image_account m' p = image_account m p"
proof -
  have "p + n \<le> length m" using assms(1) by (auto simp: image_ok_def)
  then show ?thesis using mem_read_Some [of p n m] image_ok_copy [OF assms(1), of _ m' p] assms(2,3) by auto
qed

lemma image_build:
  assumes "load_core m p = Some c" "load_u32 m (p + 56) = Some (of_nat (length dat))"
    "load_u32 m (p + 60) = Some cap" "64 + unat cap = n" "mem_read m (p + 64) (length dat) = Some dat"
    "64 + length dat \<le> n" "p + n \<le> length m"
  shows "image_ok m p n \<and> image_account m p = Some \<lparr>oa_core = c, oa_data = dat\<rparr>"
proof -
  have u: "unat (of_nat (length dat) :: u32) = length dat"
    using assms(4,6) unat_of_nat_u32 [of "length dat"] unat_u32_less [of cap] by simp
  then have le: "(of_nat (length dat) :: u32) \<le> cap" using assms(4,6) by (simp add: word_le_nat_alt)
  then have l: "ds_len m (data_slice_init (p + 56)) = Some (length dat)"
    using assms(2,3) u by (simp add: ds_len_image min_def)
  have "image_ok m p n" using assms le by (auto simp: image_ok_def)
  moreover have "image_account m p = Some \<lparr>oa_core = c, oa_data = dat\<rparr>"
    using assms(1,5) l by (simp add: image_account_def ds_get_def ac_simps)
  ultimately show ?thesis by simp
qed

lemma image_store_core:
  assumes "image_ok m p n" "image_account m p = Some a" "core_ok c"
  shows "\<exists>m'. store_core m p c = Some m' \<and> image_ok m' p n \<and> image_account m' p = Some (a\<lparr>oa_core := c\<rparr>) \<and>
    agree_outside p (p + n) m m'"
proof -
  obtain c0 dat cap where g: "image_account m p = Some \<lparr>oa_core = c0, oa_data = dat\<rparr>"
    "load_u32 m (p + 56) = Some (of_nat (length dat))" "load_u32 m (p + 60) = Some cap" "64 + unat cap = n"
    "64 + length dat \<le> n" "mem_read m (p + 64) (length dat) = Some dat" "p + n \<le> length m" "64 \<le> n"
    by (rule image_get [OF assms(1)])
  obtain m' where s: "store_core m p c = Some m'" using core_cell.store_Some [OF assms(3), of p m] g(7,8) by auto
  have "load_core m' p = Some c" using core_cell.load_store_same [OF assms(3) s] .
  then have "image_ok m' p n \<and> image_account m' p = Some \<lparr>oa_core = c, oa_data = dat\<rparr>"
    using core_cell.load_store_frame [OF assms(3) s, of "p + 56" 4 dec_u32] core_cell.load_store_frame [OF assms(3) s, of "p + 60" 4 dec_u32]
      core_cell.read_store_frame [OF assms(3) s, of "p + 64" "length dat"] core_cell.store_length [OF s] g
    by (intro image_build) simp_all
  moreover have "agree_outside p (p + n) m m'" using core_cell.store_agree [OF assms(3) s] g(8) by simp
  ultimately show ?thesis using s g(1) assms(2) by auto
qed

text \<open>
  The data operations rewrite a range of the data area and then the length: all four are the
  following step.
\<close>

lemma image_data_step:
  assumes i: "image_ok m p n" and a: "image_account m p = Some a"
    and off: "off \<le> length (oa_data a)" "64 + off + length bs \<le> n" "64 + len \<le> n" "len \<le> max (off + length bs) (length (oa_data a))"
    and w: "mem_write m (p + 64 + off) bs = Some m1" and s: "store_u32 m1 (p + 56) (of_nat len) = Some m2"
  shows "image_ok m2 p n \<and> image_account m2 p =
      Some (a\<lparr>oa_data := take len (take off (oa_data a) @ bs @ drop (off + length bs) (oa_data a))\<rparr>) \<and>
    agree_outside p (p + n) m m2"
proof -
  obtain c dat cap where g: "image_account m p = Some \<lparr>oa_core = c, oa_data = dat\<rparr>" "load_core m p = Some c"
    "load_u32 m (p + 60) = Some cap" "64 + unat cap = n"
    "64 + length dat \<le> n" "mem_read m (p + 64) (length dat) = Some dat" "p + n \<le> length m" "64 \<le> n"
    by (rule image_get [OF i])
  have ad: "oa_data a = dat" "oa_core a = c" using a g(1) by auto
  have l: "length m2 = length m" using mem_writeD(1) [OF w] u32_cell.store_length [OF s] by simp
  have agree: "agree_outside p (p + n) m m2"
    using agree_outside_trans [OF agree_outside_write [OF w] u32_cell.store_agree [OF _ s]] off(2) g(8) by simp
  have c2: "load_core m2 p = Some c"
    using u32_cell.load_store_frame [OF _ s, of p 56 dec_core] mem_read_write_frame [OF w, of p 56] g(2)
    by (simp add: mem_load_def)
  have cap2: "load_u32 m2 (p + 60) = Some cap"
    using u32_cell.load_store_frame [OF _ s, of "p + 60" 4 dec_u32] mem_read_write_frame [OF w, of "p + 60" 4] g(3)
    by (simp add: mem_load_def)
  define dat' where "dat' = take len (take off dat @ bs @ drop (off + length bs) dat)"
  have ld: "length dat' = len" using off(1,4) ad by (auto simp: dat'_def)
  have "mem_read m2 (p + 64) len = mem_read m1 (p + 64) len"
    using u32_cell.read_store_frame [OF _ s, of "p + 64" len] by simp
  moreover have "mem_read m1 (p + 64) len = Some dat'"
    unfolding dat'_def by (rule mem_read_splice [OF g(6) _ _ _ w]) (use off g(7) ad in auto)
  ultimately have r: "mem_read m2 (p + 64) (length dat') = Some dat'" unfolding ld by simp
  have "load_u32 m2 (p + 56) = Some (of_nat (length dat'))" unfolding ld by (rule u32_cell.load_store_same [OF _ s]) simp
  then have "image_ok m2 p n \<and> image_account m2 p = Some \<lparr>oa_core = c, oa_data = dat'\<rparr>"
    by (rule image_build [OF c2 _ cap2 g(4) r]) (use ld off(3) l g(7) in simp_all)
  moreover have "a = \<lparr>oa_core = c, oa_data = dat\<rparr>" using a g(1) by simp
  ultimately show ?thesis using agree unfolding dat'_def by simp
qed

definition data_resize :: "nat \<Rightarrow> u8 \<Rightarrow> bytes \<Rightarrow> bytes" where
  "data_resize len val dat = take len dat @ replicate (len - length dat) val"

lemma length_data_resize [simp]: "length (data_resize len val dat) = len"
  by (simp add: data_resize_def)

lemma image_ds_len: "image_ok m p n \<Longrightarrow> image_account m p = Some a \<Longrightarrow>
    ds_len m (data_slice_init (p + 56)) = Some (length (oa_data a)) \<and> ds_get m (data_slice_init (p + 56)) = Some (oa_data a) \<and>
    ds_capacity m (data_slice_init (p + 56)) = Some (n - 64) \<and> 64 + length (oa_data a) \<le> n \<and> load_u32 m (p + 56) = Some (of_nat (length (oa_data a)))"
  by (erule image_get) (auto simp: ds_get_def ds_capacity_def ac_simps)

lemma image_ds_spare: "image_ok m p n \<Longrightarrow> image_account m p = Some a \<Longrightarrow>
    ds_spare m (data_slice_init (p + 56)) = Some (n - 64 - length (oa_data a))"
  using image_ds_len [of m p n a] by (simp add: ds_spare_def)

lemma image_mem: "image_ok m p n \<Longrightarrow> p + n \<le> length m \<and> 64 \<le> n"
  by (erule image_get) simp

text \<open>What every data operation of an image guarantees.\<close>

definition image_set_data :: "memory \<Rightarrow> nat \<Rightarrow> nat \<Rightarrow> owned_account \<Rightarrow> bytes \<Rightarrow> memory option \<Rightarrow> bool" where
  "image_set_data m p n a dat r \<longleftrightarrow> (\<exists>m'. r = Some m' \<and> image_ok m' p n \<and>
     image_account m' p = Some (a\<lparr>oa_data := dat\<rparr>) \<and> agree_outside p (p + n) m m')"

lemma image_set_dataI:
  assumes "image_ok m p n" "image_account m p = Some a" "off \<le> length (oa_data a)" "64 + off + length bs \<le> n"
    "64 + len \<le> n" "len \<le> max (off + length bs) (length (oa_data a))"
    and "\<And>m1. mem_write m (p + 64 + off) bs = Some m1 \<Longrightarrow> r = store_u32 m1 (p + 56) (of_nat len)"
    and "dat = take len (take off (oa_data a) @ bs @ drop (off + length bs) (oa_data a))"
  shows "image_set_data m p n a dat r"
proof -
  note b = image_mem [OF assms(1)]
  obtain m1 where w: "mem_write m (p + 64 + off) bs = Some m1"
    using mem_write_Some [of "p + 64 + off" bs m] assms(4) b by auto
  obtain m2 where s: "store_u32 m1 (p + 56) (of_nat len) = Some m2"
    using u32_cell.store_Some [of "p + 56" m1 "of_nat len"] mem_writeD(1) [OF w] b by auto
  show ?thesis
    using image_data_step [OF assms(1-6) w s] assms(7) [OF w] assms(8) s by (simp add: image_set_data_def)
qed

lemma image_ds_resize:
  assumes "image_ok m p n" "image_account m p = Some a" "64 + len \<le> n"
  shows "image_set_data m p n a (data_resize len val (oa_data a)) (ds_resize m (data_slice_init (p + 56)) len val)"
proof -
  note l = image_ds_len [OF assms(1,2)]
  let ?d = "oa_data a" and ?bs = "replicate (len - length (oa_data a)) val" and ?off = "length (oa_data a)"
  have w: "mem_write m (p + 64 + ?off) [] = Some m" using l image_mem [OF assms(1)] by (simp add: mem_write_def)
  show ?thesis
  proof (rule image_set_dataI [where off = ?off and bs = ?bs and len = len])
    fix m1 assume "mem_write m (p + 64 + ?off) ?bs = Some m1"
    then show "ds_resize m (data_slice_init (p + 56)) len val = store_u32 m1 (p + 56) (of_nat len)"
      using l w by (cases "len \<le> ?off") (simp_all add: ds_resize_def ac_simps)
  next
    show "data_resize len val ?d = take len (take ?off ?d @ ?bs @ drop (?off + length ?bs) ?d)"
      by (simp add: data_resize_def)
  qed (use assms l in auto)
qed

lemma image_ds_extend:
  assumes "image_ok m p n" "image_account m p = Some a" "64 + length (oa_data a) + length bs \<le> n"
  shows "image_set_data m p n a (oa_data a @ bs) (ds_extend m (data_slice_init (p + 56)) bs)"
proof (rule image_set_dataI [where off = "length (oa_data a)" and bs = bs and len = "length (oa_data a) + length bs"])
  fix m1 assume w: "mem_write m (p + 64 + length (oa_data a)) bs = Some m1"
  have "load_u32 m (p + 56) = Some (of_nat (length (oa_data a)))"
    using image_ds_len [OF assms(1,2)] by simp
  then have "load_u32 m1 (p + 56) = Some (of_nat (length (oa_data a)))"
    using mem_read_write_frame [OF w, of "p + 56" 4] by (simp add: mem_load_def)
  then show "ds_extend m (data_slice_init (p + 56)) bs = store_u32 m1 (p + 56) (of_nat (length (oa_data a) + length bs))"
    using w image_ds_len [OF assms(1,2)] by (simp add: ds_extend_def ac_simps)
qed (use assms in simp_all)

lemma image_ds_set:
  assumes "image_ok m p n" "image_account m p = Some a" "64 + length bs \<le> n"
  shows "image_set_data m p n a bs (ds_set m (data_slice_init (p + 56)) bs)"
proof (rule image_set_dataI [where off = 0 and bs = bs and len = "length bs"])
  show "mem_write m (p + 64 + 0) bs = Some m1 \<Longrightarrow>
      ds_set m (data_slice_init (p + 56)) bs = store_u32 m1 (p + 56) (of_nat (length bs))" for m1
    by (simp add: ds_set_def ac_simps)
qed (use assms in simp_all)

lemma image_ds_put:
  assumes "image_ok m p n" "image_account m p = Some a" "off + length bs \<le> length (oa_data a)"
  shows "image_set_data m p n a (take off (oa_data a) @ bs @ drop (off + length bs) (oa_data a))
    (ds_put m (data_slice_init (p + 56)) off bs)"
proof -
  obtain c dat cap where g: "image_account m p = Some \<lparr>oa_core = c, oa_data = dat\<rparr>" "load_core m p = Some c"
    "load_u32 m (p + 56) = Some (of_nat (length dat))" "load_u32 m (p + 60) = Some cap" "64 + unat cap = n"
    "64 + length dat \<le> n" "mem_read m (p + 64) (length dat) = Some dat" "p + n \<le> length m"
    "ds_len m (data_slice_init (p + 56)) = Some (length dat)"
    by (rule image_get [OF assms(1)])
  have ad: "a = \<lparr>oa_core = c, oa_data = dat\<rparr>" using assms(2) g(1) by simp
  then have off: "off + length bs \<le> length dat" using assms(3) by simp
  obtain m' where w: "mem_write m (p + 64 + off) bs = Some m'"
    using mem_write_Some [of "p + 64 + off" bs m] off g(6,8) by auto
  define dat' where "dat' = take off dat @ bs @ drop (off + length bs) dat"
  have ld: "length dat' = length dat" using off by (simp add: dat'_def)
  have "mem_read m' (p + 64) (length dat) = Some (take (length dat) dat')"
    unfolding dat'_def by (rule mem_read_splice [OF g(7) _ _ _ w]) (use off g(6,8) in auto)
  then have r: "mem_read m' (p + 64) (length dat') = Some dat'" unfolding ld using ld by simp
  have f: "mem_read m' q k = mem_read m q k" if "q + k \<le> p + 64" for q k
    using mem_read_write_frame [OF w, of q k] that by simp
  have "image_ok m' p n \<and> image_account m' p = Some \<lparr>oa_core = c, oa_data = dat'\<rparr>"
    by (rule image_build [OF _ _ _ g(5) r]) (use f [of p 56] f [of "p + 56" 4] f [of "p + 60" 4] g ld mem_writeD(1) [OF w] in \<open>simp_all add: mem_load_def\<close>)
  moreover have "agree_outside p (p + n) m m'" using agree_outside_write [OF w] off g(6) by simp
  moreover have "ds_put m (data_slice_init (p + 56)) off bs = Some m'"
    using g(9) off w by (simp add: ds_put_def ac_simps)
  ultimately show ?thesis by (simp add: image_set_data_def ad dat'_def)
qed

section \<open>Buffers and views\<close>

definition image_ptr :: "nat \<Rightarrow> u32 \<Rightarrow> u32 \<Rightarrow> bool \<Rightarrow> nat" where
  "image_ptr h space sequence active = h + image_offset space sequence active * STORAGE_UNIT"

text \<open>What a fresh reader of the buffer sees.\<close>

definition published :: "memory \<Rightarrow> nat \<Rightarrow> owned_account option" where
  "published m h = do { b \<leftarrow> borrowed_init m h; borrowed_owned m b }"

definition buffer_ok :: "memory \<Rightarrow> nat \<Rightarrow> u32 \<Rightarrow> u32 \<Rightarrow> bool" where
  "buffer_ok m h sequence space \<longleftrightarrow>
     hdr_sequence m h = Some sequence \<and> hdr_space m h = Some space \<and>
     h + 40 + 16 * unat space \<le> length m \<and> image_ok m (image_ptr h space sequence True) (8 * unat space)"

text \<open>A view of the buffer: of the active image, or of the shadow image after translation.\<close>

definition view_ok :: "memory \<Rightarrow> borrowed_account \<Rightarrow> u32 \<Rightarrow> bool \<Rightarrow> bool" where
  "view_ok m b space active \<longleftrightarrow>
     buffer_ok m (bw_header b) (bw_version b) space \<and>
     bw_core b = image_ptr (bw_header b) space (bw_version b) active \<and>
     bw_data b = data_slice_init (bw_core b + 56) \<and> image_ok m (bw_core b) (8 * unat space)"

lemma image_ptr_cases:
  "image_ptr h space sequence active =
     (if active \<longleftrightarrow> even sequence then h + 40 else h + 40 + 8 * unat space)"
  by (auto simp: image_ptr_def image_offset_def Let_def STORAGE_UNIT_def IMAGE_OFFSET_def ACCOUNT_HEADER_SIZE_def
      KEY_SIZE_def simp flip: even_iff_mod_2_eq_zero)

lemma image_ptr_disjoint:
  "image_ptr h space sequence True + 8 * unat space \<le> image_ptr h space sequence False \<or>
   image_ptr h space sequence False + 8 * unat space \<le> image_ptr h space sequence True"
  by (auto simp: image_ptr_cases)

lemma image_ptr_bounds:
  "h + 40 \<le> image_ptr h space sequence active" "image_ptr h space sequence active + 8 * unat space \<le> h + 40 + 16 * unat space"
  by (auto simp: image_ptr_cases)

lemma image_ptr_Suc: "image_ptr h space (sequence + 1) active = image_ptr h space sequence (\<not> active)"
  by (auto simp: image_ptr_cases)

lemma borrowed_init_eq:
  "buffer_ok m h sequence space \<Longrightarrow> borrowed_init m h = Some
     \<lparr>bw_header = h, bw_core = image_ptr h space sequence True,
      bw_data = data_slice_init (image_ptr h space sequence True + 56), bw_version = sequence\<rparr>"
  by (simp add: borrowed_init_def buffer_ok_def image_ptr_def CORE_SIZE_def ac_simps)

lemma borrowed_owned_image:
  "bw_data b = data_slice_init (bw_core b + 56) \<Longrightarrow> borrowed_owned m b = image_account m (bw_core b)"
  by (simp add: borrowed_owned_def image_account_def)

lemma published_image:
  "buffer_ok m h sequence space \<Longrightarrow> published m h = image_account m (image_ptr h space sequence True)"
  using borrowed_init_eq [of m h sequence space] by (simp add: published_def borrowed_owned_image)

lemma view_owned: "view_ok m b space active \<Longrightarrow> borrowed_owned m b = image_account m (bw_core b)"
  by (simp add: view_ok_def borrowed_owned_image)

lemma init_view:
  assumes "buffer_ok m h sequence space"
  shows "\<exists>b. borrowed_init m h = Some b \<and> bw_header b = h \<and> view_ok m b space True \<and> borrowed_owned m b = published m h"
  using borrowed_init_eq [OF assms] assms by (auto simp: view_ok_def buffer_ok_def published_def)

text \<open>Writing inside the shadow image changes neither the header nor what readers see.\<close>

lemma buffer_shadow_write:
  assumes b: "buffer_ok m h sequence space"
    and a: "agree_outside (image_ptr h space sequence False) (image_ptr h space sequence False + 8 * unat space) m m'"
  shows "buffer_ok m' h sequence space \<and> published m' h = published m h"
proof -
  let ?A = "image_ptr h space sequence True" and ?S = "image_ptr h space sequence False"
  have l: "length m' = length m" using a by (rule agree_outside_length)
  have hdr: "hdr_sequence m' h = Some sequence" "hdr_space m' h = Some space"
    using agree_outside_load [OF a, of h 4 dec_u32] agree_outside_load [OF a, of "h + 4" 4 dec_u32]
      image_ptr_bounds(1) [of h space sequence False] b
    by (auto simp: hdr_sequence_def hdr_space_def buffer_ok_def)
  have "mem_read m' ?A (8 * unat space) = mem_read m ?A (8 * unat space)"
    using agree_outside_read [OF a] image_ptr_disjoint [of h space sequence] by auto
  then have img: "image_ok m' ?A (8 * unat space) \<and> image_account m' ?A = image_account m ?A"
    using b l by (intro image_ok_cong) (auto simp: buffer_ok_def)
  have ok: "buffer_ok m' h sequence space" using b hdr img l by (simp add: buffer_ok_def)
  then show ?thesis using img b by (simp add: published_image)
qed

lemma translate_clean:
  assumes v: "view_ok m b space True"
  shows "\<exists>m' b'. borrowed_translate m b = Some (m', b') \<and> view_ok m' b' space False \<and>
    bw_header b' = bw_header b \<and> bw_version b' = bw_version b \<and> borrowed_owned m' b' = borrowed_owned m b \<and>
    agree_outside (image_ptr (bw_header b) space (bw_version b) False)
       (image_ptr (bw_header b) space (bw_version b) False + 8 * unat space) m m'"
proof -
  define h n where "h = bw_header b" and "n = 8 * unat space"
  define A S where "A = image_ptr h space (bw_version b) True" and "S = image_ptr h space (bw_version b) False"
  have bo: "buffer_ok m h (bw_version b) space" and c: "bw_core b = A" and io: "image_ok m A n"
    using v by (auto simp: view_ok_def h_def A_def n_def)
  have d: "A + n \<le> S \<or> S + n \<le> A" using image_ptr_disjoint by (simp add: A_def S_def n_def)
  have n64: "64 \<le> n" by (rule image_get [OF io])
  have sp: "hdr_space m h = Some space" "S + n \<le> length m" "A + n \<le> length m"
    using image_ptr_bounds(2) [of h space "bw_version b" False] image_ptr_bounds(2) [of h space "bw_version b" True] bo
    by (simp_all add: buffer_ok_def S_def A_def n_def)
  obtain img where r: "mem_read m A n = Some img" using mem_read_Some [OF sp(3)] by blast
  have li: "length img = n" using mem_readD(1) [OF r] .
  obtain m' where w: "mem_write m S img = Some m'" using mem_write_Some [of S img m] sp(2) li by auto
  define b' where "b' = b\<lparr>bw_core := S, bw_data := data_slice_init (S + 56)\<rparr>"
  have "A \<noteq> S" using d n64 by auto
  then have t: "borrowed_translate m b = Some (m', b')"
    using sp(1) c r w d
    by (simp add: borrowed_translate_def mem_copy_nonoverlapping_def STORAGE_UNIT_def CORE_SIZE_def b'_def
        h_def S_def n_def image_ptr_def mult.commute Let_def)
  have a: "agree_outside S (S + n) m m'" using agree_outside_write [OF w] li by simp
  have bo': "buffer_ok m' h (bw_version b) space"
    using buffer_shadow_write [OF bo] a by (simp add: S_def n_def)
  have cp: "image_ok m' S n \<and> image_account m' S = image_account m A"
    using image_ok_copy [OF io r _ _ ] mem_read_write_same [OF w] li mem_writeD(1) [OF w] sp(2) by simp
  have "view_ok m' b' space False"
    using bo' cp by (simp add: view_ok_def b'_def h_def S_def n_def)
  moreover have "borrowed_owned m' b' = borrowed_owned m b"
    using cp view_owned [OF v] view_owned [OF calculation] c by (simp add: b'_def)
  ultimately show ?thesis using t a by (auto simp: b'_def S_def h_def n_def)
qed

abbreviation shadow_agree :: "borrowed_account \<Rightarrow> u32 \<Rightarrow> memory \<Rightarrow> memory \<Rightarrow> bool" where
  "shadow_agree b space \<equiv> agree_outside (image_ptr (bw_header b) space (bw_version b) False)
     (image_ptr (bw_header b) space (bw_version b) False + 8 * unat space)"

lemma translate_view:
  assumes "view_ok m b space active"
  shows "\<exists>m' b'. borrowed_translate m b = Some (m', b') \<and> view_ok m' b' space False \<and>
    bw_header b' = bw_header b \<and> bw_version b' = bw_version b \<and> borrowed_owned m' b' = borrowed_owned m b \<and>
    shadow_agree b space m m'"
proof (cases active)
  case True
  then show ?thesis using translate_clean assms by simp
next
  case False
  then have "borrowed_translate m b = Some (m, b)"
    using assms by (simp add: borrowed_translate_def view_ok_def buffer_ok_def image_ptr_def Let_def)
  then show ?thesis using False assms by simp
qed

lemma shadow_step:
  assumes v: "view_ok m b space False" and a: "shadow_agree b space m m'" and i: "image_ok m' (bw_core b) (8 * unat space)"
  shows "view_ok m' b space False \<and> published m' (bw_header b) = published m (bw_header b)"
  using buffer_shadow_write [OF _ a] v i by (simp add: view_ok_def)

lemma view_account: "view_ok m b space active \<Longrightarrow> \<exists>a. borrowed_owned m b = Some a \<and> image_account m (bw_core b) = Some a \<and> core_ok (oa_core a)"
  using view_owned [of m b space active] image_get [of m "bw_core b" "8 * unat space"]
  by (auto simp: view_ok_def) (metis owned_account.select_convs(1))

lemma view_store_core:
  assumes v: "view_ok m b space False" and o: "borrowed_owned m b = Some a" and c: "core_ok c"
  shows "\<exists>m'. store_core m (bw_core b) c = Some m' \<and> view_ok m' b space False \<and>
    borrowed_owned m' b = Some (a\<lparr>oa_core := c\<rparr>) \<and> shadow_agree b space m m'"
proof -
  have "image_ok m (bw_core b) (8 * unat space)" "image_account m (bw_core b) = Some a"
    using v o view_owned [OF v] by (auto simp: view_ok_def)
  from image_store_core [OF this c] obtain m' where m': "store_core m (bw_core b) c = Some m'"
      "image_ok m' (bw_core b) (8 * unat space)" "image_account m' (bw_core b) = Some (a\<lparr>oa_core := c\<rparr>)"
      "agree_outside (bw_core b) (bw_core b + 8 * unat space) m m'" by blast
  have "shadow_agree b space m m'" using m'(4) v by (simp add: view_ok_def)
  then show ?thesis using m'(1,3) shadow_step [OF v _ m'(2)] view_owned by metis
qed

text \<open>A data operation on a view of the shadow image, from the corresponding one on the image.\<close>

lemma view_data_op:
  assumes v: "view_ok m b space False" and o: "borrowed_owned m b = Some a"
    and op: "image_set_data m (bw_core b) (8 * unat space) a dat r"
  shows "\<exists>m'. r = Some m' \<and> view_ok m' b space False \<and> borrowed_owned m' b = Some (a\<lparr>oa_data := dat\<rparr>) \<and>
    shadow_agree b space m m'"
proof -
  obtain m' where m': "r = Some m'" "image_ok m' (bw_core b) (8 * unat space)"
      "image_account m' (bw_core b) = Some (a\<lparr>oa_data := dat\<rparr>)"
      "agree_outside (bw_core b) (bw_core b + 8 * unat space) m m'"
    using op by (auto simp: image_set_data_def)
  have "shadow_agree b space m m'" using m'(4) v by (simp add: view_ok_def)
  then show ?thesis using m'(1,3) shadow_step [OF v _ m'(2)] view_owned by metis
qed

section \<open>Publication\<close>

lemma header_write:
  assumes v: "view_ok m b space False" and s: "store_u32 m (bw_header b) w = Some m'"
  shows "hdr_sequence m' (bw_header b) = Some w" "hdr_space m' (bw_header b) = Some space" "length m' = length m"
    "bw_header b + 8 \<le> p \<Longrightarrow> mem_read m' p n = mem_read m p n"
  using v u32_cell.load_store_same [OF _ s] u32_cell.load_store_frame [OF _ s, of "bw_header b + 4" 4 dec_u32]
    u32_cell.store_length [OF s] u32_cell.read_store_frame [OF _ s, of p n]
  by (auto simp: view_ok_def buffer_ok_def hdr_sequence_def hdr_space_def)

lemma header_write_image:
  assumes v: "view_ok m b space False" and s: "store_u32 m (bw_header b) w = Some m'"
    and i: "image_ok m (image_ptr (bw_header b) space w True) (8 * unat space)"
  shows "buffer_ok m' (bw_header b) w space \<and>
    published m' (bw_header b) = image_account m (image_ptr (bw_header b) space w True)"
proof -
  let ?p = "image_ptr (bw_header b) space w True"
  note h = header_write [OF v s]
  have "image_ok m' ?p (8 * unat space) \<and> image_account m' ?p = image_account m ?p"
    using i h(3) h(4) [of ?p "8 * unat space"] image_ptr_bounds(1) [of "bw_header b" space w True]
    by (intro image_ok_cong) simp_all
  moreover from this have "buffer_ok m' (bw_header b) w space"
    using h v by (simp add: buffer_ok_def view_ok_def)
  ultimately show ?thesis by (simp add: published_image)
qed

lemma commit_shadow:
  assumes v: "view_ok m b space False"
  shows "\<exists>m'. borrowed_commit m b = Some m' \<and> buffer_ok m' (bw_header b) (bw_version b + 1) space \<and>
    published m' (bw_header b) = borrowed_owned m b \<and>
    (\<exists>m''. borrowed_rollback m' b = Some m'' \<and> buffer_ok m'' (bw_header b) (bw_version b) space \<and>
      published m'' (bw_header b) = published m (bw_header b))"
proof -
  let ?h = "bw_header b" and ?v = "bw_version b" and ?n = "8 * unat space"
  have bo: "buffer_ok m ?h ?v space" and c: "bw_core b = image_ptr ?h space ?v False"
    and si: "image_ok m (image_ptr ?h space ?v False) ?n" and ai: "image_ok m (image_ptr ?h space ?v True) ?n"
    using v by (auto simp: view_ok_def buffer_ok_def)
  obtain m' where s: "store_u32 m ?h (?v + 1) = Some m'"
    using u32_cell.store_Some [of ?h m "?v + 1"] bo by (auto simp: buffer_ok_def)
  have com: "borrowed_commit m b = Some m'"
    using bo c s by (simp add: borrowed_commit_def buffer_ok_def image_ptr_def Let_def)
  have p1: "buffer_ok m' ?h (?v + 1) space \<and> published m' ?h = borrowed_owned m b"
    using header_write_image [OF v s] si view_owned [OF v] c by (simp add: image_ptr_Suc)
  obtain m'' where s2: "store_u32 m' ?h ?v = Some m''"
    using u32_cell.store_Some [of ?h m' ?v] header_write(3) [OF v s] bo by (auto simp: buffer_ok_def)
  have roll: "borrowed_rollback m' b = Some m''"
    using p1 s2 by (simp add: borrowed_rollback_def buffer_ok_def)
  have m2: "store_u32 m ?h ?v = Some m''"
    using s s2 by (auto simp: mem_store_def mem_write_def split: if_splits)
  have "buffer_ok m'' ?h ?v space \<and> published m'' ?h = published m ?h"
    using header_write_image [OF v m2 ai] published_image [OF bo] by simp
  then show ?thesis using com p1 roll by blast
qed

lemma commit_clean: "view_ok m b space True \<Longrightarrow> borrowed_commit m b = Some m"
proof -
  assume v: "view_ok m b space True"
  then have "64 \<le> 8 * unat space" by (auto simp: view_ok_def dest: image_mem)
  then show ?thesis using v image_ptr_disjoint [of "bw_header b" space "bw_version b"]
    by (auto simp: borrowed_commit_def view_ok_def buffer_ok_def image_ptr_def [symmetric] Let_def)
qed

section \<open>Serialization\<close>

definition owned_ok :: "owned_account \<Rightarrow> bool" where
  "owned_ok a \<longleftrightarrow> core_ok (oa_core a) \<and> length (oa_data a) + 128 \<le> 2 ^ 32"

definition owned_image :: "owned_account \<Rightarrow> pubkey \<Rightarrow> bytes" where
  "owned_image a key = enc_u32 0 @ enc_u32 (owned_allocation a) @ key @ enc_core (oa_core a) @
     enc_u32 (of_nat (length (oa_data a))) @ enc_u32 (of_nat (unat (owned_allocation a) * 8 - 64)) @ oa_data a"

lemma owned_allocation_bounds:
  assumes "owned_ok a"
  shows "64 + length (oa_data a) \<le> 8 * unat (owned_allocation a)" "8 * unat (owned_allocation a) < 64 + length (oa_data a) + 8"
    "unat (owned_units a) = 5 + 2 * unat (owned_allocation a)"
proof -
  let ?k = "(64 + length (oa_data a) + 7) div 8"
  have k: "?k < 2 ^ 29 + 2" using assms by (simp add: owned_ok_def div_less_iff_less_mult)
  then have a: "unat (owned_allocation a) = ?k"
    unfolding owned_allocation_def STATIC_SIZE_def CORE_SIZE_def DATA_HEADER_SIZE_def ALIGNMENT_def
    by (subst unat_of_nat_u32) simp_all
  show "64 + length (oa_data a) \<le> 8 * unat (owned_allocation a)" "8 * unat (owned_allocation a) < 64 + length (oa_data a) + 8"
    unfolding a by presburger+
  have "owned_units a = of_nat (5 + 2 * unat (owned_allocation a))"
    by (simp add: owned_units_def IMAGE_OFFSET_def ACCOUNT_HEADER_SIZE_def KEY_SIZE_def STORAGE_UNIT_def)
  moreover have "5 + 2 * unat (owned_allocation a) < 2 ^ 32" using k unfolding a by simp
  ultimately show "unat (owned_units a) = 5 + 2 * unat (owned_allocation a)"
    using unat_of_nat_u32 by metis
qed

lemma owned_serialize_write:
  assumes "core_ok (oa_core a)" "length key = 32"
  shows "owned_serialize m p a key = mem_write m p (owned_image a key)"
  using assms enc_core_length [OF assms(1)]
  by (simp add: owned_serialize_def owned_image_def mem_write_append enc_account_header_def enc_data_header_def
      mem_store_def ACCOUNT_HEADER_SIZE_def KEY_SIZE_def CORE_SIZE_def DATA_HEADER_SIZE_def STORAGE_UNIT_def STATIC_SIZE_def
      Let_def ac_simps)

lemma owned_serialize_ok:
  assumes a: "owned_ok a" and k: "length key = 32" and b: "p + 8 * unat (owned_units a) \<le> length m"
  shows "\<exists>m'. owned_serialize m p a key = Some m' \<and> buffer_ok m' p 0 (owned_allocation a) \<and> published m' p = Some a \<and>
    borrowed_pubkey m' p = Some key \<and> borrowed_span m' p = Some (owned_units a) \<and>
    agree_outside p (p + 8 * unat (owned_units a)) m m'"
proof -
  let ?al = "owned_allocation a"
  let ?n = "104 + length (oa_data a)"
  note al = owned_allocation_bounds [OF a]
  have c: "core_ok (oa_core a)" using a by (simp add: owned_ok_def)
  have li: "length (owned_image a key) = ?n" using k enc_core_length [OF c] by (simp add: owned_image_def)
  obtain m' where w: "mem_write m p (owned_image a key) = Some m'"
    using mem_write_Some [of p "owned_image a key" m] li b al by auto
  have l: "length m' = length m" using mem_writeD(1) [OF w] .
  have r: "mem_read m' p ?n = Some (owned_image a key)" using mem_read_write_same [OF w] li by simp
  have f: "mem_read m' (p + i) j = Some (slice (owned_image a key) i (i + j))" if "i + j \<le> ?n" for i j
    using mem_read_sub [OF r that] .
  have s: "slice (owned_image a key) 0 4 = enc_u32 0" "slice (owned_image a key) 4 8 = enc_u32 ?al"
    "slice (owned_image a key) 8 40 = key" "slice (owned_image a key) 40 96 = enc_core (oa_core a)"
    "slice (owned_image a key) 96 100 = enc_u32 (of_nat (length (oa_data a)))"
    "slice (owned_image a key) 100 104 = enc_u32 (of_nat (unat ?al * 8 - 64))"
    "slice (owned_image a key) 104 ?n = oa_data a"
    using k enc_core_length [OF c] by (simp_all add: owned_image_def slice_append_l slice_append_r slice_whole)
  have hdr: "hdr_sequence m' p = Some 0" "hdr_space m' p = Some ?al" "borrowed_pubkey m' p = Some key"
    using f [of 0 4] f [of 4 4] f [of 8 32] s
    by (simp_all add: hdr_sequence_def hdr_space_def borrowed_pubkey_def mem_load_def STORAGE_UNIT_def KEY_SIZE_def)
  have cap: "64 + unat (of_nat (unat ?al * 8 - 64) :: u32) = 8 * unat ?al"
  proof -
    have "unat ?al * 8 - 64 < 2 ^ 32" using al(2) a unfolding owned_ok_def by linarith
    then show ?thesis using al(1) unat_of_nat_u32 [of "unat ?al * 8 - 64"] by simp
  qed
  have img: "image_ok m' (p + 40) (8 * unat ?al) \<and> image_account m' (p + 40) = Some \<lparr>oa_core = oa_core a, oa_data = oa_data a\<rparr>"
  proof (rule image_build [OF _ _ _ cap])
    show "load_core m' (p + 40) = Some (oa_core a)" using f [of 40 56] s dec_enc_core [OF c] by (simp add: mem_load_def)
    show "load_u32 m' (p + 40 + 56) = Some (of_nat (length (oa_data a)))" using f [of 96 4] s by (simp add: mem_load_def ac_simps)
    show "load_u32 m' (p + 40 + 60) = Some (of_nat (unat ?al * 8 - 64))" using f [of 100 4] s by (simp add: mem_load_def ac_simps)
    show "mem_read m' (p + 40 + 64) (length (oa_data a)) = Some (oa_data a)" using f [of 104 "length (oa_data a)"] s by (simp add: ac_simps)
  qed (use al b l in simp_all)
  have bo: "buffer_ok m' p 0 ?al"
    using hdr img al(3) b l by (simp add: buffer_ok_def image_ptr_cases)
  have "published m' p = Some a" using published_image [OF bo] img by (simp add: image_ptr_cases)
  moreover have "borrowed_span m' p = Some (owned_units a)" using hdr by (simp add: borrowed_span_def owned_units_def)
  moreover have "agree_outside p (p + 8 * unat (owned_units a)) m m'"
    using agree_outside_write [OF w] li al by simp
  ultimately show ?thesis using owned_serialize_write [OF c k] w bo hdr by simp
qed

end
