(* ===== verification/Account_Cow.thy ===== *)
theory Account_Cow
  imports Account_Image
begin

text \<open>
  Copy-on-write accounts: \<^verbatim>\<open>solana/account/src/cow/mod.rs\<close>, the account traits of \<^verbatim>\<open>traits.rs\<close> for
  \<open>AccountSharedData\<close>, the builder of \<^verbatim>\<open>cow/owned.rs\<close> and the field patches of \<^verbatim>\<open>patch.rs\<close>. Operations
  thread the memory that borrowed views point into; \<open>None\<close> stands for a panic or an access out
  of bounds. \<open>Arc<Vec<u8>>\<close> is copied before mutation, so an owned buffer is a value.
\<close>

section \<open>State\<close>

datatype cow_account = Borrowed borrowed_account | Owned owned_account

record shared_data =
  sd_cow :: cow_account
  sd_dirty :: u8

definition EXECUTABLE :: u8 where "EXECUTABLE = 1"
definition RENT_FUNDED :: u8 where "RENT_FUNDED = 2"

definition DIRTY_OWNER :: u8 where "DIRTY_OWNER = 1"
definition DIRTY_LAMPORTS :: u8 where "DIRTY_LAMPORTS = 2"
definition DIRTY_MODE :: u8 where "DIRTY_MODE = 4"
definition DIRTY_FLAGS :: u8 where "DIRTY_FLAGS = 8"
definition DIRTY_SLOT :: u8 where "DIRTY_SLOT = 16"
definition DIRTY_DATA :: u8 where "DIRTY_DATA = 32"
definition DIRTY_COMMIT_SEQ :: u8 where "DIRTY_COMMIT_SEQ = 64"
definition DIRTY_ALL :: u8 where "DIRTY_ALL = 127"

definition flags_contain :: "u8 \<Rightarrow> u8 \<Rightarrow> bool" where "flags_contain fs f \<longleftrightarrow> fs AND f = f"

definition flags_set :: "u8 \<Rightarrow> u8 \<Rightarrow> bool \<Rightarrow> u8" where
  "flags_set fs f b = (if b then fs OR f else fs AND NOT f)"

definition mark_dirty :: "u8 \<Rightarrow> shared_data \<Rightarrow> shared_data" where
  "mark_dirty f a = a\<lparr>sd_dirty := sd_dirty a OR f\<rparr>"

definition shared_dirty :: "shared_data \<Rightarrow> bool" where
  "shared_dirty a \<longleftrightarrow> sd_dirty a AND DIRTY_ALL \<noteq> 0"

definition shared_core :: "memory \<Rightarrow> shared_data \<Rightarrow> account_core option" where
  "shared_core m a = (case sd_cow a of Borrowed b \<Rightarrow> load_core m (bw_core b) | Owned ow \<Rightarrow> Some (oa_core ow))"

definition shared_core_update ::
  "(account_core \<Rightarrow> account_core) \<Rightarrow> memory \<Rightarrow> shared_data \<Rightarrow> (memory \<times> shared_data) option" where
  "shared_core_update f m a =
     (case sd_cow a of
        Borrowed b \<Rightarrow> do { c \<leftarrow> load_core m (bw_core b); m \<leftarrow> store_core m (bw_core b) (f c); Some (m, a) }
      | Owned ow \<Rightarrow> Some (m, a\<lparr>sd_cow := Owned (ow\<lparr>oa_core := f (oa_core ow)\<rparr>)\<rparr>))"

definition shared_owned :: "memory \<Rightarrow> shared_data \<Rightarrow> owned_account option" where
  "shared_owned m a = (case sd_cow a of Borrowed b \<Rightarrow> borrowed_owned m b | Owned ow \<Rightarrow> Some ow)"

definition shared_translate :: "memory \<Rightarrow> shared_data \<Rightarrow> (memory \<times> shared_data) option" where
  "shared_translate m a =
     (if shared_dirty a then Some (m, a)
      else case sd_cow a of
        Borrowed b \<Rightarrow> do { (m, b) \<leftarrow> borrowed_translate m b; Some (m, a\<lparr>sd_cow := Borrowed b\<rparr>) }
      | Owned ow \<Rightarrow> Some (m, a))"

section \<open>Copy-on-write storage\<close>

definition cow_promote :: "memory \<Rightarrow> cow_account \<Rightarrow> cow_account option" where
  "cow_promote m c = (case c of Borrowed b \<Rightarrow> do { ow \<leftarrow> borrowed_owned m b; Some (Owned ow) } | Owned ow \<Rightarrow> Some c)"

definition cow_data :: "memory \<Rightarrow> cow_account \<Rightarrow> bytes option" where
  "cow_data m c = (case c of Borrowed b \<Rightarrow> ds_get m (bw_data b) | Owned ow \<Rightarrow> Some (oa_data ow))"

text \<open>Writing a range of \<open>data_mut\<close>; indexing past the data panics.\<close>

definition cow_data_write :: "memory \<Rightarrow> cow_account \<Rightarrow> nat \<Rightarrow> bytes \<Rightarrow> (memory \<times> cow_account) option" where
  "cow_data_write m c off bs =
     (case c of
        Borrowed b \<Rightarrow> do { m \<leftarrow> ds_put m (bw_data b) off bs; Some (m, c) }
      | Owned ow \<Rightarrow>
          if off + length bs \<le> length (oa_data ow)
          then Some (m, Owned (ow\<lparr>oa_data := take off (oa_data ow) @ bs @ drop (off + length bs) (oa_data ow)\<rparr>))
          else None)"

definition cow_reserve :: "memory \<Rightarrow> cow_account \<Rightarrow> nat \<Rightarrow> cow_account option" where
  "cow_reserve m c additional =
     (case c of
        Borrowed b \<Rightarrow> do {
          spare \<leftarrow> ds_spare m (bw_data b);
          if spare \<ge> additional then Some c else cow_promote m c
        }
      | Owned ow \<Rightarrow> cow_promote m c)"

definition cow_resize :: "memory \<Rightarrow> cow_account \<Rightarrow> nat \<Rightarrow> u8 \<Rightarrow> (memory \<times> cow_account) option" where
  "cow_resize m c len val = do {
     fits \<leftarrow> (case c of Borrowed b \<Rightarrow> do { cap \<leftarrow> ds_capacity m (bw_data b); Some (len \<le> cap) } | Owned ow \<Rightarrow> Some False);
     case (fits, c) of
       (True, Borrowed b) \<Rightarrow> do { m \<leftarrow> ds_resize m (bw_data b) len val; Some (m, c) }
     | _ \<Rightarrow> do {
         c \<leftarrow> cow_promote m c;
         case c of
           Owned ow \<Rightarrow> Some (m, Owned (ow\<lparr>oa_data := data_resize len val (oa_data ow)\<rparr>))
         | Borrowed b \<Rightarrow> Some (m, c)
       }
   }"

definition cow_extend_from_slice :: "memory \<Rightarrow> cow_account \<Rightarrow> bytes \<Rightarrow> (memory \<times> cow_account) option" where
  "cow_extend_from_slice m c bs = do {
     c \<leftarrow> cow_reserve m c (length bs);
     case c of
       Borrowed b \<Rightarrow> do { m \<leftarrow> ds_extend m (bw_data b) bs; Some (m, c) }
     | Owned ow \<Rightarrow> Some (m, Owned (ow\<lparr>oa_data := oa_data ow @ bs\<rparr>))
   }"

definition cow_set_data_from_slice :: "memory \<Rightarrow> cow_account \<Rightarrow> bytes \<Rightarrow> (memory \<times> cow_account) option" where
  "cow_set_data_from_slice m c bs = do {
     dat \<leftarrow> cow_data m c;
     c \<leftarrow> cow_reserve m c (length bs - length dat);
     case c of
       Borrowed b \<Rightarrow> do { m \<leftarrow> ds_set m (bw_data b) bs; Some (m, c) }
     | Owned ow \<Rightarrow> Some (m, Owned (ow\<lparr>oa_data := bs\<rparr>))
   }"

section \<open>Reading\<close>

definition shared_data_bytes :: "memory \<Rightarrow> shared_data \<Rightarrow> bytes option" where
  "shared_data_bytes m a = cow_data m (sd_cow a)"

definition shared_lamports :: "memory \<Rightarrow> shared_data \<Rightarrow> u64 option" where
  "shared_lamports m a = do { c \<leftarrow> shared_core m a; Some (ac_lamports c) }"

definition shared_owner :: "memory \<Rightarrow> shared_data \<Rightarrow> pubkey option" where
  "shared_owner m a = do { c \<leftarrow> shared_core m a; Some (ac_owner c) }"

definition shared_executable :: "memory \<Rightarrow> shared_data \<Rightarrow> bool option" where
  "shared_executable m a = do { c \<leftarrow> shared_core m a; Some (flags_contain (ac_flags c) EXECUTABLE) }"

definition shared_slot :: "memory \<Rightarrow> shared_data \<Rightarrow> u64 option" where
  "shared_slot m a = do { c \<leftarrow> shared_core m a; Some (ac_slot c) }"

definition shared_mode :: "memory \<Rightarrow> shared_data \<Rightarrow> account_mode option" where
  "shared_mode m a = do { c \<leftarrow> shared_core m a; Some (ac_mode c) }"

definition shared_commit_seq :: "memory \<Rightarrow> shared_data \<Rightarrow> u32 option" where
  "shared_commit_seq m a = do { c \<leftarrow> shared_core m a; Some (ac_commit_seq c) }"

definition shared_eq :: "memory \<Rightarrow> shared_data \<Rightarrow> shared_data \<Rightarrow> bool option" where
  "shared_eq m a b = do {
     ca \<leftarrow> shared_core m a; cb \<leftarrow> shared_core m b;
     if ca \<noteq> cb then Some False
     else do { da \<leftarrow> shared_data_bytes m a; db \<leftarrow> shared_data_bytes m b; Some (da = db) }
   }"

definition can_writeback :: "memory \<Rightarrow> shared_data \<Rightarrow> bool option" where
  "can_writeback m a = do {
     mode \<leftarrow> shared_mode m a;
     w \<leftarrow> mode_is_writable mode;
     Some (w \<or> mode \<in> {Undelegating, Closed} \<and> flags_contain (sd_dirty a) DIRTY_MODE)
   }"

section \<open>Writing\<close>

definition set_lamports :: "u64 \<Rightarrow> memory \<Rightarrow> shared_data \<Rightarrow> (memory \<times> shared_data) option" where
  "set_lamports v m a = do {
     c \<leftarrow> shared_core m a;
     if ac_lamports c = v then Some (m, a)
     else do {
       (m, a) \<leftarrow> shared_translate m a;
       shared_core_update (\<lambda>c. c\<lparr>ac_lamports := v\<rparr>) m (mark_dirty DIRTY_LAMPORTS a)
     }
   }"

definition set_owner :: "pubkey \<Rightarrow> memory \<Rightarrow> shared_data \<Rightarrow> (memory \<times> shared_data) option" where
  "set_owner v m a = do {
     c \<leftarrow> shared_core m a;
     if ac_owner c = v then Some (m, a)
     else do {
       (m, a) \<leftarrow> shared_translate m a;
       shared_core_update (\<lambda>c. c\<lparr>ac_owner := v\<rparr>) m (mark_dirty DIRTY_OWNER a)
     }
   }"

text \<open>\<open>copy_from_slice\<close> panics when the source is not 32 bytes long.\<close>

definition copy_into_owner_from_slice :: "bytes \<Rightarrow> memory \<Rightarrow> shared_data \<Rightarrow> (memory \<times> shared_data) option" where
  "copy_into_owner_from_slice v m a = do {
     (m, a) \<leftarrow> shared_translate m a;
     if length v = 32 then shared_core_update (\<lambda>c. c\<lparr>ac_owner := v\<rparr>) m (mark_dirty DIRTY_OWNER a) else None
   }"

definition set_commit_seq :: "u32 \<Rightarrow> memory \<Rightarrow> shared_data \<Rightarrow> (memory \<times> shared_data) option" where
  "set_commit_seq v m a = do {
     c \<leftarrow> shared_core m a;
     if ac_commit_seq c = v then Some (m, a)
     else do {
       (m, a) \<leftarrow> shared_translate m a;
       shared_core_update (\<lambda>c. c\<lparr>ac_commit_seq := v\<rparr>) m (mark_dirty DIRTY_COMMIT_SEQ a)
     }
   }"

definition set_flags :: "u8 \<Rightarrow> memory \<Rightarrow> shared_data \<Rightarrow> (memory \<times> shared_data) option" where
  "set_flags v m a = do {
     c \<leftarrow> shared_core m a;
     if ac_flags c = v then Some (m, a)
     else do {
       (m, a) \<leftarrow> shared_translate m a;
       shared_core_update (\<lambda>c. c\<lparr>ac_flags := v\<rparr>) m (mark_dirty DIRTY_FLAGS a)
     }
   }"

definition set_executable :: "bool \<Rightarrow> memory \<Rightarrow> shared_data \<Rightarrow> (memory \<times> shared_data) option" where
  "set_executable v m a = do {
     c \<leftarrow> shared_core m a;
     set_flags (flags_set (ac_flags c) EXECUTABLE v) m a
   }"

text \<open>The lifecycle transition; validation precedes every write.\<close>

definition set_lifecycle ::
  "account_mode \<Rightarrow> u64 \<Rightarrow> memory \<Rightarrow> shared_data \<Rightarrow> (account_patch_error + memory \<times> shared_data) option" where
  "set_lifecycle mode slot m a = do {
     c \<leftarrow> shared_core m a;
     case validate_transition (ac_mode c) mode (ac_slot c) slot of
       Inl e \<Rightarrow> Some (Inl e)
     | Inr _ \<Rightarrow> do {
         (m, a) \<leftarrow> shared_translate m a;
         c \<leftarrow> shared_core m a;
         (m, a) \<leftarrow> (if ac_mode c \<noteq> mode
                   then shared_core_update (\<lambda>c. c\<lparr>ac_mode := mode\<rparr>) m (mark_dirty DIRTY_MODE a)
                   else Some (m, a));
         (m, a) \<leftarrow> shared_core_update (\<lambda>c. c\<lparr>ac_slot := slot\<rparr>) m (mark_dirty DIRTY_SLOT a);
         Some (Inr (m, a))
       }
   }"

definition with_cow ::
  "shared_data \<Rightarrow> (memory \<times> cow_account) option \<Rightarrow> (memory \<times> shared_data) option" where
  "with_cow a r = do { (m, c) \<leftarrow> r; Some (m, a\<lparr>sd_cow := c\<rparr>) }"

definition shared_resize :: "nat \<Rightarrow> u8 \<Rightarrow> memory \<Rightarrow> shared_data \<Rightarrow> (memory \<times> shared_data) option" where
  "shared_resize len val m a = do {
     (m, a) \<leftarrow> shared_translate m a;
     let a = mark_dirty DIRTY_DATA a;
     with_cow a (cow_resize m (sd_cow a) len val)
   }"

definition shared_extend_from_slice :: "bytes \<Rightarrow> memory \<Rightarrow> shared_data \<Rightarrow> (memory \<times> shared_data) option" where
  "shared_extend_from_slice bs m a = do {
     (m, a) \<leftarrow> shared_translate m a;
     let a = mark_dirty DIRTY_DATA a;
     with_cow a (cow_extend_from_slice m (sd_cow a) bs)
   }"

definition shared_set_data_from_slice :: "bytes \<Rightarrow> memory \<Rightarrow> shared_data \<Rightarrow> (memory \<times> shared_data) option" where
  "shared_set_data_from_slice bs m a = do {
     (m, a) \<leftarrow> shared_translate m a;
     let a = mark_dirty DIRTY_DATA a;
     with_cow a (cow_set_data_from_slice m (sd_cow a) bs)
   }"

text \<open>A write of \<open>bs\<close> at \<open>off\<close> through \<open>data_as_mut_slice\<close>.\<close>

definition shared_data_write :: "nat \<Rightarrow> bytes \<Rightarrow> memory \<Rightarrow> shared_data \<Rightarrow> (memory \<times> shared_data) option" where
  "shared_data_write off bs m a = do {
     (m, a) \<leftarrow> shared_translate m a;
     let a = mark_dirty DIRTY_DATA a;
     with_cow a (cow_data_write m (sd_cow a) off bs)
   }"

definition set_data_at :: "nat \<Rightarrow> bytes \<Rightarrow> memory \<Rightarrow> shared_data \<Rightarrow> (memory \<times> shared_data) option" where
  "set_data_at off bs m a = do {
     (m, a) \<leftarrow> shared_translate m a;
     let a = mark_dirty DIRTY_DATA a;
     dat \<leftarrow> shared_data_bytes m a;
     (m, a) \<leftarrow> (if off > length dat then shared_resize off 0 m a else Some (m, a));
     dat \<leftarrow> shared_data_bytes m a;
     let n = min (length dat - off) (length bs);
     (m, a) \<leftarrow> shared_data_write off (take n bs) m a;
     shared_extend_from_slice (drop n bs) m a
   }"

section \<open>Patches\<close>

definition MAX_DATA_CHUNK_SIZE :: nat where "MAX_DATA_CHUNK_SIZE = 65535 - 256"

datatype account_field_patch =
    Lamports u64
  | Owner pubkey
  | DataAt nat bytes
  | Lifecycle account_mode u64
  | DataLen nat
  | CommitSeq u32

definition ok_or_panic :: "'a option \<Rightarrow> ('e + 'a) option" where
  "ok_or_panic r = do { x \<leftarrow> r; Some (Inr x) }"

fun patch_apply ::
  "account_field_patch \<Rightarrow> memory \<Rightarrow> shared_data \<Rightarrow> (account_patch_error + memory \<times> shared_data) option" where
  "patch_apply (Lamports v) m a = ok_or_panic (set_lamports v m a)"
| "patch_apply (Owner v) m a = ok_or_panic (set_owner v m a)"
| "patch_apply (Lifecycle mode slot) m a = set_lifecycle mode slot m a"
| "patch_apply (DataAt off dat) m a = ok_or_panic (set_data_at off dat m a)"
| "patch_apply (DataLen len) m a = ok_or_panic (shared_resize len 0 m a)"
| "patch_apply (CommitSeq q) m a = ok_or_panic (set_commit_seq q m a)"

text \<open>\<open>slice::chunks\<close>: pieces of \<open>k\<close> elements, the last one possibly shorter.\<close>

function slice_chunks :: "nat \<Rightarrow> 'a list \<Rightarrow> 'a list list" where
  "slice_chunks k xs = (if xs = [] \<or> k = 0 then [] else take k xs # slice_chunks k (drop k xs))"
  by pat_completeness auto
termination
  by (relation "measure (\<lambda>(k, xs). length xs)") (simp_all add: diff_less)

declare slice_chunks.simps [simp del]

fun chunk_patches :: "nat \<Rightarrow> bytes list \<Rightarrow> account_field_patch list" where
  "chunk_patches i [] = []"
| "chunk_patches i (c # cs) = DataAt (i * MAX_DATA_CHUNK_SIZE) c # chunk_patches (Suc i) cs"

definition patch_sequence :: "owned_account \<Rightarrow> account_field_patch list" where
  "patch_sequence a =
     [Lamports (ac_lamports (oa_core a)), Lifecycle (ac_mode (oa_core a)) (ac_slot (oa_core a)),
      CommitSeq (ac_commit_seq (oa_core a)), Owner (ac_owner (oa_core a)), DataLen (length (oa_data a))]
     @ chunk_patches 0 (slice_chunks MAX_DATA_CHUNK_SIZE (oa_data a))"

section \<open>Builders and readers\<close>

definition default_core :: account_core where
  "default_core = \<lparr>ac_lamports = 0, ac_owner = replicate 32 0, ac_slot = 0, ac_commit_seq = 0, ac_mode = Missing,
     ac_flags = 0, ac_padding = 0\<rparr>"

definition default_owned :: owned_account where
  "default_owned = \<lparr>oa_core = default_core, oa_data = []\<rparr>"

definition builder_lamports :: "u64 \<Rightarrow> owned_account \<Rightarrow> owned_account" where
  "builder_lamports v a = a\<lparr>oa_core := (oa_core a)\<lparr>ac_lamports := v\<rparr>\<rparr>"

definition builder_data :: "bytes \<Rightarrow> owned_account \<Rightarrow> owned_account" where
  "builder_data v a = a\<lparr>oa_data := v\<rparr>"

definition builder_owner :: "pubkey \<Rightarrow> owned_account \<Rightarrow> owned_account" where
  "builder_owner v a = a\<lparr>oa_core := (oa_core a)\<lparr>ac_owner := v\<rparr>\<rparr>"

definition builder_mode :: "account_mode \<Rightarrow> owned_account \<Rightarrow> owned_account" where
  "builder_mode v a = a\<lparr>oa_core := (oa_core a)\<lparr>ac_mode := v\<rparr>\<rparr>"

definition builder_executable :: "bool \<Rightarrow> owned_account \<Rightarrow> owned_account" where
  "builder_executable v a = a\<lparr>oa_core := (oa_core a)\<lparr>ac_flags := flags_set (ac_flags (oa_core a)) EXECUTABLE v\<rparr>\<rparr>"

definition builder_slot :: "u64 \<Rightarrow> owned_account \<Rightarrow> owned_account" where
  "builder_slot v a = a\<lparr>oa_core := (oa_core a)\<lparr>ac_slot := v\<rparr>\<rparr>"

definition builder_commit_seq :: "u32 \<Rightarrow> owned_account \<Rightarrow> owned_account" where
  "builder_commit_seq v a = a\<lparr>oa_core := (oa_core a)\<lparr>ac_commit_seq := v\<rparr>\<rparr>"

text \<open>Wrapping an owned or a borrowed account; a new wrapper has no dirty markers.\<close>

definition shared_from_owned :: "owned_account \<Rightarrow> shared_data" where
  "shared_from_owned a = \<lparr>sd_cow = Owned a, sd_dirty = 0\<rparr>"

definition shared_from_borrowed :: "borrowed_account \<Rightarrow> shared_data" where
  "shared_from_borrowed b = \<lparr>sd_cow = Borrowed b, sd_dirty = 0\<rparr>"

definition shared_new :: "u64 \<Rightarrow> nat \<Rightarrow> pubkey \<Rightarrow> shared_data" where
  "shared_new lamports space owner =
     shared_from_owned (builder_owner owner (builder_data (replicate space 0) (builder_lamports lamports default_owned)))"

text \<open>Cloning copies a borrowed image to the heap.\<close>

definition cow_clone :: "memory \<Rightarrow> cow_account \<Rightarrow> cow_account option" where
  "cow_clone m c = (case c of Borrowed b \<Rightarrow> do { ow \<leftarrow> borrowed_owned m b; Some (Owned ow) } | Owned ow \<Rightarrow> Some (Owned ow))"

section \<open>Lamport arithmetic\<close>

datatype lamports_error = ArithmeticUnderflow | ArithmeticOverflow

definition u64_checked_add :: "u64 \<Rightarrow> u64 \<Rightarrow> u64 option" where
  "u64_checked_add a b = (if unat a + unat b < 2 ^ 64 then Some (a + b) else None)"

definition u64_checked_sub :: "u64 \<Rightarrow> u64 \<Rightarrow> u64 option" where
  "u64_checked_sub a b = (if b \<le> a then Some (a - b) else None)"

definition checked_add_lamports :: "u64 \<Rightarrow> memory \<Rightarrow> shared_data \<Rightarrow> (lamports_error + memory \<times> shared_data) option" where
  "checked_add_lamports v m a = do {
     l \<leftarrow> shared_lamports m a;
     case u64_checked_add l v of None \<Rightarrow> Some (Inl ArithmeticOverflow) | Some s \<Rightarrow> ok_or_panic (set_lamports s m a)
   }"

definition checked_sub_lamports :: "u64 \<Rightarrow> memory \<Rightarrow> shared_data \<Rightarrow> (lamports_error + memory \<times> shared_data) option" where
  "checked_sub_lamports v m a = do {
     l \<leftarrow> shared_lamports m a;
     case u64_checked_sub l v of None \<Rightarrow> Some (Inl ArithmeticUnderflow) | Some s \<Rightarrow> ok_or_panic (set_lamports s m a)
   }"

definition saturating_add_lamports :: "u64 \<Rightarrow> memory \<Rightarrow> shared_data \<Rightarrow> (memory \<times> shared_data) option" where
  "saturating_add_lamports v m a = do {
     l \<leftarrow> shared_lamports m a;
     set_lamports (case u64_checked_add l v of None \<Rightarrow> - 1 | Some s \<Rightarrow> s) m a
   }"

definition saturating_sub_lamports :: "u64 \<Rightarrow> memory \<Rightarrow> shared_data \<Rightarrow> (memory \<times> shared_data) option" where
  "saturating_sub_lamports v m a = do {
     l \<leftarrow> shared_lamports m a;
     set_lamports (case u64_checked_sub l v of None \<Rightarrow> 0 | Some s \<Rightarrow> s) m a
   }"

section \<open>Sequence locks\<close>

text \<open>
  \<open>AccountSeqLock::read\<close> races with writers of the buffer. One round of its loop sees the memory at
  three moments: while the reader runs, when the sequence is compared, and when the view is
  reset; a schedule lists these memories round by round. \<open>Some None\<close> is a loop that has not
  returned within the schedule.
\<close>

record seq_lock =
  sl_account :: shared_data
  sl_sequence :: "u32 option"

definition seq_lock_new :: "shared_data \<Rightarrow> seq_lock" where
  "seq_lock_new a = \<lparr>sl_account = a,
     sl_sequence = (case sd_cow a of Borrowed b \<Rightarrow> Some (bw_version b) | Owned ow \<Rightarrow> None)\<rparr>"

fun seq_lock_read ::
  "(memory \<Rightarrow> shared_data \<Rightarrow> 'r) \<Rightarrow> (memory \<times> memory \<times> memory) list \<Rightarrow> seq_lock \<Rightarrow> ('r \<times> seq_lock) option option" where
  "seq_lock_read reader [] l = Some None"
| "seq_lock_read reader ((mr, mc, ms) # sched) l =
     (let pre = (case sl_sequence l of Some q \<Rightarrow> q | None \<Rightarrow> 0);
          r = reader mr (sl_account l) in
      case sd_cow (sl_account l) of
        Borrowed b \<Rightarrow> do {
          post \<leftarrow> borrowed_sequence mc b;
          if pre = post then Some (Some (r, l))
          else do {
            b \<leftarrow> borrowed_reset ms b;
            seq_lock_read reader sched
              \<lparr>sl_account = (sl_account l)\<lparr>sd_cow := Borrowed b\<rparr>, sl_sequence = Some (bw_version b)\<rparr>
          }
        }
      | Owned ow \<Rightarrow> Some (Some (r, l)))"

end
