(* ===== verification/Account_Refine.thy ===== *)
theory Account_Refine
  imports Account_Cow
begin

text \<open>
  Refinement of copy-on-write accounts: every mutating operation on a shared account implements a
  pure update of the account value and its dirty markers, never writes outside the shadow image
  of a borrowed buffer, and keeps the buffer's published account as it was.
\<close>

section \<open>Invariant and frame\<close>

definition shared_ok :: "memory \<Rightarrow> shared_data \<Rightarrow> bool" where
  "shared_ok m a \<longleftrightarrow>
     (case sd_cow a of
        Borrowed b \<Rightarrow> \<exists>space active. view_ok m b space active \<and> (shared_dirty a \<longrightarrow> \<not> active)
      | Owned ow \<Rightarrow> core_ok (oa_core ow))"

text \<open>The account is ready for writing: a borrowed view points at the shadow image.\<close>

definition shared_writable :: "memory \<Rightarrow> shared_data \<Rightarrow> bool" where
  "shared_writable m a \<longleftrightarrow>
     (case sd_cow a of
        Borrowed b \<Rightarrow> \<exists>space. view_ok m b space False
      | Owned ow \<Rightarrow> core_ok (oa_core ow))"

definition shared_frame :: "memory \<Rightarrow> shared_data \<Rightarrow> memory \<Rightarrow> shared_data \<Rightarrow> bool" where
  "shared_frame m a m' a' \<longleftrightarrow>
     (case sd_cow a of
        Borrowed b \<Rightarrow>
          (\<exists>space. hdr_space m (bw_header b) = Some space \<and> shadow_agree b space m m') \<and>
          (case sd_cow a' of
             Borrowed b' \<Rightarrow> bw_header b' = bw_header b \<and> bw_version b' = bw_version b
           | Owned ow' \<Rightarrow> True)
      | Owned ow \<Rightarrow> m' = m \<and> (\<exists>ow'. sd_cow a' = Owned ow'))"

text \<open>What a mutating operation guarantees: it succeeds with the given value and markers.\<close>

definition update_ok ::
  "memory \<Rightarrow> shared_data \<Rightarrow> (memory \<times> shared_data) option \<Rightarrow> owned_account \<times> u8 \<Rightarrow> bool" where
  "update_ok m a r s \<longleftrightarrow> (\<exists>m' a'. r = Some (m', a') \<and> shared_ok m' a' \<and> shared_owned m' a' = Some (fst s) \<and>
     sd_dirty a' = snd s \<and> shared_frame m a m' a')"

lemma writable_ok: "shared_writable m a \<Longrightarrow> shared_ok m a"
  by (auto simp: shared_writable_def shared_ok_def split: cow_account.splits)

lemma writable_mark [simp]: "shared_writable m (mark_dirty f a) = shared_writable m a"
  by (simp add: shared_writable_def mark_dirty_def)

lemma mark_dirty_simps [simp]:
  "sd_cow (mark_dirty f a) = sd_cow a" "sd_dirty (mark_dirty f a) = sd_dirty a OR f"
  "shared_owned m (mark_dirty f a) = shared_owned m a" "shared_core m (mark_dirty f a) = shared_core m a"
  "shared_frame m (mark_dirty f a) m' a' = shared_frame m a m' a'" "shared_frame m a m' (mark_dirty f a') = shared_frame m a m' a'"
  by (simp_all add: mark_dirty_def shared_owned_def shared_core_def shared_frame_def split: cow_account.split)

lemma shared_account:
  assumes "shared_ok m a"
  obtains acc where "shared_owned m a = Some acc" "shared_core m a = Some (oa_core acc)" "core_ok (oa_core acc)"
    "shared_data_bytes m a = Some (oa_data acc)"
proof (cases "sd_cow a")
  case (Borrowed b)
  then obtain space active where v: "view_ok m b space active" using assms by (auto simp: shared_ok_def)
  then obtain acc where o: "borrowed_owned m b = Some acc" "core_ok (oa_core acc)" using view_account by blast
  then have "load_core m (bw_core b) = Some (oa_core acc)" "ds_get m (bw_data b) = Some (oa_data acc)"
    by (auto simp: borrowed_owned_def bind_eq_Some_conv)
  then show ?thesis
    using that o Borrowed by (simp add: shared_owned_def shared_core_def shared_data_bytes_def cow_data_def)
next
  case (Owned ow)
  then show ?thesis
    using that assms by (simp add: shared_ok_def shared_owned_def shared_core_def shared_data_bytes_def cow_data_def)
qed

lemma shared_coreD: "shared_ok m a \<Longrightarrow> shared_owned m a = Some acc \<Longrightarrow>
    shared_core m a = Some (oa_core acc) \<and> core_ok (oa_core acc) \<and> shared_data_bytes m a = Some (oa_data acc)"
  by (erule shared_account) simp

lemma shared_frame_refl: "shared_ok m a \<Longrightarrow> shared_frame m a m a"
  by (auto simp: shared_ok_def shared_frame_def view_ok_def buffer_ok_def split: cow_account.splits)

lemma hdr_space_agree:
  "shadow_agree b space m m' \<Longrightarrow> hdr_space m' (bw_header b) = hdr_space m (bw_header b)"
  using agree_outside_load [of _ _ m m' "bw_header b + 4" 4 dec_u32] image_ptr_bounds(1) [of "bw_header b" space "bw_version b" False]
  by (auto simp: hdr_space_def)

lemma shared_frame_trans:
  assumes "shared_frame m a m' a'" "shared_frame m' a' m'' a''"
  shows "shared_frame m a m'' a''"
proof (cases "sd_cow a")
  case (Owned ow)
  then show ?thesis using assms by (auto simp: shared_frame_def split: cow_account.splits)
next
  case (Borrowed b)
  then obtain space where s: "hdr_space m (bw_header b) = Some space" "shadow_agree b space m m'"
    using assms(1) by (auto simp: shared_frame_def)
  note h = hdr_space_agree [OF s(2)]
  show ?thesis
  proof (cases "sd_cow a'")
    case (Owned ow)
    then have "m'' = m'" "\<exists>ow. sd_cow a'' = Owned ow" using assms(2) by (simp_all add: shared_frame_def)
    then show ?thesis using Borrowed s unfolding shared_frame_def by (auto split: cow_account.splits)
  next
    case B': (Borrowed b')
    then have b': "bw_header b' = bw_header b" "bw_version b' = bw_version b"
      using assms(1) Borrowed by (simp_all add: shared_frame_def)
    obtain space' where s': "hdr_space m' (bw_header b') = Some space'" "shadow_agree b' space' m' m''"
      using assms(2) B' by (auto simp: shared_frame_def)
    then have "space' = space" using h s(1) b' by simp
    then have "shadow_agree b space m' m''" using s'(2) b' by simp
    then have "shadow_agree b space m m''" using s(2) agree_outside_trans by blast
    then show ?thesis
      using s(1) assms(2) B' b' unfolding shared_frame_def Borrowed by (simp split: cow_account.splits)
  qed
qed

lemma update_ok_trans:
  assumes "update_ok m a r s" and "\<And>m' a'. r = Some (m', a') \<Longrightarrow> shared_ok m' a' \<Longrightarrow>
      shared_owned m' a' = Some (fst s) \<Longrightarrow> sd_dirty a' = snd s \<Longrightarrow> update_ok m' a' (f (m', a')) t"
  shows "update_ok m a (Option.bind r f) t"
proof -
  obtain m' a' where 1: "r = Some (m', a')" "shared_ok m' a'" "shared_owned m' a' = Some (fst s)" "sd_dirty a' = snd s"
      "shared_frame m a m' a'"
    using assms(1) by (auto simp: update_ok_def)
  from assms(2) [OF 1(1-4)] obtain m'' a'' where 2: "f (m', a') = Some (m'', a'')" "shared_ok m'' a''"
      "shared_owned m'' a'' = Some (fst t)" "sd_dirty a'' = snd t" "shared_frame m' a' m'' a''"
    by (auto simp: update_ok_def)
  show ?thesis using 1(1) 2 shared_frame_trans [OF 1(5) 2(5)] by (auto simp: update_ok_def)
qed

section \<open>Steps\<close>

lemma translate_step:
  assumes ok: "shared_ok m a" and o: "shared_owned m a = Some acc"
  shows "\<exists>m' a'. shared_translate m a = Some (m', a') \<and> shared_writable m' a' \<and> shared_owned m' a' = Some acc \<and>
    sd_dirty a' = sd_dirty a \<and> shared_frame m a m' a'"
proof (cases "sd_cow a")
  case (Owned ow)
  then have "shared_translate m a = Some (m, a)" by (simp add: shared_translate_def)
  then show ?thesis using ok o Owned shared_frame_refl [OF ok] by (simp add: shared_ok_def shared_writable_def)
next
  case (Borrowed b)
  obtain space active where v: "view_ok m b space active" and d: "shared_dirty a \<longrightarrow> \<not> active"
    using ok Borrowed by (auto simp: shared_ok_def)
  show ?thesis
  proof (cases "shared_dirty a")
    case True
    then have "shared_translate m a = Some (m, a)" by (simp add: shared_translate_def)
    moreover have "shared_writable m a" using v d True Borrowed by (auto simp: shared_writable_def)
    ultimately show ?thesis using o shared_frame_refl [OF ok] by simp
  next
    case False
    obtain m' b' where t: "borrowed_translate m b = Some (m', b')" "view_ok m' b' space False" "bw_header b' = bw_header b"
        "bw_version b' = bw_version b" "borrowed_owned m' b' = borrowed_owned m b" "shadow_agree b space m m'"
      using translate_view [OF v] by blast
    let ?a = "a\<lparr>sd_cow := Borrowed b'\<rparr>"
    have "shared_translate m a = Some (m', ?a)" using False Borrowed t(1) by (simp add: shared_translate_def)
    moreover have "shared_writable m' ?a" using t(2) by (auto simp: shared_writable_def)
    moreover have "shared_owned m' ?a = Some acc" using o Borrowed t(5) by (simp add: shared_owned_def)
    moreover have "shared_frame m a m' ?a"
      using Borrowed t(3,4,6) v by (simp add: shared_frame_def view_ok_def buffer_ok_def)
    ultimately show ?thesis by simp
  qed
qed

lemma core_update_step:
  assumes w: "shared_writable m a" and o: "shared_owned m a = Some acc" and c: "core_ok (f (oa_core acc))"
  shows "\<exists>m' a'. shared_core_update f m a = Some (m', a') \<and> shared_writable m' a' \<and>
    shared_owned m' a' = Some (acc\<lparr>oa_core := f (oa_core acc)\<rparr>) \<and> sd_dirty a' = sd_dirty a \<and> shared_frame m a m' a'"
proof (cases "sd_cow a")
  case (Owned ow)
  then show ?thesis using o c by (simp add: shared_core_update_def shared_writable_def shared_owned_def shared_frame_def)
next
  case (Borrowed b)
  obtain space where v: "view_ok m b space False" using w Borrowed by (auto simp: shared_writable_def)
  have bo: "borrowed_owned m b = Some acc" using o Borrowed by (simp add: shared_owned_def)
  then have l: "load_core m (bw_core b) = Some (oa_core acc)" by (auto simp: borrowed_owned_def bind_eq_Some_conv)
  obtain m' where s: "store_core m (bw_core b) (f (oa_core acc)) = Some m'" "view_ok m' b space False"
      "borrowed_owned m' b = Some (acc\<lparr>oa_core := f (oa_core acc)\<rparr>)" "shadow_agree b space m m'"
    using view_store_core [OF v bo c] by blast
  have "shared_frame m a m' a" using Borrowed s(4) v by (simp add: shared_frame_def view_ok_def buffer_ok_def)
  then show ?thesis using Borrowed l s by (auto simp: shared_core_update_def shared_writable_def shared_owned_def)
qed

text \<open>A step on the storage of a writable account that leaves the value \<open>acc'\<close>.\<close>

definition cow_step ::
  "memory \<Rightarrow> shared_data \<Rightarrow> (memory \<times> cow_account) option \<Rightarrow> owned_account \<Rightarrow> bool" where
  "cow_step m a r acc' \<longleftrightarrow> (\<exists>m' c. r = Some (m', c) \<and> shared_writable m' (a\<lparr>sd_cow := c\<rparr>) \<and>
     shared_owned m' (a\<lparr>sd_cow := c\<rparr>) = Some acc' \<and> shared_frame m a m' (a\<lparr>sd_cow := c\<rparr>))"

lemma cow_step_owned:
  assumes w: "shared_writable m a" and c: "core_ok (oa_core acc')"
  shows "cow_step m a (Some (m, Owned acc')) acc'"
proof (cases "sd_cow a")
  case (Borrowed b)
  then show ?thesis using w c
    by (auto simp: cow_step_def shared_writable_def shared_owned_def shared_frame_def view_ok_def buffer_ok_def)
next
  case (Owned ow)
  then show ?thesis using c by (simp add: cow_step_def shared_writable_def shared_owned_def shared_frame_def)
qed

lemma cow_step_borrowed:
  assumes b: "sd_cow a = Borrowed b" and v: "view_ok m b space False" and o: "borrowed_owned m b = Some acc"
    and op: "image_set_data m (bw_core b) (8 * unat space) acc dat r"
  shows "cow_step m a (Option.bind r (\<lambda>m. Some (m, Borrowed b))) (acc\<lparr>oa_data := dat\<rparr>)"
proof -
  obtain m' where m': "r = Some m'" "view_ok m' b space False" "borrowed_owned m' b = Some (acc\<lparr>oa_data := dat\<rparr>)"
      "shadow_agree b space m m'"
    using view_data_op [OF v o op] by blast
  then show ?thesis using b v
    by (auto simp: cow_step_def shared_writable_def shared_owned_def shared_frame_def view_ok_def buffer_ok_def)
qed

text \<open>The storage of a writable account: owned, or a borrowed view of the shadow image.\<close>

lemma writable_cases:
  assumes "shared_writable m a" "shared_owned m a = Some acc"
  obtains (owned) "sd_cow a = Owned acc" "core_ok (oa_core acc)"
    | (borrowed) b space where "sd_cow a = Borrowed b" "view_ok m b space False" "borrowed_owned m b = Some acc"
        "core_ok (oa_core acc)" "bw_data b = data_slice_init (bw_core b + 56)" "image_ok m (bw_core b) (8 * unat space)"
        "image_account m (bw_core b) = Some acc"
proof (cases "sd_cow a")
  case (Borrowed b)
  then obtain space where v: "view_ok m b space False" using assms(1) by (auto simp: shared_writable_def)
  moreover have "borrowed_owned m b = Some acc" using assms(2) Borrowed by (simp add: shared_owned_def)
  moreover from this have "core_ok (oa_core acc)" "image_account m (bw_core b) = Some acc"
    using view_account [OF v] by auto
  ultimately show ?thesis using v by (intro borrowed [OF Borrowed v]) (simp_all add: view_ok_def)
next
  case (Owned ow)
  then show ?thesis using assms owned by (simp add: shared_writable_def shared_owned_def)
qed

lemma cow_resize_step:
  assumes "shared_writable m a" "shared_owned m a = Some acc"
  shows "cow_step m a (cow_resize m (sd_cow a) len val) (acc\<lparr>oa_data := data_resize len val (oa_data acc)\<rparr>)"
  using assms
proof (cases rule: writable_cases)
  case owned
  then show ?thesis using cow_step_owned [OF assms(1)] by (simp add: cow_resize_def cow_promote_def)
next
  case (borrowed b space)
  note l = image_ds_len [OF borrowed(6,7)] image_mem [OF borrowed(6)]
  show ?thesis
  proof (cases "64 + len \<le> 8 * unat space")
    case True
    then have "len \<le> 8 * unat space - 64" by simp
    then show ?thesis
      using cow_step_borrowed [OF borrowed(1-3) image_ds_resize [OF borrowed(6,7) True]] borrowed(1,5) l
      by (simp add: cow_resize_def)
  next
    case False
    then have "\<not> len \<le> 8 * unat space - 64" using l by auto
    then show ?thesis using cow_step_owned [OF assms(1)] borrowed l by (simp add: cow_resize_def cow_promote_def)
  qed
qed

lemma cow_reserve_eq:
  assumes "shared_writable m a" "shared_owned m a = Some acc"
  shows "cow_reserve m (sd_cow a) k = Some (Owned acc) \<or>
    (\<exists>b space. sd_cow a = Borrowed b \<and> cow_reserve m (sd_cow a) k = Some (Borrowed b) \<and> view_ok m b space False \<and>
      borrowed_owned m b = Some acc \<and> bw_data b = data_slice_init (bw_core b + 56) \<and> image_ok m (bw_core b) (8 * unat space) \<and>
      image_account m (bw_core b) = Some acc \<and> 64 + length (oa_data acc) + k \<le> 8 * unat space)"
  using assms
proof (cases rule: writable_cases)
  case owned
  then show ?thesis by (simp add: cow_reserve_def cow_promote_def)
next
  case (borrowed b space)
  note l = image_ds_len [OF borrowed(6,7)] image_ds_spare [OF borrowed(6,7)]
  show ?thesis
  proof (cases "k \<le> 8 * unat space - 64 - length (oa_data acc)")
    case True
    then have "64 + length (oa_data acc) + k \<le> 8 * unat space" using l by auto
    then show ?thesis using borrowed l True by (auto simp: cow_reserve_def)
  next
    case False
    then show ?thesis using borrowed l by (simp add: cow_reserve_def cow_promote_def)
  qed
qed

lemma cow_extend_step:
  assumes "shared_writable m a" "shared_owned m a = Some acc"
  shows "cow_step m a (cow_extend_from_slice m (sd_cow a) bs) (acc\<lparr>oa_data := oa_data acc @ bs\<rparr>)"
  using cow_reserve_eq [OF assms, of "length bs"]
proof (elim disjE exE conjE)
  assume "cow_reserve m (sd_cow a) (length bs) = Some (Owned acc)"
  moreover have "core_ok (oa_core acc)" using assms by (cases rule: writable_cases) simp_all
  ultimately show ?thesis using cow_step_owned [OF assms(1)] by (simp add: cow_extend_from_slice_def)
next
  fix b space
  assume "sd_cow a = Borrowed b" "cow_reserve m (sd_cow a) (length bs) = Some (Borrowed b)" "view_ok m b space False"
    "borrowed_owned m b = Some acc" "bw_data b = data_slice_init (bw_core b + 56)" "image_ok m (bw_core b) (8 * unat space)"
    "image_account m (bw_core b) = Some acc" "64 + length (oa_data acc) + length bs \<le> 8 * unat space"
  then show ?thesis
    using cow_step_borrowed [OF _ _ _ image_ds_extend, of a b m space acc bs] by (simp add: cow_extend_from_slice_def)
qed

lemma cow_set_step:
  assumes "shared_writable m a" "shared_owned m a = Some acc"
  shows "cow_step m a (cow_set_data_from_slice m (sd_cow a) bs) (acc\<lparr>oa_data := bs\<rparr>)"
proof -
  let ?k = "length bs - length (oa_data acc)"
  have d: "cow_data m (sd_cow a) = Some (oa_data acc)"
    using shared_coreD [OF writable_ok [OF assms(1)] assms(2)] by (simp add: shared_data_bytes_def)
  from cow_reserve_eq [OF assms, of ?k] show ?thesis
  proof (elim disjE exE conjE)
    assume "cow_reserve m (sd_cow a) ?k = Some (Owned acc)"
    moreover have "core_ok (oa_core acc)" using assms by (cases rule: writable_cases) simp_all
    ultimately show ?thesis using d cow_step_owned [OF assms(1)] by (simp add: cow_set_data_from_slice_def)
  next
    fix b space
    assume "sd_cow a = Borrowed b" "cow_reserve m (sd_cow a) ?k = Some (Borrowed b)" "view_ok m b space False"
      "borrowed_owned m b = Some acc" "bw_data b = data_slice_init (bw_core b + 56)" "image_ok m (bw_core b) (8 * unat space)"
      "image_account m (bw_core b) = Some acc" "64 + length (oa_data acc) + ?k \<le> 8 * unat space"
    then show ?thesis
      using cow_step_borrowed [OF _ _ _ image_ds_set, of a b m space acc bs] d by (simp add: cow_set_data_from_slice_def)
  qed
qed

lemma cow_write_step:
  assumes "shared_writable m a" "shared_owned m a = Some acc" "off + length bs \<le> length (oa_data acc)"
  shows "cow_step m a (cow_data_write m (sd_cow a) off bs)
    (acc\<lparr>oa_data := take off (oa_data acc) @ bs @ drop (off + length bs) (oa_data acc)\<rparr>)"
  using assms(1,2)
proof (cases rule: writable_cases)
  case owned
  then show ?thesis using cow_step_owned [OF assms(1)] assms(3) by (simp add: cow_data_write_def)
next
  case (borrowed b space)
  then show ?thesis
    using cow_step_borrowed [OF borrowed(1-3) image_ds_put [OF borrowed(6,7) assms(3)]] by (simp add: cow_data_write_def)
qed

section \<open>Operations\<close>

lemma update_ok_refl: "shared_ok m a \<Longrightarrow> shared_owned m a = Some acc \<Longrightarrow> update_ok m a (Some (m, a)) (acc, sd_dirty a)"
  by (simp add: update_ok_def shared_frame_refl)

lemma core_update_ok:
  assumes "shared_ok m a" "shared_owned m a = Some acc" "core_ok (f (oa_core acc))"
  shows "update_ok m a (do { (m, a) \<leftarrow> shared_translate m a; shared_core_update f m (mark_dirty d a) })
    (acc\<lparr>oa_core := f (oa_core acc)\<rparr>, sd_dirty a OR d)"
proof -
  obtain m1 a1 where 1: "shared_translate m a = Some (m1, a1)" "shared_writable m1 a1" "shared_owned m1 a1 = Some acc"
      "sd_dirty a1 = sd_dirty a" "shared_frame m a m1 a1"
    using translate_step [OF assms(1,2)] by blast
  obtain m2 a2 where 2: "shared_core_update f m1 (mark_dirty d a1) = Some (m2, a2)" "shared_writable m2 a2"
      "shared_owned m2 a2 = Some (acc\<lparr>oa_core := f (oa_core acc)\<rparr>)" "sd_dirty a2 = sd_dirty a OR d" "shared_frame m1 a1 m2 a2"
    using core_update_step [of m1 "mark_dirty d a1" acc f] 1 assms(3) by auto
  show ?thesis using 1(1) 2 writable_ok shared_frame_trans [OF 1(5) 2(5)] by (simp add: update_ok_def)
qed

lemma cow_update_ok:
  assumes "shared_ok m a" "shared_owned m a = Some acc"
    and step: "\<And>m a. shared_writable m a \<Longrightarrow> shared_owned m a = Some acc \<Longrightarrow> cow_step m a (f m (sd_cow a)) acc'"
  shows "update_ok m a (do { (m, a) \<leftarrow> shared_translate m a; let a = mark_dirty d a; with_cow a (f m (sd_cow a)) })
    (acc', sd_dirty a OR d)"
proof -
  obtain m1 a1 where 1: "shared_translate m a = Some (m1, a1)" "shared_writable m1 a1" "shared_owned m1 a1 = Some acc"
      "sd_dirty a1 = sd_dirty a" "shared_frame m a m1 a1"
    using translate_step [OF assms(1,2)] by blast
  let ?a1 = "mark_dirty d a1"
  have "cow_step m1 ?a1 (f m1 (sd_cow ?a1)) acc'" using step [of m1 ?a1] 1(2,3) by simp
  then obtain m2 c where 2: "f m1 (sd_cow ?a1) = Some (m2, c)" "shared_writable m2 (?a1\<lparr>sd_cow := c\<rparr>)"
      "shared_owned m2 (?a1\<lparr>sd_cow := c\<rparr>) = Some acc'" "shared_frame m1 a1 m2 (?a1\<lparr>sd_cow := c\<rparr>)"
    by (auto simp: cow_step_def)
  show ?thesis
    using 1(1,4) 2 writable_ok [OF 2(2)] shared_frame_trans [OF 1(5) 2(4)] by (simp add: update_ok_def with_cow_def)
qed

text \<open>The pure counterparts: an account value with its dirty markers.\<close>

definition spec_core :: "(account_core \<Rightarrow> account_core) \<Rightarrow> u8 \<Rightarrow> owned_account \<times> u8 \<Rightarrow> owned_account \<times> u8" where
  "spec_core f d = (\<lambda>(acc, dirty). if f (oa_core acc) = oa_core acc then (acc, dirty)
     else (acc\<lparr>oa_core := f (oa_core acc)\<rparr>, dirty OR d))"

definition spec_data :: "(bytes \<Rightarrow> bytes) \<Rightarrow> owned_account \<times> u8 \<Rightarrow> owned_account \<times> u8" where
  "spec_data f = (\<lambda>(acc, dirty). (acc\<lparr>oa_data := f (oa_data acc)\<rparr>, dirty OR DIRTY_DATA))"

definition data_at :: "nat \<Rightarrow> bytes \<Rightarrow> bytes \<Rightarrow> bytes" where
  "data_at off bs dat = take off (dat @ replicate (off - length dat) 0) @ bs @ drop (off + length bs) dat"

definition spec_lifecycle :: "account_mode \<Rightarrow> u64 \<Rightarrow> owned_account \<times> u8 \<Rightarrow> owned_account \<times> u8" where
  "spec_lifecycle mode slot = (\<lambda>(acc, dirty).
     (acc\<lparr>oa_core := (oa_core acc)\<lparr>ac_mode := mode, ac_slot := slot\<rparr>\<rparr>,
      (if ac_mode (oa_core acc) \<noteq> mode then dirty OR DIRTY_MODE else dirty) OR DIRTY_SLOT))"

text \<open>An operation that refines a pure update, whatever storage the account has.\<close>

locale account_update =
  fixes op :: "'x \<Rightarrow> memory \<Rightarrow> shared_data \<Rightarrow> (memory \<times> shared_data) option"
    and spec :: "'x \<Rightarrow> owned_account \<times> u8 \<Rightarrow> owned_account \<times> u8" and pre :: "'x \<Rightarrow> bool"
  assumes refines: "pre x \<Longrightarrow> shared_ok m a \<Longrightarrow> shared_owned m a = Some acc \<Longrightarrow>
    update_ok m a (op x m a) (spec x (acc, sd_dirty a))"
begin

lemma outcome: "pre x \<Longrightarrow> shared_ok m a \<Longrightarrow> shared_owned m a = Some acc \<Longrightarrow> op x m a = Some (m', a') \<Longrightarrow>
    shared_ok m' a' \<and> shared_owned m' a' = Some (fst (spec x (acc, sd_dirty a))) \<and> sd_dirty a' = snd (spec x (acc, sd_dirty a))"
  using refines [of x m a acc] by (auto simp: update_ok_def)

lemma after:
  assumes "pre x" "update_ok m a r s"
  shows "update_ok m a (do { (m, a) \<leftarrow> r; op x m a }) (spec x s)"
proof (rule update_ok_trans [OF assms(2)])
  fix m' a' assume "shared_ok m' a'" "shared_owned m' a' = Some (fst s)" "sd_dirty a' = snd s"
  then show "update_ok m' a' (case (m', a') of (m, a) \<Rightarrow> op x m a) (spec x s)"
    using refines [OF assms(1), of m' a' "fst s"] by simp
qed

end

lemma field_update_ok:
  assumes h: "shared_ok m a" "shared_owned m a = Some acc" and g: "\<And>c. g c \<longleftrightarrow> f c = c" and k: "core_ok (f (oa_core acc))"
  shows "update_ok m a
    (do { c \<leftarrow> shared_core m a;
          if g c then Some (m, a)
          else do { (m, a) \<leftarrow> shared_translate m a; shared_core_update f m (mark_dirty d a) } })
    (spec_core f d (acc, sd_dirty a))"
  using shared_coreD [OF h] update_ok_refl [OF h] core_update_ok [where f = f and d = d, OF h k] g [of "oa_core acc"]
  by (cases "g (oa_core acc)") (simp_all add: spec_core_def)

lemma core_field_id:
  "c\<lparr>ac_lamports := v\<rparr> = c \<longleftrightarrow> ac_lamports c = v" "c\<lparr>ac_owner := k\<rparr> = c \<longleftrightarrow> ac_owner c = k"
  "c\<lparr>ac_commit_seq := q\<rparr> = c \<longleftrightarrow> ac_commit_seq c = q" "c\<lparr>ac_flags := f\<rparr> = c \<longleftrightarrow> ac_flags c = f"
  by (cases c; simp; blast)+

interpretation up_lamports: account_update set_lamports "\<lambda>v. spec_core (\<lambda>c. c\<lparr>ac_lamports := v\<rparr>) DIRTY_LAMPORTS" "\<lambda>_. True"
  unfolding set_lamports_def
  by unfold_locales (rule field_update_ok, auto simp: core_field_id core_ok_def dest: shared_coreD)

interpretation up_owner: account_update set_owner "\<lambda>v. spec_core (\<lambda>c. c\<lparr>ac_owner := v\<rparr>) DIRTY_OWNER" "\<lambda>v. length v = 32"
  unfolding set_owner_def
  by unfold_locales (rule field_update_ok, auto simp: core_field_id core_ok_def dest: shared_coreD)

interpretation up_commit_seq: account_update set_commit_seq "\<lambda>v. spec_core (\<lambda>c. c\<lparr>ac_commit_seq := v\<rparr>) DIRTY_COMMIT_SEQ" "\<lambda>_. True"
  unfolding set_commit_seq_def
  by unfold_locales (rule field_update_ok, auto simp: core_field_id core_ok_def dest: shared_coreD)

interpretation up_flags: account_update set_flags "\<lambda>v. spec_core (\<lambda>c. c\<lparr>ac_flags := v\<rparr>) DIRTY_FLAGS" "\<lambda>_. True"
  unfolding set_flags_def
  by unfold_locales (rule field_update_ok, auto simp: core_field_id core_ok_def dest: shared_coreD)

interpretation up_executable: account_update set_executable
  "\<lambda>v. spec_core (\<lambda>c. c\<lparr>ac_flags := flags_set (ac_flags c) EXECUTABLE v\<rparr>) DIRTY_FLAGS" "\<lambda>_. True"
proof unfold_locales
  fix v m a acc assume h: "shared_ok m a" "shared_owned m a = Some acc"
  show "update_ok m a (set_executable v m a)
      (spec_core (\<lambda>c. c\<lparr>ac_flags := flags_set (ac_flags c) EXECUTABLE v\<rparr>) DIRTY_FLAGS (acc, sd_dirty a))"
    using shared_coreD [OF h] up_flags.refines [OF _ h, of "flags_set (ac_flags (oa_core acc)) EXECUTABLE v"]
    by (simp add: set_executable_def spec_core_def)
qed

interpretation up_resize: account_update "\<lambda>(len, val). shared_resize len val" "\<lambda>(len, val). spec_data (data_resize len val)" "\<lambda>_. True"
proof unfold_locales
  fix x :: "nat \<times> u8" and m a acc assume h: "shared_ok m a" "shared_owned m a = Some acc"
  show "update_ok m a ((case x of (len, val) \<Rightarrow> shared_resize len val) m a)
      ((case x of (len, val) \<Rightarrow> spec_data (data_resize len val)) (acc, sd_dirty a))"
    using cow_update_ok [OF h cow_resize_step, where d = DIRTY_DATA]
    by (simp add: shared_resize_def spec_data_def split: prod.split)
qed

interpretation up_extend: account_update shared_extend_from_slice "\<lambda>bs. spec_data (\<lambda>dat. dat @ bs)" "\<lambda>_. True"
  by unfold_locales
    (use cow_update_ok [OF _ _ cow_extend_step, where d = DIRTY_DATA] in \<open>simp add: shared_extend_from_slice_def spec_data_def\<close>)

interpretation up_set: account_update shared_set_data_from_slice "\<lambda>bs. spec_data (\<lambda>_. bs)" "\<lambda>_. True"
  by unfold_locales
    (use cow_update_ok [OF _ _ cow_set_step, where d = DIRTY_DATA] in \<open>simp add: shared_set_data_from_slice_def spec_data_def\<close>)

lemma data_write_ok:
  assumes "shared_ok m a" "shared_owned m a = Some acc" "off + length bs \<le> length (oa_data acc)"
  shows "update_ok m a (shared_data_write off bs m a)
    (spec_data (\<lambda>dat. take off dat @ bs @ drop (off + length bs) dat) (acc, sd_dirty a))"
  using cow_update_ok [OF assms(1,2) cow_write_step, where d = DIRTY_DATA] assms(3)
  by (simp add: shared_data_write_def spec_data_def)

lemma update_ok_start:
  assumes "shared_ok m a" "shared_owned m a = Some acc"
    and "\<And>m' a'. shared_ok m' (mark_dirty d a') \<Longrightarrow> shared_owned m' (mark_dirty d a') = Some acc \<Longrightarrow>
      sd_dirty (mark_dirty d a') = sd_dirty a OR d \<Longrightarrow> update_ok m' (mark_dirty d a') (f m' (mark_dirty d a')) t"
  shows "update_ok m a (do { (m, a) \<leftarrow> shared_translate m a; f m (mark_dirty d a) }) t"
proof -
  obtain m1 a1 where 1: "shared_translate m a = Some (m1, a1)" "shared_writable m1 a1" "shared_owned m1 a1 = Some acc"
      "sd_dirty a1 = sd_dirty a" "shared_frame m a m1 a1"
    using translate_step [OF assms(1,2)] by blast
  have "update_ok m1 (mark_dirty d a1) (f m1 (mark_dirty d a1)) t"
    using assms(3) [of m1 a1] writable_ok [of m1 "mark_dirty d a1"] 1 by simp
  then obtain m2 a2 where 2: "f m1 (mark_dirty d a1) = Some (m2, a2)" "shared_ok m2 a2" "shared_owned m2 a2 = Some (fst t)"
      "sd_dirty a2 = snd t" "shared_frame m1 a1 m2 a2"
    by (auto simp: update_ok_def)
  show ?thesis using 1(1) 2 shared_frame_trans [OF 1(5) 2(5)] by (simp add: update_ok_def)
qed

lemma data_at_parts:
  assumes "d1 = (if length dat < off then data_resize off 0 dat else dat)" "n = min (length d1 - off) (length bs)"
  shows "take off d1 @ take n bs @ drop (off + n) d1 @ drop n bs = data_at off bs dat" "off + n \<le> length d1"
  using assms by (auto simp: data_at_def data_resize_def min_def not_less)

lemma set_data_at_ok:
  assumes "shared_ok m a" "shared_owned m a = Some acc"
  shows "update_ok m a (set_data_at off bs m a) (spec_data (data_at off bs) (acc, sd_dirty a))"
  unfolding set_data_at_def Let_def
proof (rule update_ok_start [OF assms], goal_cases)
  case (1 m1 a0)
  let ?a1 = "mark_dirty DIRTY_DATA a0" and ?D = "sd_dirty a OR DIRTY_DATA"
  define d1 where "d1 = (if length (oa_data acc) < off then data_resize off 0 (oa_data acc) else oa_data acc)"
  define n where "n = min (length d1 - off) (length bs)"
  note parts = data_at_parts [OF d1_def n_def]
  have b1: "shared_data_bytes m1 ?a1 = Some (oa_data acc)" using shared_coreD [OF 1(1,2)] by simp
  have A: "update_ok m1 ?a1 (if off > length (oa_data acc) then shared_resize off 0 m1 ?a1 else Some (m1, ?a1))
      (acc\<lparr>oa_data := d1\<rparr>, ?D)"
    using up_resize.refines [OF _ 1(1,2), of "(off, 0)"] update_ok_refl [OF 1(1,2)] 1(3)
    by (auto simp: spec_data_def d1_def or.assoc)
  have B: "update_ok m2 a2 (do { dat \<leftarrow> shared_data_bytes m2 a2;
        (m, a) \<leftarrow> shared_data_write off (take (min (length dat - off) (length bs)) bs) m2 a2;
        shared_extend_from_slice (drop (min (length dat - off) (length bs)) bs) m a })
      (spec_data (data_at off bs) (acc, sd_dirty a))"
    if h2: "shared_ok m2 a2" "shared_owned m2 a2 = Some (acc\<lparr>oa_data := d1\<rparr>)" and dd: "sd_dirty a2 = ?D" for m2 a2
  proof -
    have b2: "shared_data_bytes m2 a2 = Some d1" using shared_coreD [OF h2] by simp
    have "update_ok m2 a2 (shared_data_write off (take n bs) m2 a2)
        (spec_data (\<lambda>dat. take off dat @ take n bs @ drop (off + length (take n bs)) dat) (acc\<lparr>oa_data := d1\<rparr>, ?D))"
      using data_write_ok [OF h2, of off "take n bs"] parts(2) dd by (simp add: n_def)
    from up_extend.after [OF _ this, of "drop n bs"] show ?thesis
      using b2 parts(1) by (simp add: spec_data_def n_def or.assoc min_def split: if_splits)
  qed
  show ?case
    using update_ok_trans [OF A, of "\<lambda>(m2, a2). do { dat \<leftarrow> shared_data_bytes m2 a2;
        (m, a) \<leftarrow> shared_data_write off (take (min (length dat - off) (length bs)) bs) m2 a2;
        shared_extend_from_slice (drop (min (length dat - off) (length bs)) bs) m a }"] B b1 by simp
qed

lemma set_lifecycle_ok:
  assumes h: "shared_ok m a" "shared_owned m a = Some acc"
  shows "(case validate_transition (ac_mode (oa_core acc)) mode (ac_slot (oa_core acc)) slot of
      Inl e \<Rightarrow> set_lifecycle mode slot m a = Some (Inl e)
    | Inr _ \<Rightarrow> \<exists>m' a'. set_lifecycle mode slot m a = Some (Inr (m', a')) \<and>
        update_ok m a (Some (m', a')) (spec_lifecycle mode slot (acc, sd_dirty a)))"
proof (cases "validate_transition (ac_mode (oa_core acc)) mode (ac_slot (oa_core acc)) slot")
  case (Inl e)
  then show ?thesis using shared_coreD [OF h] by (simp add: set_lifecycle_def)
next
  case (Inr u)
  note c = shared_coreD [OF h]
  obtain m1 a1 where 1: "shared_translate m a = Some (m1, a1)" "shared_writable m1 a1" "shared_owned m1 a1 = Some acc"
      "sd_dirty a1 = sd_dirty a" "shared_frame m a m1 a1"
    using translate_step [OF h] by blast
  note c1 = shared_coreD [OF writable_ok [OF 1(2)] 1(3)]
  let ?acc = "acc\<lparr>oa_core := (oa_core acc)\<lparr>ac_mode := mode\<rparr>\<rparr>"
  let ?d = "if ac_mode (oa_core acc) \<noteq> mode then sd_dirty a OR DIRTY_MODE else sd_dirty a"
  have "\<exists>m2 a2. (if ac_mode (oa_core acc) \<noteq> mode
        then shared_core_update (\<lambda>c. c\<lparr>ac_mode := mode\<rparr>) m1 (mark_dirty DIRTY_MODE a1) else Some (m1, a1)) = Some (m2, a2) \<and>
      shared_writable m2 a2 \<and> shared_owned m2 a2 = Some ?acc \<and> sd_dirty a2 = ?d \<and> shared_frame m1 a1 m2 a2"
  proof (cases "ac_mode (oa_core acc) = mode")
    case True
    then have "?acc = acc" by (cases acc; cases "oa_core acc") simp
    then show ?thesis using True 1 shared_frame_refl [OF writable_ok [OF 1(2)]] by simp
  next
    case False
    then show ?thesis
      using core_update_step [of m1 "mark_dirty DIRTY_MODE a1" acc "\<lambda>c. c\<lparr>ac_mode := mode\<rparr>"] 1 c1 by (simp add: core_ok_def)
  qed
  then obtain m2 a2 where 2: "(if ac_mode (oa_core acc) \<noteq> mode
        then shared_core_update (\<lambda>c. c\<lparr>ac_mode := mode\<rparr>) m1 (mark_dirty DIRTY_MODE a1) else Some (m1, a1)) = Some (m2, a2)"
      "shared_writable m2 a2" "shared_owned m2 a2 = Some ?acc" "sd_dirty a2 = ?d" "shared_frame m1 a1 m2 a2"
    by blast
  obtain m3 a3 where 3: "shared_core_update (\<lambda>c. c\<lparr>ac_slot := slot\<rparr>) m2 (mark_dirty DIRTY_SLOT a2) = Some (m3, a3)"
      "shared_writable m3 a3" "shared_owned m3 a3 = Some (?acc\<lparr>oa_core := (oa_core ?acc)\<lparr>ac_slot := slot\<rparr>\<rparr>)"
      "sd_dirty a3 = ?d OR DIRTY_SLOT" "shared_frame m2 a2 m3 a3"
    using core_update_step [of m2 "mark_dirty DIRTY_SLOT a2" ?acc "\<lambda>c. c\<lparr>ac_slot := slot\<rparr>"] 2 c1 by (auto simp: core_ok_def)
  have "set_lifecycle mode slot m a = Some (Inr (m3, a3))"
    using Inr c c1 1(1) 2(1) 3(1) by (simp add: set_lifecycle_def split: if_splits)
  moreover have "update_ok m a (Some (m3, a3)) (spec_lifecycle mode slot (acc, sd_dirty a))"
    using writable_ok [OF 3(2)] 3(3,4) shared_frame_trans [OF shared_frame_trans [OF 1(5) 2(5)] 3(5)]
    by (simp add: update_ok_def spec_lifecycle_def)
  ultimately show ?thesis using Inr by auto
qed

end
