(* ===== verification/Account_Patch.thy ===== *)
theory Account_Patch
  imports Account_Refine
begin

text \<open>
  Transactions on accounts: sequences of mutations of a shared account followed by publication,
  and the decomposition of an account into field patches.
\<close>

section \<open>Runs of operations\<close>

datatype account_op =
    Patch account_field_patch
  | SetFlags u8
  | SetExecutable bool
  | Extend bytes
  | SetData bytes

fun account_op_apply ::
  "account_op \<Rightarrow> memory \<Rightarrow> shared_data \<Rightarrow> (account_patch_error + memory \<times> shared_data) option" where
  "account_op_apply (Patch p) m a = patch_apply p m a"
| "account_op_apply (SetFlags v) m a = ok_or_panic (set_flags v m a)"
| "account_op_apply (SetExecutable v) m a = ok_or_panic (set_executable v m a)"
| "account_op_apply (Extend bs) m a = ok_or_panic (shared_extend_from_slice bs m a)"
| "account_op_apply (SetData bs) m a = ok_or_panic (shared_set_data_from_slice bs m a)"

text \<open>Operations in order, up to the first error.\<close>

fun account_run ::
  "account_op list \<Rightarrow> memory \<Rightarrow> shared_data \<Rightarrow> (account_patch_error + memory \<times> shared_data) option" where
  "account_run [] m a = Some (Inr (m, a))"
| "account_run (x # xs) m a = do {
     r \<leftarrow> account_op_apply x m a;
     case r of Inl e \<Rightarrow> Some (Inl e) | Inr (m, a) \<Rightarrow> account_run xs m a
   }"

fun spec_op :: "account_op \<Rightarrow> owned_account \<times> u8 \<Rightarrow> account_patch_error + owned_account \<times> u8" where
  "spec_op (Patch (Lamports v)) s = Inr (spec_core (\<lambda>c. c\<lparr>ac_lamports := v\<rparr>) DIRTY_LAMPORTS s)"
| "spec_op (Patch (Owner v)) s = Inr (spec_core (\<lambda>c. c\<lparr>ac_owner := v\<rparr>) DIRTY_OWNER s)"
| "spec_op (Patch (DataAt off bs)) s = Inr (spec_data (data_at off bs) s)"
| "spec_op (Patch (DataLen len)) s = Inr (spec_data (data_resize len 0) s)"
| "spec_op (Patch (CommitSeq q)) s = Inr (spec_core (\<lambda>c. c\<lparr>ac_commit_seq := q\<rparr>) DIRTY_COMMIT_SEQ s)"
| "spec_op (Patch (Lifecycle mode slot)) s =
     res_bind (validate_transition (ac_mode (oa_core (fst s))) mode (ac_slot (oa_core (fst s))) slot)
       (\<lambda>_. Inr (spec_lifecycle mode slot s))"
| "spec_op (SetFlags v) s = Inr (spec_core (\<lambda>c. c\<lparr>ac_flags := v\<rparr>) DIRTY_FLAGS s)"
| "spec_op (SetExecutable v) s =
     Inr (spec_core (\<lambda>c. c\<lparr>ac_flags := flags_set (ac_flags c) EXECUTABLE v\<rparr>) DIRTY_FLAGS s)"
| "spec_op (Extend bs) s = Inr (spec_data (\<lambda>dat. dat @ bs) s)"
| "spec_op (SetData bs) s = Inr (spec_data (\<lambda>_. bs) s)"

fun spec_run :: "account_op list \<Rightarrow> owned_account \<times> u8 \<Rightarrow> account_patch_error + owned_account \<times> u8" where
  "spec_run [] s = Inr s"
| "spec_run (x # xs) s = res_bind (spec_op x s) (spec_run xs)"

text \<open>Keys are 32 bytes long, as the type \<open>Pubkey\<close> ensures.\<close>

fun op_ok :: "account_op \<Rightarrow> bool" where
  "op_ok (Patch (Owner v)) = (length v = 32)"
| "op_ok _ = True"

lemma ok_or_panic_update:
  "update_ok m a r s \<Longrightarrow> \<exists>m' a'. ok_or_panic r = Some (Inr (m', a')) \<and> update_ok m a (Some (m', a')) s"
  by (auto simp: update_ok_def ok_or_panic_def)

lemma account_op_refines:
  assumes h: "shared_ok m a" "shared_owned m a = Some acc" and k: "op_ok x"
  shows "case spec_op x (acc, sd_dirty a) of
      Inl e \<Rightarrow> account_op_apply x m a = Some (Inl e)
    | Inr s \<Rightarrow> \<exists>m' a'. account_op_apply x m a = Some (Inr (m', a')) \<and> update_ok m a (Some (m', a')) s"
proof (cases "\<exists>mode slot. x = Patch (Lifecycle mode slot)")
  case True
  then obtain mode slot where "x = Patch (Lifecycle mode slot)" by blast
  then show ?thesis using set_lifecycle_ok [OF h, of mode slot]
    by (cases "validate_transition (ac_mode (oa_core acc)) mode (ac_slot (oa_core acc)) slot") simp_all
next
  case False
  have "\<exists>s r. spec_op x (acc, sd_dirty a) = Inr s \<and> account_op_apply x m a = ok_or_panic r \<and> update_ok m a r s"
  proof (cases x)
    case (Patch p)
    then show ?thesis
      using False k up_lamports.refines [OF _ h] up_owner.refines [OF _ h] set_data_at_ok [OF h]
        up_resize.refines [OF _ h, of "(_, 0)"] up_commit_seq.refines [OF _ h]
      by (cases p) auto
  qed (use up_flags.refines [OF _ h] up_executable.refines [OF _ h] up_extend.refines [OF _ h] up_set.refines [OF _ h] in auto)
  then show ?thesis using ok_or_panic_update by fastforce
qed

lemma account_run_refines:
  assumes "shared_ok m a" "shared_owned m a = Some acc" "list_all op_ok xs"
  shows "case spec_run xs (acc, sd_dirty a) of
      Inl e \<Rightarrow> account_run xs m a = Some (Inl e)
    | Inr s \<Rightarrow> \<exists>m' a'. account_run xs m a = Some (Inr (m', a')) \<and> update_ok m a (Some (m', a')) s"
  using assms
proof (induction xs arbitrary: m a acc)
  case Nil
  then show ?case using update_ok_refl by simp
next
  case (Cons x xs)
  note r = account_op_refines [OF Cons.prems(1,2), of x]
  show ?case
  proof (cases "spec_op x (acc, sd_dirty a)")
    case (Inl e)
    then show ?thesis using r Cons.prems(3) by simp
  next
    case (Inr s)
    then obtain m1 a1 where 1: "account_op_apply x m a = Some (Inr (m1, a1))" "update_ok m a (Some (m1, a1)) s"
      using r Cons.prems(3) by auto
    then have h1: "shared_ok m1 a1" "shared_owned m1 a1 = Some (fst s)" "sd_dirty a1 = snd s" "shared_frame m a m1 a1"
      by (auto simp: update_ok_def)
    note ih = Cons.IH [OF h1(1,2)]
    show ?thesis
    proof (cases "spec_run xs s")
      case (Inl e)
      then show ?thesis using ih h1(3) Cons.prems(3) 1(1) \<open>spec_op x _ = Inr s\<close> by simp
    next
      case (Inr t)
      then obtain m2 a2 where 2: "account_run xs m1 a1 = Some (Inr (m2, a2))" "update_ok m1 a1 (Some (m2, a2)) t"
        using ih h1(3) Cons.prems(3) by auto
      then have "update_ok m a (Some (m2, a2)) t"
        using shared_frame_trans [OF h1(4)] by (auto simp: update_ok_def)
      then show ?thesis using Inr 1(1) 2(1) \<open>spec_op x _ = Inr s\<close> by simp
    qed
  qed
qed

section \<open>Publication of a run\<close>

lemma frame_published:
  assumes "shared_ok m a" "sd_cow a = Borrowed b" "shared_frame m a m' a'"
  shows "published m' (bw_header b) = published m (bw_header b)"
proof -
  obtain space active where v: "view_ok m b space active" using assms(1,2) by (auto simp: shared_ok_def)
  then have bo: "buffer_ok m (bw_header b) (bw_version b) space" by (simp add: view_ok_def)
  then have "shadow_agree b space m m'" using assms(2,3) by (auto simp: shared_frame_def buffer_ok_def)
  then show ?thesis using buffer_shadow_write [OF bo] by blast
qed

lemma commit_run:
  assumes ok: "shared_ok m a" and c: "sd_cow a = Borrowed b" and o: "shared_owned m a = Some acc'"
    and p: "published m (bw_header b) = Some acc"
  shows "\<exists>m'. borrowed_commit m b = Some m' \<and> published m' (bw_header b) = Some acc' \<and>
    (shared_dirty a \<longrightarrow> (\<exists>m''. borrowed_rollback m' b = Some m'' \<and> published m'' (bw_header b) = Some acc))"
proof -
  obtain space active where v: "view_ok m b space active" and d: "shared_dirty a \<longrightarrow> \<not> active"
    using ok c by (auto simp: shared_ok_def)
  have o': "borrowed_owned m b = Some acc'" using o c by (simp add: shared_owned_def)
  show ?thesis
  proof (cases active)
    case True
    then have v1: "view_ok m b space True" using v by simp
    have "borrowed_owned m b = published m (bw_header b)"
      using view_owned [OF v1] v1 published_image by (auto simp: view_ok_def)
    then show ?thesis using commit_clean [OF v1] True d p o' by simp
  next
    case False
    then show ?thesis using commit_shadow [of m b space] v o' p by auto
  qed
qed

section \<open>Patch sequences\<close>

lemma slice_chunks_Cons: "xs \<noteq> [] \<Longrightarrow> 0 < k \<Longrightarrow> slice_chunks k xs = take k xs # slice_chunks k (drop k xs)"
  by (subst slice_chunks.simps) simp

lemma data_at_chunk:
  assumes "length d = length full" "take p d = take p full" "p < length full"
  shows "length (data_at p (take k (drop p full)) d) = length full \<and>
    take (p + k) (data_at p (take k (drop p full)) d) = take (p + k) full"
proof -
  have e: "data_at p (take k (drop p full)) d = take p full @ take k (drop p full) @ drop (p + k) d"
    using assms by (auto simp: data_at_def min_def)
  have "take p full @ take k (drop p full) = take (p + k) full" by (simp add: take_add)
  then have "data_at p (take k (drop p full)) d = take (p + k) full @ drop (p + k) d" unfolding e by simp
  then show ?thesis using assms(1) by (auto simp: min_def)
qed

lemma spec_run_chunks:
  assumes "length d = length full" "take (i * MAX_DATA_CHUNK_SIZE) d = take (i * MAX_DATA_CHUNK_SIZE) full"
  shows "\<exists>dirty'. spec_run (map Patch (chunk_patches i (slice_chunks MAX_DATA_CHUNK_SIZE (drop (i * MAX_DATA_CHUNK_SIZE) full))))
    (acc\<lparr>oa_data := d\<rparr>, dirty) = Inr (acc\<lparr>oa_data := full\<rparr>, dirty')"
  using assms
proof (induction "length full - i * MAX_DATA_CHUNK_SIZE" arbitrary: i d dirty rule: less_induct)
  case less
  let ?K = MAX_DATA_CHUNK_SIZE
  show ?case
  proof (cases "i * ?K < length full")
    case False
    then have "drop (i * ?K) full = []" "d = full" using less.prems by auto
    then show ?thesis by (simp add: slice_chunks.simps)
  next
    case True
    have K: "0 < ?K" by (simp add: MAX_DATA_CHUNK_SIZE_def)
    have ch: "slice_chunks ?K (drop (i * ?K) full) = take ?K (drop (i * ?K) full) # slice_chunks ?K (drop (Suc i * ?K) full)"
      using slice_chunks_Cons [of "drop (i * ?K) full" ?K] True K by (simp add: add.commute)
    note dc = data_at_chunk [OF less.prems True, of ?K]
    have "length full - Suc i * ?K < length full - i * ?K" using True K by simp
    from less.hyps [OF this, of "data_at (i * ?K) (take ?K (drop (i * ?K) full)) d"] dc
    show ?thesis unfolding ch by (simp add: spec_data_def add.commute)
  qed
qed

lemma spec_core_fst: "fst (spec_core f d s) = (fst s)\<lparr>oa_core := f (oa_core (fst s))\<rparr>"
  by (cases s) (auto simp: spec_core_def)

lemma spec_run_sequence:
  assumes "validate_transition (ac_mode (oa_core acc0)) (ac_mode (oa_core acc)) (ac_slot (oa_core acc0)) (ac_slot (oa_core acc)) = Inr ()"
  shows "\<exists>dirty'. spec_run (map Patch (patch_sequence acc)) (acc0, dirty) = Inr
    (\<lparr>oa_core = (oa_core acc)\<lparr>ac_flags := ac_flags (oa_core acc0), ac_padding := ac_padding (oa_core acc0)\<rparr>, oa_data = oa_data acc\<rparr>, dirty')"
proof -
  let ?c = "oa_core acc"
  obtain d1 where 1: "spec_core (\<lambda>c. c\<lparr>ac_lamports := ac_lamports ?c\<rparr>) DIRTY_LAMPORTS (acc0, dirty) =
      (acc0\<lparr>oa_core := (oa_core acc0)\<lparr>ac_lamports := ac_lamports ?c\<rparr>\<rparr>, d1)"
    using spec_core_fst [of _ DIRTY_LAMPORTS "(acc0, dirty)"] by (metis fst_conv prod.collapse)
  let ?a1 = "acc0\<lparr>oa_core := (oa_core acc0)\<lparr>ac_lamports := ac_lamports ?c, ac_mode := ac_mode ?c, ac_slot := ac_slot ?c\<rparr>\<rparr>"
  obtain d2 where 2: "spec_lifecycle (ac_mode ?c) (ac_slot ?c) (acc0\<lparr>oa_core := (oa_core acc0)\<lparr>ac_lamports := ac_lamports ?c\<rparr>\<rparr>, d1) =
      (?a1, d2)"
    by (simp add: spec_lifecycle_def)
  obtain d3 where 3: "spec_core (\<lambda>c. c\<lparr>ac_commit_seq := ac_commit_seq ?c\<rparr>) DIRTY_COMMIT_SEQ (?a1, d2) =
      (?a1\<lparr>oa_core := (oa_core ?a1)\<lparr>ac_commit_seq := ac_commit_seq ?c\<rparr>\<rparr>, d3)"
    using spec_core_fst [of _ DIRTY_COMMIT_SEQ "(?a1, d2)"] by (metis fst_conv prod.collapse)
  let ?a3 = "?a1\<lparr>oa_core := (oa_core ?a1)\<lparr>ac_commit_seq := ac_commit_seq ?c\<rparr>\<rparr>"
  obtain d4 where 4: "spec_core (\<lambda>c. c\<lparr>ac_owner := ac_owner ?c\<rparr>) DIRTY_OWNER (?a3, d3) =
      (?a3\<lparr>oa_core := (oa_core ?a3)\<lparr>ac_owner := ac_owner ?c\<rparr>\<rparr>, d4)"
    using spec_core_fst [of _ DIRTY_OWNER "(?a3, d3)"] by (metis fst_conv prod.collapse)
  let ?a4 = "?a3\<lparr>oa_core := (oa_core ?a3)\<lparr>ac_owner := ac_owner ?c\<rparr>\<rparr>"
  let ?d = "data_resize (length (oa_data acc)) 0 (oa_data acc0)"
  obtain d5 where 5: "spec_data (data_resize (length (oa_data acc)) 0) (?a4, d4) = (?a4\<lparr>oa_data := ?d\<rparr>, d5)"
    by (simp add: spec_data_def)
  obtain d6 where 6: "spec_run (map Patch (chunk_patches 0 (slice_chunks MAX_DATA_CHUNK_SIZE (oa_data acc)))) (?a4\<lparr>oa_data := ?d\<rparr>, d5) =
      Inr (?a4\<lparr>oa_data := oa_data acc\<rparr>, d6)"
    using spec_run_chunks [of ?d "oa_data acc" 0 ?a4 d5] by auto
  have "?a4\<lparr>oa_data := oa_data acc\<rparr> = \<lparr>oa_core = ?c\<lparr>ac_flags := ac_flags (oa_core acc0), ac_padding := ac_padding (oa_core acc0)\<rparr>, oa_data = oa_data acc\<rparr>"
    by (cases acc0; cases acc; cases "oa_core acc0"; cases "oa_core acc") simp
  then show ?thesis using assms 1 2 3 4 5 6 by (simp add: patch_sequence_def)
qed

section \<open>A sample buffer\<close>

lemma sample_buffer:
  "\<exists>m. owned_serialize (replicate 168 0) 0 default_owned (replicate 32 9) = Some m \<and>
     buffer_ok m 0 0 8 \<and> published m 0 = Some default_owned"
proof -
  have o: "owned_ok default_owned" by (simp add: owned_ok_def default_owned_def default_core_def core_ok_def)
  have al: "owned_allocation default_owned = 8"
    by (simp add: owned_allocation_def default_owned_def STATIC_SIZE_def CORE_SIZE_def DATA_HEADER_SIZE_def ALIGNMENT_def)
  then have "unat (owned_units default_owned) = 21" using owned_allocation_bounds(3) [OF o] by simp
  then show ?thesis
    using owned_serialize_ok [OF o, of "replicate 32 9" 0 "replicate 168 0"] al by auto
qed

section \<open>Properties\<close>

text \<open>
  C16. Transactions on a borrowed account are isolated and refine pure updates: starting from a
  view of a well-formed buffer, any sequence of patches and other mutations never reads or writes
  out of bounds, reports exactly the error of the pure run, and otherwise leaves the account
  value and dirty markers of the pure run. Until publication every reader of the buffer still
  sees the old account and no byte outside the two images changes. If the account was not
  promoted to the heap, publishing it makes readers see the new value, and rolling a dirty
  publication back restores the old one.
\<close>

theorem account_transaction:
  assumes "buffer_ok m h sequence space" "published m h = Some acc" "list_all op_ok xs"
  shows "\<exists>b. borrowed_init m h = Some b \<and>
    (case spec_run xs (acc, 0) of
       Inl e \<Rightarrow> account_run xs m (shared_from_borrowed b) = Some (Inl e)
     | Inr (acc', dirty) \<Rightarrow> \<exists>m' a'. account_run xs m (shared_from_borrowed b) = Some (Inr (m', a')) \<and>
         shared_owned m' a' = Some acc' \<and> sd_dirty a' = dirty \<and> published m' h = Some acc \<and>
         agree_outside (h + 40) (h + 40 + 16 * unat space) m m' \<and>
         (case sd_cow a' of
            Owned ow \<Rightarrow> ow = acc'
          | Borrowed b' \<Rightarrow> \<exists>m''. borrowed_commit m' b' = Some m'' \<and> published m'' h = Some acc' \<and>
              (shared_dirty a' \<longrightarrow> (\<exists>m3. borrowed_rollback m'' b' = Some m3 \<and> published m3 h = Some acc))))"
proof -
  obtain b where b: "borrowed_init m h = Some b" "bw_header b = h" "view_ok m b space True" "borrowed_owned m b = published m h"
    using init_view [OF assms(1)] by blast
  let ?a = "shared_from_borrowed b"
  have nd: "\<not> shared_dirty ?a" by (simp add: shared_dirty_def shared_from_borrowed_def)
  have ok: "shared_ok m ?a" "shared_owned m ?a = Some acc" "sd_dirty ?a = 0" "sd_cow ?a = Borrowed b"
    using b(3,4) assms(2) nd by (auto simp: shared_ok_def shared_owned_def shared_from_borrowed_def)
  note r = account_run_refines [OF ok(1,2) assms(3)]
  show ?thesis
  proof (cases "spec_run xs (acc, 0)")
    case (Inl e)
    then show ?thesis using r ok(3) b(1) by auto
  next
    case (Inr s)
    then obtain m' a' where 1: "account_run xs m ?a = Some (Inr (m', a'))" "update_ok m ?a (Some (m', a')) s"
      using r ok(3) by auto
    then have u: "shared_ok m' a'" "shared_owned m' a' = Some (fst s)" "sd_dirty a' = snd s" "shared_frame m ?a m' a'"
      by (auto simp: update_ok_def)
    have p: "published m' h = Some acc" using frame_published [OF ok(1,4) u(4)] b(2) assms(2) by simp
    have "shadow_agree b space m m'" using u(4) ok(4) b(3) by (auto simp: shared_frame_def view_ok_def buffer_ok_def)
    then have ag: "agree_outside (h + 40) (h + 40 + 16 * unat space) m m'"
      using image_ptr_bounds [of h space "bw_version b" False] b(2) by (auto elim!: agree_outside_mono)
    have "case sd_cow a' of Owned ow \<Rightarrow> ow = fst s | Borrowed b' \<Rightarrow> bw_header b' = h"
      using u(2,4) ok(4) b(2) by (auto simp: shared_owned_def shared_frame_def split: cow_account.splits)
    then have "case sd_cow a' of
        Owned ow \<Rightarrow> ow = fst s
      | Borrowed b' \<Rightarrow> \<exists>m''. borrowed_commit m' b' = Some m'' \<and> published m'' h = Some (fst s) \<and>
          (shared_dirty a' \<longrightarrow> (\<exists>m3. borrowed_rollback m'' b' = Some m3 \<and> published m3 h = Some acc))"
      using commit_run [OF u(1) _ u(2)] p by (auto split: cow_account.splits)
    then show ?thesis using b(1) Inr 1(1) u(2,3) p ag by (cases s) (auto split: cow_account.splits)
  qed
qed

theorem account_transaction_witness:
  "\<exists>m b m' a'. published m 0 = Some default_owned \<and> borrowed_init m 0 = Some b \<and>
     account_run [Patch (Lamports 7), SetData [1, 2]] m (shared_from_borrowed b) = Some (Inr (m', a')) \<and>
     published m' 0 = Some default_owned \<and>
     shared_owned m' a' = Some (default_owned\<lparr>oa_core := default_core\<lparr>ac_lamports := 7\<rparr>, oa_data := [1, 2]\<rparr>)"
proof -
  obtain m where m: "buffer_ok m 0 0 8" "published m 0 = Some default_owned" using sample_buffer by blast
  have run: "spec_run [Patch (Lamports 7), SetData [1, 2]] (default_owned, 0) =
      Inr (default_owned\<lparr>oa_core := default_core\<lparr>ac_lamports := 7\<rparr>, oa_data := [1, 2]\<rparr>, 34)"
    by (simp add: spec_core_def spec_data_def default_owned_def default_core_def DIRTY_LAMPORTS_def DIRTY_DATA_def)
  from account_transaction [OF m, of "[Patch (Lamports 7), SetData [1, 2]]"] m(2) show ?thesis
    unfolding run by auto
qed

text \<open>
  C17. Rebuilding an account from its patches: applying the patch sequence of an account, in
  order, to any account from which its lifecycle transition is allowed never fails and yields
  its lamports, mode, slot, commit sequence, owner and data, however the target is stored; only
  the flags stay those of the target.
\<close>

theorem patch_sequence_roundtrip:
  assumes "shared_ok m a" "shared_owned m a = Some acc0" "length (ac_owner (oa_core acc)) = 32"
    "validate_transition (ac_mode (oa_core acc0)) (ac_mode (oa_core acc)) (ac_slot (oa_core acc0)) (ac_slot (oa_core acc)) = Inr ()"
  shows "\<exists>m' a'. account_run (map Patch (patch_sequence acc)) m a = Some (Inr (m', a')) \<and> shared_ok m' a' \<and>
    shared_owned m' a' = Some \<lparr>oa_core = (oa_core acc)\<lparr>ac_flags := ac_flags (oa_core acc0), ac_padding := ac_padding (oa_core acc0)\<rparr>,
      oa_data = oa_data acc\<rparr>"
proof -
  have "list_all op_ok (map Patch (chunk_patches i cs))" for i cs
    by (induction i cs rule: chunk_patches.induct) simp_all
  then have k: "list_all op_ok (map Patch (patch_sequence acc))" using assms(3) by (simp add: patch_sequence_def)
  show ?thesis
    using spec_run_sequence [OF assms(4), of "sd_dirty a"] account_run_refines [OF assms(1,2) k] by (auto simp: update_ok_def)
qed

theorem patch_sequence_roundtrip_witness:
  "\<exists>m' a'. account_run (map Patch (patch_sequence (builder_data [4, 2] (builder_mode Delegated default_owned)))) []
       (shared_from_owned default_owned) = Some (Inr (m', a')) \<and>
     shared_owned m' a' = Some (builder_data [4, 2] (builder_mode Delegated default_owned))"
  using patch_sequence_roundtrip [of "[]" "shared_from_owned default_owned" default_owned
      "builder_data [4, 2] (builder_mode Delegated default_owned)"]
  by (auto simp: shared_ok_def shared_owned_def shared_from_owned_def default_owned_def default_core_def core_ok_def
      builder_data_def builder_mode_def validate_transition_def)

end
