(* ===== verification/Account_SeqLock.thy ===== *)
theory Account_SeqLock
  imports Account_Patch
begin

text \<open>
  Readers racing with writers of a borrowed buffer: writers change the shadow image or publish
  it, and a sequence-locked read returns only results read from a published image.
\<close>

section \<open>Writers\<close>

text \<open>One step of a writer of the buffer at \<open>h\<close>, with the number of publications so far.\<close>

inductive writer_step :: "nat \<Rightarrow> u32 \<Rightarrow> nat \<times> memory \<Rightarrow> nat \<times> memory \<Rightarrow> bool" for h space where
  shadow: "buffer_ok m h q space \<Longrightarrow> agree_outside (image_ptr h space q False) (image_ptr h space q False + 8 * unat space) m m' \<Longrightarrow>
    writer_step h space (n, m) (n, m')"
| publish: "view_ok m b space False \<Longrightarrow> bw_header b = h \<Longrightarrow> borrowed_commit m b = Some m' \<Longrightarrow>
    writer_step h space (n, m) (Suc n, m')"

inductive_cases writer_stepE: "writer_step h space (n, m) (n', m')"

lemma buffer_ok_sequence: "buffer_ok m h q space \<Longrightarrow> buffer_ok m h q' space \<Longrightarrow> q' = q"
  by (simp add: buffer_ok_def)

text \<open>Writers keep the buffer well formed, count publications in the sequence, and leave the active image alone.\<close>

lemma writer_step_buffer:
  assumes "writer_step h space (n, m) (n', m')" "buffer_ok m h q space"
  shows "\<exists>d. n' = n + d \<and> buffer_ok m' h (q + of_nat d) space \<and> (d = 0 \<longrightarrow> published m' h = published m h)"
proof -
  from assms(1) consider
      (shadow) q' where "n' = n" "buffer_ok m h q' space"
        "agree_outside (image_ptr h space q' False) (image_ptr h space q' False + 8 * unat space) m m'"
    | (publish) b where "n' = Suc n" "view_ok m b space False" "bw_header b = h" "borrowed_commit m b = Some m'"
    by (auto elim: writer_stepE)
  then show ?thesis
  proof cases
    case shadow
    then have "q' = q" using buffer_ok_sequence [OF assms(2)] by simp
    then show ?thesis using buffer_shadow_write [OF shadow(2,3)] shadow(1) by auto
  next
    case publish
    then have "buffer_ok m h (bw_version b) space" by (simp add: view_ok_def)
    then have "bw_version b = q" using buffer_ok_sequence [OF assms(2)] by simp
    then show ?thesis using commit_shadow [OF publish(2)] publish by auto
  qed
qed

lemma writer_steps_buffer:
  assumes "(writer_step h space)\<^sup>*\<^sup>* (n, m) (n', m')" "buffer_ok m h q space"
  shows "\<exists>d. n' = n + d \<and> buffer_ok m' h (q + of_nat d) space \<and> (d = 0 \<longrightarrow> published m' h = published m h)"
  using assms(1)
proof (induction rule: rtranclp_induct2)
  case refl
  then show ?case using assms(2) by simp
next
  case (step n1 m1 n2 m2)
  from step.IH obtain d where d: "n1 = n + d" "buffer_ok m1 h (q + of_nat d) space" "d = 0 \<longrightarrow> published m1 h = published m h"
    by blast
  from writer_step_buffer [OF step.hyps(2) d(2)] obtain e where
    "n2 = n1 + e" "buffer_ok m2 h (q + of_nat d + of_nat e) space" "e = 0 \<longrightarrow> published m2 h = published m1 h" by blast
  then show ?case using d by (intro exI [of _ "d + e"]) (simp add: add.assoc)
qed

text \<open>A schedule of memories along writer steps.\<close>

fun sched_ok :: "nat \<Rightarrow> u32 \<Rightarrow> nat \<times> memory \<Rightarrow> (nat \<times> memory \<times> nat \<times> memory \<times> nat \<times> memory) list \<Rightarrow> bool" where
  "sched_ok h space s [] = True"
| "sched_ok h space s ((nr, mr, nc, mc, ns, ms) # rest) \<longleftrightarrow>
     (writer_step h space)\<^sup>*\<^sup>* s (nr, mr) \<and> (writer_step h space)\<^sup>*\<^sup>* (nr, mr) (nc, mc) \<and>
     (writer_step h space)\<^sup>*\<^sup>* (nc, mc) (ns, ms) \<and> ns < 2 ^ 32 \<and> sched_ok h space (ns, ms) rest"

definition sched_memories :: "(nat \<times> memory \<times> nat \<times> memory \<times> nat \<times> memory) list \<Rightarrow> (memory \<times> memory \<times> memory) list" where
  "sched_memories sched = map (\<lambda>(nr, mr, nc, mc, ns, ms). (mr, mc, ms)) sched"

definition sched_reads :: "(nat \<times> memory \<times> nat \<times> memory \<times> nat \<times> memory) list \<Rightarrow> memory set" where
  "sched_reads sched = (\<lambda>(nr, mr, nc, mc, ns, ms). mr) ` set sched"

text \<open>
  The invariant of the read loop: whatever the schedule, the loop never leaves the buffer, and a
  result was read through the view that a fresh reader would have taken at that moment. A loop
  whose first round overlaps no publication returns in that round.
\<close>

definition stable_result ::
  "(memory \<Rightarrow> shared_data \<Rightarrow> 'r) \<Rightarrow> nat \<Rightarrow> shared_data \<Rightarrow> memory set \<Rightarrow> ('r \<times> seq_lock) option option \<Rightarrow> bool" where
  "stable_result reader h a reads res \<longleftrightarrow>
     (case res of
        None \<Rightarrow> False
      | Some None \<Rightarrow> True
      | Some (Some (r, l)) \<Rightarrow>
          \<exists>mr b. mr \<in> reads \<and> borrowed_init mr h = Some b \<and> r = reader mr (a\<lparr>sd_cow := Borrowed b\<rparr>))"

lemma stable_result_mono: "stable_result reader h a R res \<Longrightarrow> R \<subseteq> R' \<Longrightarrow> stable_result reader h a R' res"
  by (auto simp: stable_result_def split: option.splits)

lemma seq_lock_read_stable_aux:
  assumes "buffer_ok m h q space" "sched_ok h space (n, m) sched"
    "borrowed_init m h = Some b" "sl_account l = a\<lparr>sd_cow := Borrowed b\<rparr>" "sl_sequence l = Some (bw_version b)"
  shows "stable_result reader h a (sched_reads sched) (seq_lock_read reader (sched_memories sched) l)"
  using assms
proof (induction sched arbitrary: m n q b l)
  case Nil
  then show ?case by (simp add: sched_memories_def stable_result_def)
next
  case (Cons x sched)
  obtain nr mr nc mc ns ms where x: "x = (nr, mr, nc, mc, ns, ms)" by (cases x) auto
  have st: "(writer_step h space)\<^sup>*\<^sup>* (n, m) (nr, mr)" "(writer_step h space)\<^sup>*\<^sup>* (nr, mr) (nc, mc)"
    "(writer_step h space)\<^sup>*\<^sup>* (nc, mc) (ns, ms)" "ns < 2 ^ 32" "sched_ok h space (ns, ms) sched"
    using Cons.prems(2) x by auto
  obtain dr where dr: "nr = n + dr" "buffer_ok mr h (q + of_nat dr) space"
    using writer_steps_buffer [OF st(1) Cons.prems(1)] by blast
  obtain dc where dc: "nc = nr + dc" "buffer_ok mc h (q + of_nat dr + of_nat dc) space"
    using writer_steps_buffer [OF st(2) dr(2)] by blast
  obtain ds where ds: "ns = nc + ds" "buffer_ok ms h (q + of_nat dr + of_nat dc + of_nat ds) space"
    using writer_steps_buffer [OF st(3) dc(2)] by blast
  have b: "bw_header b = h" "bw_version b = q" "b = \<lparr>bw_header = h, bw_core = image_ptr h space q True,
      bw_data = data_slice_init (image_ptr h space q True + 56), bw_version = q\<rparr>"
    using borrowed_init_eq [OF Cons.prems(1)] Cons.prems(3) by auto
  have post: "borrowed_sequence mc b = Some (q + of_nat dr + of_nat dc)"
    using dc(2) b(1) by (simp add: borrowed_sequence_def buffer_ok_def)
  show ?case
  proof (cases "q = q + of_nat dr + of_nat dc")
    case True
    then have "(of_nat (dr + dc) :: u32) = 0" by (simp add: add.assoc)
    moreover have "dr + dc < 2 ^ 32" using st(4) dr(1) dc(1) ds(1) by simp
    ultimately have "dr = 0" using unat_of_nat_u32 [of "dr + dc"] by simp
    then have "borrowed_init mr h = Some b" using borrowed_init_eq [OF dr(2)] b(3) by simp
    moreover have "seq_lock_read reader (sched_memories (x # sched)) l = Some (Some (reader mr (a\<lparr>sd_cow := Borrowed b\<rparr>), l))"
      using Cons.prems(4,5) post True b(2) by (simp add: sched_memories_def x)
    ultimately show ?thesis by (auto simp: stable_result_def sched_reads_def x)
  next
    case False
    obtain b2 where b2: "borrowed_init ms h = Some b2" using borrowed_init_eq [OF ds(2)] by simp
    have rs: "borrowed_reset ms b = Some b2"
      using b2 b(1) by (auto simp: borrowed_reset_def borrowed_init_def bind_eq_Some_conv Let_def)
    have "seq_lock_read reader (sched_memories (x # sched)) l = seq_lock_read reader (sched_memories sched)
        \<lparr>sl_account = a\<lparr>sd_cow := Borrowed b2\<rparr>, sl_sequence = Some (bw_version b2)\<rparr>"
      using Cons.prems(4,5) post False b(2) rs by (simp add: sched_memories_def x)
    moreover have "sched_reads sched \<subseteq> sched_reads (x # sched)" by (simp add: sched_reads_def subset_insertI)
    ultimately show ?thesis
      using stable_result_mono [OF Cons.IH [OF ds(2) st(5) b2,
            of "\<lparr>sl_account = a\<lparr>sd_cow := Borrowed b2\<rparr>, sl_sequence = Some (bw_version b2)\<rparr>"]] by simp
  qed
qed

section \<open>Properties\<close>



end
