(* ===== verification/Db_Readers.thy ===== *)
theory Db_Readers
  imports Prelude
begin

text \<open>
  Reader admission of the accounts database: \<^verbatim>\<open>accountsdb/src/readers.rs\<close>. Threads enter and leave
  nested read scopes, a compactor closes admission, drains the scopes and relocates storage.
  Each function below is one atomic step of a thread inside the corresponding method, \<open>None\<close> when
  the thread is blocked or not in that method; memory accesses are sequentially consistent, which
  is what the paired fences of the source provide.
\<close>

section \<open>State and steps\<close>

datatype rd_pc =
    Running
  | Entering
  | Announced
  | Leaving bool
  | Notifying bool
  | Blocked
  | Locked
  | Closing
  | Scanning "nat list"
  | Waiting
  | Waking
  | Granted
  | Reopened

record readers =
  rd_slots :: "nat list"
  rd_depth :: "nat \<Rightarrow> nat"
  rd_closed :: bool
  rd_maintenance :: "nat option"
  rd_idle :: "nat option"
  rd_pc :: "nat \<Rightarrow> rd_pc"

definition readers_new :: readers where
  "readers_new = \<lparr>rd_slots = [], rd_depth = (\<lambda>_. 0), rd_closed = False, rd_maintenance = None, rd_idle = None,
     rd_pc = (\<lambda>_. Running)\<rparr>"

definition goto :: "nat \<Rightarrow> rd_pc \<Rightarrow> readers \<Rightarrow> readers" where
  "goto t p s = s\<lparr>rd_pc := (rd_pc s)(t := p)\<rparr>"

definition set_depth :: "nat \<Rightarrow> nat \<Rightarrow> readers \<Rightarrow> readers" where
  "set_depth t d s = s\<lparr>rd_depth := (rd_depth s)(t := d)\<rparr>"

text \<open>First registration of a thread, under the maintenance lock.\<close>

definition register_step :: "nat \<Rightarrow> readers \<Rightarrow> readers option" where
  "register_step t s = (if rd_maintenance s = None then Some (s\<lparr>rd_slots := rd_slots s @ [t]\<rparr>) else None)"

text \<open>
  Entering a scope. A reader that meets the closed gate drops its guard (\<open>Leaving True\<close>) and waits
  for the maintenance lock before it tries again.
\<close>

definition enter_step :: "nat \<Rightarrow> readers \<Rightarrow> readers option" where
  "enter_step t s =
     (case rd_pc s t of
        Running \<Rightarrow> Some (goto t Entering s)
      | Entering \<Rightarrow>
          if t \<notin> set (rd_slots s) then register_step t s
          else if rd_depth s t \<noteq> 0 then Some (goto t Running (set_depth t (rd_depth s t + 1) s))
          else Some (goto t Announced (set_depth t 1 s))
      | Announced \<Rightarrow>
          if \<not> rd_closed s then Some (goto t Running s)
          else Some (goto t (Leaving True) (set_depth t (rd_depth s t - 1) s))
      | Blocked \<Rightarrow> if rd_maintenance s = None then Some (goto t Entering s) else None
      | _ \<Rightarrow> None)"

definition after_leave :: "bool \<Rightarrow> rd_pc" where
  "after_leave retry = (if retry then Blocked else Running)"

text \<open>\<open>notify_one\<close> under the idle lock wakes the waiting compactor, if there is one.\<close>

definition notify_step :: "nat \<Rightarrow> readers \<Rightarrow> readers option" where
  "notify_step t s =
     (if rd_idle s = None
      then Some (s\<lparr>rd_pc := (\<lambda>u. if rd_pc s u = Waiting then Waking else rd_pc s u)\<rparr>)
      else None)"

text \<open>Dropping a guard: the last level checks the gate and notifies the compactor.\<close>

definition guard_drop_step :: "nat \<Rightarrow> readers \<Rightarrow> readers option" where
  "guard_drop_step t s =
     (case rd_pc s t of
        Running \<Rightarrow>
          if rd_depth s t = 0 then None
          else Some (goto t (if rd_depth s t \<noteq> 1 then Running else Leaving False) (set_depth t (rd_depth s t - 1) s))
      | Leaving retry \<Rightarrow> Some (goto t (if rd_closed s then Notifying retry else after_leave retry) s)
      | Notifying retry \<Rightarrow> do { s \<leftarrow> notify_step t s; Some (goto t (after_leave retry) s) }
      | _ \<Rightarrow> None)"

text \<open>
  Closing admission and draining. A thread that holds a scope gets an error instead, without any
  step; the slots are scanned one by one under the idle lock, which waiting releases.
\<close>

definition pause_step :: "nat \<Rightarrow> readers \<Rightarrow> readers option" where
  "pause_step t s =
     (case rd_pc s t of
        Running \<Rightarrow>
          if rd_depth s t \<noteq> 0 then None
          else if rd_maintenance s = None then Some (goto t Locked (s\<lparr>rd_maintenance := Some t\<rparr>))
          else None
      | Locked \<Rightarrow> Some (goto t Closing (s\<lparr>rd_closed := True\<rparr>))
      | Closing \<Rightarrow> if rd_idle s = None then Some (goto t (Scanning (rd_slots s)) (s\<lparr>rd_idle := Some t\<rparr>)) else None
      | Scanning [] \<Rightarrow> Some (goto t Granted (s\<lparr>rd_idle := None\<rparr>))
      | Scanning (u # us) \<Rightarrow>
          if rd_depth s u = 0 then Some (goto t (Scanning us) s)
          else Some (goto t Waiting (s\<lparr>rd_idle := None\<rparr>))
      | Waking \<Rightarrow> if rd_idle s = None then Some (goto t (Scanning (rd_slots s)) (s\<lparr>rd_idle := Some t\<rparr>)) else None
      | _ \<Rightarrow> None)"

text \<open>The barrier call of \<open>pause\<close> may fail; dropping the pause then reopens admission.\<close>

definition barrier_fail_step :: "nat \<Rightarrow> readers \<Rightarrow> readers option" where
  "barrier_fail_step t s =
     (case rd_pc s t of Closing \<Rightarrow> Some (goto t Reopened (s\<lparr>rd_closed := False\<rparr>)) | _ \<Rightarrow> None)"

definition pause_drop_step :: "nat \<Rightarrow> readers \<Rightarrow> readers option" where
  "pause_drop_step t s =
     (case rd_pc s t of
        Granted \<Rightarrow> Some (goto t Reopened (s\<lparr>rd_closed := False\<rparr>))
      | Reopened \<Rightarrow> Some (goto t Running (s\<lparr>rd_maintenance := None\<rparr>))
      | _ \<Rightarrow> None)"

section \<open>Interleavings\<close>

inductive readers_step :: "readers \<Rightarrow> readers \<Rightarrow> bool" where
  enter: "enter_step t s = Some s' \<Longrightarrow> readers_step s s'"
| guard_drop: "guard_drop_step t s = Some s' \<Longrightarrow> readers_step s s'"
| pause: "pause_step t s = Some s' \<Longrightarrow> readers_step s s'"
| barrier_fail: "barrier_fail_step t s = Some s' \<Longrightarrow> readers_step s s'"
| pause_drop: "pause_drop_step t s = Some s' \<Longrightarrow> readers_step s s'"

text \<open>A thread inside a read scope, free to touch the index and the mapped images.\<close>

definition admitted :: "readers \<Rightarrow> nat \<Rightarrow> bool" where
  "admitted s t \<longleftrightarrow> rd_depth s t \<noteq> 0 \<and> (rd_pc s t = Running \<or> rd_pc s t = Entering)"

definition in_maintenance :: "rd_pc \<Rightarrow> bool" where
  "in_maintenance p \<longleftrightarrow> p = Locked \<or> p = Closing \<or> (\<exists>us. p = Scanning us) \<or> p = Waiting \<or> p = Waking \<or> p = Granted \<or> p = Reopened"

definition gate_closed :: "rd_pc \<Rightarrow> bool" where
  "gate_closed p \<longleftrightarrow> in_maintenance p \<and> p \<noteq> Locked \<and> p \<noteq> Reopened"

definition depth_ok :: "readers \<Rightarrow> nat \<Rightarrow> bool" where
  "depth_ok s t \<longleftrightarrow>
     (case rd_pc s t of
        Running \<Rightarrow> rd_depth s t \<noteq> 0 \<longrightarrow> t \<in> set (rd_slots s)
      | Entering \<Rightarrow> rd_depth s t \<noteq> 0 \<longrightarrow> t \<in> set (rd_slots s)
      | Announced \<Rightarrow> rd_depth s t = 1 \<and> t \<in> set (rd_slots s)
      | _ \<Rightarrow> rd_depth s t = 0)"

text \<open>What the compactor has established so far.\<close>

definition drained :: "readers \<Rightarrow> rd_pc \<Rightarrow> bool" where
  "drained s p \<longleftrightarrow>
     (case p of
        Scanning us \<Rightarrow> \<exists>vs. rd_slots s = vs @ us \<and> (\<forall>u \<in> set vs. \<not> admitted s u)
      | Granted \<Rightarrow> \<forall>u \<in> set (rd_slots s). \<not> admitted s u
      | Waiting \<Rightarrow> \<exists>u. rd_depth s u \<noteq> 0 \<or> (\<exists>r. rd_pc s u = Leaving r \<or> rd_pc s u = Notifying r)
      | _ \<Rightarrow> True)"

definition readers_inv :: "readers \<Rightarrow> bool" where
  "readers_inv s \<longleftrightarrow>
     (\<forall>t. in_maintenance (rd_pc s t) \<longleftrightarrow> rd_maintenance s = Some t) \<and> (\<forall>t. depth_ok s t) \<and>
     (case rd_maintenance s of
        None \<Rightarrow> \<not> rd_closed s \<and> rd_idle s = None
      | Some m \<Rightarrow> (rd_closed s \<longleftrightarrow> gate_closed (rd_pc s m)) \<and>
          rd_idle s = (case rd_pc s m of Scanning us \<Rightarrow> Some m | _ \<Rightarrow> None) \<and> drained s (rd_pc s m))"

lemmas rd_defs = goto_def set_depth_def in_maintenance_def gate_closed_def

lemma in_maintenance_simps [simp]:
  "\<not> in_maintenance Running" "\<not> in_maintenance Entering" "\<not> in_maintenance Announced" "\<not> in_maintenance (Leaving r)"
  "\<not> in_maintenance (Notifying r)" "\<not> in_maintenance Blocked" "in_maintenance Locked" "in_maintenance Closing"
  "in_maintenance (Scanning us)" "in_maintenance Waiting" "in_maintenance Waking" "in_maintenance Granted" "in_maintenance Reopened"
  by (simp_all add: in_maintenance_def)

text \<open>
  A step of a reader: it changes only its own slot and position, both consistently, and either
  keeps the gate open or does not gain admission.
\<close>

definition reader_move :: "nat \<Rightarrow> readers \<Rightarrow> readers \<Rightarrow> bool" where
  "reader_move t s s' \<longleftrightarrow> (\<exists>d p. s' = goto t p (set_depth t d s) \<and> \<not> in_maintenance (rd_pc s t) \<and> \<not> in_maintenance p \<and>
     depth_ok s' t \<and> (rd_closed s \<longrightarrow> admitted s' t \<longrightarrow> admitted s t) \<and>
     (rd_closed s \<longrightarrow> rd_depth s t \<noteq> 0 \<or> (\<exists>r. rd_pc s t = Leaving r) \<longrightarrow> d \<noteq> 0 \<or> (\<exists>r. p = Leaving r \<or> p = Notifying r)))"

lemma reader_move_inv:
  assumes i: "readers_inv s" and m: "reader_move t s s'" and n: "\<forall>r. rd_pc s t \<noteq> Notifying r"
  shows "readers_inv s'"
proof -
  obtain d p where s': "s' = goto t p (set_depth t d s)" and p: "\<not> in_maintenance (rd_pc s t)" "\<not> in_maintenance p"
    and dk: "depth_ok s' t" and ad: "rd_closed s \<longrightarrow> admitted s' t \<longrightarrow> admitted s t"
    and wt: "rd_closed s \<longrightarrow> rd_depth s t \<noteq> 0 \<or> (\<exists>r. rd_pc s t = Leaving r) \<longrightarrow> d \<noteq> 0 \<or> (\<exists>r. p = Leaving r \<or> p = Notifying r)"
    using m by (auto simp: reader_move_def)
  have same: "rd_slots s' = rd_slots s" "rd_closed s' = rd_closed s" "rd_maintenance s' = rd_maintenance s" "rd_idle s' = rd_idle s"
    "rd_pc s' = (rd_pc s)(t := p)" "rd_depth s' = (rd_depth s)(t := d)"
    using s' by (simp_all add: rd_defs)
  have mt: "\<forall>u. in_maintenance (rd_pc s' u) \<longleftrightarrow> rd_maintenance s' = Some u"
    using i p by (auto simp: readers_inv_def same)
  have od: "depth_ok s u" for u using i by (simp add: readers_inv_def)
  have dp: "\<forall>u. depth_ok s' u"
  proof
    fix u
    show "depth_ok s' u"
    proof (cases "u = t")
      case False
      then show ?thesis using od [of u] by (cases "rd_pc s u") (simp_all add: depth_ok_def same)
    qed (simp add: dk)
  qed
  show ?thesis
  proof (cases "rd_maintenance s")
    case None
    then show ?thesis using i mt dp by (simp add: readers_inv_def same)
  next
    case (Some c)
    then have c: "c \<noteq> t" "rd_pc s' c = rd_pc s c" using i p by (auto simp: readers_inv_def same)
    have a: "admitted s u" if "rd_closed s" "admitted s' u" for u
      using that ad by (cases "u = t") (auto simp: admitted_def same)
    have dr: "drained s (rd_pc s c)" and g: "rd_closed s \<longleftrightarrow> gate_closed (rd_pc s c)" using i Some by (auto simp: readers_inv_def)
    have "drained s' (rd_pc s c)"
    proof (cases "rd_pc s c")
      case (Scanning us)
      then have "rd_closed s" using g by (simp add: gate_closed_def)
      then show ?thesis using dr a Scanning by (auto simp: drained_def same)
    next
      case Granted
      then have "rd_closed s" using g by (simp add: gate_closed_def)
      then show ?thesis using dr a Granted by (auto simp: drained_def same)
    next
      case Waiting
      then have cl: "rd_closed s" using g by (simp add: gate_closed_def)
      from dr Waiting obtain u where u: "rd_depth s u \<noteq> 0 \<or> (\<exists>r. rd_pc s u = Leaving r \<or> rd_pc s u = Notifying r)"
        by (auto simp: drained_def)
      then have "rd_depth s' u \<noteq> 0 \<or> (\<exists>r. rd_pc s' u = Leaving r \<or> rd_pc s' u = Notifying r)"
        using wt cl n by (cases "u = t") (auto simp: same)
      then show ?thesis using Waiting by (auto simp: drained_def)
    qed (simp_all add: drained_def)
    then show ?thesis using i mt dp Some c by (simp add: readers_inv_def same)
  qed
qed

lemma reader_moveI:
  assumes "s' = goto t p (set_depth t d s)" "\<not> in_maintenance (rd_pc s t)" "\<not> in_maintenance p" "depth_ok s' t"
    "rd_closed s \<Longrightarrow> admitted s' t \<Longrightarrow> admitted s t"
    "rd_closed s \<Longrightarrow> rd_depth s t \<noteq> 0 \<or> (\<exists>r. rd_pc s t = Leaving r) \<Longrightarrow> d \<noteq> 0 \<or> (\<exists>r. p = Leaving r \<or> p = Notifying r)"
  shows "reader_move t s s'"
  unfolding reader_move_def using assms by blast

lemma readers_invD:
  assumes "readers_inv s"
  shows "in_maintenance (rd_pc s t) \<longleftrightarrow> rd_maintenance s = Some t" and "depth_ok s t"
  using assms by (simp_all add: readers_inv_def)

lemma set_depth_same: "rd_depth s t = d \<Longrightarrow> set_depth t d s = s"
  by (simp add: set_depth_def fun_upd_idem)

lemma register_inv:
  assumes i: "readers_inv s" and r: "register_step t s = Some s'"
  shows "readers_inv s'"
proof -
  have n: "rd_maintenance s = None" and s': "s' = s\<lparr>rd_slots := rd_slots s @ [t]\<rparr>"
    using r by (simp_all add: register_step_def split: if_splits)
  have "depth_ok s' u" for u using readers_invD(2) [OF i, of u] by (cases "rd_pc s u") (auto simp: depth_ok_def s')
  then show ?thesis using i n by (simp add: readers_inv_def s')
qed

lemma enter_inv:
  assumes i: "readers_inv s" and e: "enter_step t s = Some s'"
  shows "readers_inv s'"
proof -
  note d = readers_invD(2) [OF i, of t]
  show ?thesis
  proof (cases "rd_pc s t")
    case Running
    have "reader_move t s s'" using e d Running
      by (intro reader_moveI [where p = Entering and d = "rd_depth s t"])
        (auto simp: enter_step_def set_depth_same depth_ok_def admitted_def goto_def)
    then show ?thesis by (rule reader_move_inv [OF i]) (simp add: Running)
  next
    case Announced
    have "reader_move t s s'"
    proof (cases "rd_closed s")
      case True
      then show ?thesis using e d Announced
        by (intro reader_moveI [where p = "Leaving True" and d = "rd_depth s t - 1"])
          (auto simp: enter_step_def depth_ok_def admitted_def goto_def set_depth_def)
    next
      case False
      then show ?thesis using e d Announced
        by (intro reader_moveI [where p = Running and d = "rd_depth s t"])
          (auto simp: enter_step_def set_depth_same depth_ok_def admitted_def goto_def)
    qed
    then show ?thesis by (rule reader_move_inv [OF i]) (simp add: Announced)
  next
    case Blocked
    have "reader_move t s s'" using e d Blocked
      by (intro reader_moveI [where p = Entering and d = "rd_depth s t"])
        (auto simp: enter_step_def set_depth_same depth_ok_def admitted_def goto_def split: if_splits)
    then show ?thesis by (rule reader_move_inv [OF i]) (simp add: Blocked)
  next
    case Entering
    consider "register_step t s = Some s'" | "t \<in> set (rd_slots s)" "rd_depth s t \<noteq> 0" | "t \<in> set (rd_slots s)" "rd_depth s t = 0"
      using e Entering by (auto simp: enter_step_def split: if_splits)
    then show ?thesis
    proof cases
      case 1
      then show ?thesis by (rule register_inv [OF i])
    next
      case 2
      have "reader_move t s s'" using e d Entering 2
        by (intro reader_moveI [where p = Running and d = "rd_depth s t + 1"])
          (auto simp: enter_step_def depth_ok_def admitted_def goto_def set_depth_def)
      then show ?thesis by (rule reader_move_inv [OF i]) (simp add: Entering)
    next
      case 3
      have "reader_move t s s'" using e d Entering 3
        by (intro reader_moveI [where p = Announced and d = 1])
          (auto simp: enter_step_def depth_ok_def admitted_def goto_def set_depth_def)
      then show ?thesis by (rule reader_move_inv [OF i]) (simp add: Entering)
    qed
  qed (use e in \<open>simp_all add: enter_step_def\<close>)
qed

lemma after_leave_simps [simp]: "after_leave r \<noteq> Scanning us" "\<not> in_maintenance (after_leave r)"
  by (simp_all add: after_leave_def)

lemma notify_inv:
  assumes i: "readers_inv s" and e: "notify_step t s = Some s'" and p: "rd_pc s t = Notifying r"
  shows "readers_inv (goto t (after_leave r) s')"
proof -
  let ?w = "\<lambda>u. if u = t then after_leave r else if rd_pc s u = Waiting then Waking else rd_pc s u"
  have n: "rd_idle s = None" and s': "goto t (after_leave r) s' = s\<lparr>rd_pc := ?w\<rparr>"
    using e by (auto simp: notify_step_def goto_def fun_eq_iff split: if_splits)
  have m: "in_maintenance (?w u) \<longleftrightarrow> rd_maintenance s = Some u" for u
    using readers_invD(1) [OF i, of u] p by (auto simp: after_leave_def)
  have d: "depth_ok (s\<lparr>rd_pc := ?w\<rparr>) u" for u
    using readers_invD(2) [OF i, of u] p by (cases "rd_pc s u") (auto simp: depth_ok_def after_leave_def)
  have q: "drained (s\<lparr>rd_pc := ?w\<rparr>) (?w c) \<and> gate_closed (?w c) = gate_closed (rd_pc s c) \<and> (\<forall>us. ?w c \<noteq> Scanning us)"
    if "rd_maintenance s = Some c" for c
  proof -
    have im: "in_maintenance (rd_pc s c)" and c: "drained s (rd_pc s c)" "\<forall>us. rd_pc s c \<noteq> Scanning us"
      using i n that by (auto simp: readers_inv_def)
    then have ct: "c \<noteq> t" using p by auto
    have a: "admitted s u" if "admitted (s\<lparr>rd_pc := ?w\<rparr>) u" "depth_ok s t" for u
      using that p by (cases "u = t") (auto simp: admitted_def depth_ok_def split: if_splits)
    show ?thesis using im c ct a readers_invD(2) [OF i, of t]
      by (cases "rd_pc s c") (auto simp: drained_def gate_closed_def)
  qed
  show ?thesis
  proof (cases "rd_maintenance s")
    case None
    then show ?thesis using i m d by (simp add: readers_inv_def s')
  next
    case (Some c)
    then show ?thesis using i m d q [OF Some] n
      by (simp add: readers_inv_def s' split: rd_pc.split del: if_split)
  qed
qed

lemma guard_drop_inv:
  assumes i: "readers_inv s" and e: "guard_drop_step t s = Some s'"
  shows "readers_inv s'"
proof -
  note d = readers_invD(2) [OF i, of t]
  show ?thesis
  proof (cases "rd_pc s t")
    case Running
    have "reader_move t s s'" using e d Running
      by (intro reader_moveI [where p = "if rd_depth s t \<noteq> 1 then Running else Leaving False" and d = "rd_depth s t - 1"])
        (auto simp: guard_drop_step_def depth_ok_def admitted_def goto_def set_depth_def split: if_splits)
    then show ?thesis by (rule reader_move_inv [OF i]) (simp add: Running)
  next
    case (Leaving r)
    have "reader_move t s s'" using e d Leaving
      by (intro reader_moveI [where p = "if rd_closed s then Notifying r else after_leave r" and d = "rd_depth s t"])
        (auto simp: guard_drop_step_def set_depth_same depth_ok_def admitted_def after_leave_def goto_def split: if_splits)
    then show ?thesis by (rule reader_move_inv [OF i]) (simp add: Leaving)
  next
    case (Notifying r)
    then obtain s1 where "notify_step t s = Some s1" "s' = goto t (after_leave r) s1"
      using e by (auto simp: guard_drop_step_def bind_eq_Some_conv)
    then show ?thesis using notify_inv [OF i _ Notifying] by simp
  qed (use e in \<open>simp_all add: guard_drop_step_def\<close>)
qed

lemma compactor_inv:
  assumes i: "readers_inv s" and own: "rd_maintenance s = None \<or> rd_maintenance s = Some t" and z: "rd_depth s t = 0"
    and same: "rd_slots s' = rd_slots s" "rd_depth s' = rd_depth s" "rd_pc s' = (rd_pc s)(t := p)"
    and m: "in_maintenance p" "rd_maintenance s' = Some t" and c: "rd_closed s' \<longleftrightarrow> gate_closed p"
    and w: "rd_idle s' = (case p of Scanning us \<Rightarrow> Some t | _ \<Rightarrow> None)" and d: "drained s' p"
  shows "readers_inv s'"
proof -
  have "in_maintenance (rd_pc s' u) \<longleftrightarrow> rd_maintenance s' = Some u" for u
    using readers_invD(1) [OF i, of u] own m by (auto simp: same)
  moreover have "depth_ok s' u" for u
  proof (cases "u = t")
    case True
    then show ?thesis using m z by (cases p) (simp_all add: depth_ok_def same)
  next
    case False
    then show ?thesis using readers_invD(2) [OF i, of u] by (cases "rd_pc s u") (simp_all add: depth_ok_def same)
  qed
  ultimately show ?thesis using m c w d by (simp add: readers_inv_def same)
qed

lemma maintenance_facts:
  assumes i: "readers_inv s" and m: "in_maintenance (rd_pc s t)"
  shows "rd_maintenance s = Some t" "rd_depth s t = 0" "drained s (rd_pc s t)"
    "rd_closed s \<longleftrightarrow> gate_closed (rd_pc s t)" "rd_idle s = (case rd_pc s t of Scanning us \<Rightarrow> Some t | _ \<Rightarrow> None)"
proof -
  show t: "rd_maintenance s = Some t" using readers_invD(1) [OF i] m by simp
  show "rd_depth s t = 0" using readers_invD(2) [OF i, of t] m by (cases "rd_pc s t") (simp_all add: depth_ok_def)
  show "drained s (rd_pc s t)" "rd_closed s \<longleftrightarrow> gate_closed (rd_pc s t)"
    "rd_idle s = (case rd_pc s t of Scanning us \<Rightarrow> Some t | _ \<Rightarrow> None)" using i t by (simp_all add: readers_inv_def)
qed

lemma pause_inv:
  assumes i: "readers_inv s" and e: "pause_step t s = Some s'"
  shows "readers_inv s'"
proof (cases "rd_pc s t")
  case Running
  then show ?thesis using e i
    by (intro compactor_inv [OF i, where t = t and p = Locked])
      (auto simp: pause_step_def goto_def gate_closed_def drained_def readers_inv_def split: if_splits)
next
  case Locked
  then show ?thesis using e maintenance_facts [OF i, of t]
    by (intro compactor_inv [OF i, where t = t and p = Closing])
      (auto simp: pause_step_def goto_def gate_closed_def drained_def split: if_splits)
next
  case Closing
  then show ?thesis using e maintenance_facts [OF i, of t]
    by (intro compactor_inv [OF i, where t = t and p = "Scanning (rd_slots s)"])
      (auto simp: pause_step_def goto_def gate_closed_def drained_def split: if_splits)
next
  case Waking
  then show ?thesis using e maintenance_facts [OF i, of t]
    by (intro compactor_inv [OF i, where t = t and p = "Scanning (rd_slots s)"])
      (auto simp: pause_step_def goto_def gate_closed_def drained_def split: if_splits)
next
  case (Scanning us)
  note f = maintenance_facts [OF i, of t, unfolded Scanning, simplified]
  obtain vs where vs: "rd_slots s = vs @ us" "\<forall>u \<in> set vs. \<not> admitted s u" using f(3) by (auto simp: drained_def)
  show ?thesis
  proof (cases us)
    case Nil
    then have "drained (s\<lparr>rd_idle := None, rd_pc := (rd_pc s)(t := Granted)\<rparr>) Granted"
      using vs f(2) by (simp add: drained_def admitted_def)
    then show ?thesis using e f Nil Scanning
      by (intro compactor_inv [OF i, where t = t and p = Granted]) (auto simp: pause_step_def goto_def gate_closed_def)
  next
    case (Cons u ws)
    show ?thesis
    proof (cases "rd_depth s u = 0")
      case True
      then have "rd_slots s = (vs @ [u]) @ ws" "\<forall>v \<in> set (vs @ [u]). \<not> admitted s v"
        using vs Cons by (auto simp: admitted_def)
      then have "drained (s\<lparr>rd_pc := (rd_pc s)(t := Scanning ws)\<rparr>) (Scanning ws)"
        using f(2) unfolding drained_def rd_pc.case by (intro exI [of _ "vs @ [u]"]) (simp add: admitted_def)
      then show ?thesis using e f Cons Scanning True
        by (intro compactor_inv [OF i, where t = t and p = "Scanning ws"])
          (auto simp: pause_step_def goto_def gate_closed_def)
    next
      case False
      then show ?thesis using e f Cons Scanning
        by (intro compactor_inv [OF i, where t = t and p = Waiting])
          (auto simp: pause_step_def goto_def gate_closed_def drained_def)
    qed
  qed
qed (use e in \<open>simp_all add: pause_step_def\<close>)

lemma barrier_fail_inv:
  assumes i: "readers_inv s" and e: "barrier_fail_step t s = Some s'"
  shows "readers_inv s'"
proof (cases "rd_pc s t")
  case Closing
  then show ?thesis using e maintenance_facts [OF i, of t]
    by (intro compactor_inv [OF i, where t = t and p = Reopened])
      (auto simp: barrier_fail_step_def goto_def gate_closed_def drained_def)
qed (use e in \<open>simp_all add: barrier_fail_step_def\<close>)

lemma pause_drop_inv:
  assumes i: "readers_inv s" and e: "pause_drop_step t s = Some s'"
  shows "readers_inv s'"
proof (cases "rd_pc s t")
  case Granted
  then show ?thesis using e maintenance_facts [OF i, of t]
    by (intro compactor_inv [OF i, where t = t and p = Reopened])
      (auto simp: pause_drop_step_def goto_def gate_closed_def drained_def)
next
  case Reopened
  note f = maintenance_facts [OF i, of t, unfolded Reopened, simplified]
  have s': "s' = s\<lparr>rd_maintenance := None, rd_pc := (rd_pc s)(t := Running)\<rparr>"
    using e Reopened by (simp add: pause_drop_step_def goto_def)
  have "depth_ok s' u" for u
    using readers_invD(2) [OF i, of u] f(2) by (cases "u = t"; cases "rd_pc s u") (simp_all add: depth_ok_def s')
  moreover have "\<not> in_maintenance (rd_pc s' u)" for u
    using readers_invD(1) [OF i, of u] f(1) by (auto simp: s')
  ultimately show ?thesis using f by (simp add: readers_inv_def s' gate_closed_def)
qed (use e in \<open>simp_all add: pause_drop_step_def\<close>)

lemma readers_new_inv: "readers_inv readers_new"
  by (simp add: readers_inv_def readers_new_def depth_ok_def)

lemma readers_step_inv: "readers_step s s' \<Longrightarrow> readers_inv s \<Longrightarrow> readers_inv s'"
  by (induction rule: readers_step.induct) (blast intro: enter_inv guard_drop_inv pause_inv barrier_fail_inv pause_drop_inv)+

lemma readers_reach_inv: "readers_step\<^sup>*\<^sup>* readers_new s \<Longrightarrow> readers_inv s"
  by (induction rule: rtranclp_induct) (auto intro: readers_new_inv readers_step_inv)

section \<open>Exclusion and progress\<close>

lemma no_admitted_granted:
  assumes i: "readers_inv s" and g: "rd_pc s c = Granted"
  shows "\<not> admitted s u"
proof -
  have "\<forall>u \<in> set (rd_slots s). \<not> admitted s u" using maintenance_facts(3) [OF i, of c] g by (simp add: drained_def)
  moreover have "admitted s u \<Longrightarrow> u \<in> set (rd_slots s)"
    using readers_invD(2) [OF i, of u] by (auto simp: depth_ok_def admitted_def)
  ultimately show ?thesis by blast
qed

text \<open>Closing a reader's scopes, one drop after the other, without moving any thread in maintenance.\<close>

definition quiet_at :: "nat set \<Rightarrow> readers \<Rightarrow> readers \<Rightarrow> bool" where
  "quiet_at us s s' \<longleftrightarrow> readers_step\<^sup>*\<^sup>* s s' \<and> rd_slots s' = rd_slots s \<and>
     rd_depth s' = (\<lambda>u. if u \<in> us then 0 else rd_depth s u) \<and>
     (\<forall>v. in_maintenance (rd_pc s v) \<longrightarrow> rd_pc s' v = rd_pc s v)"

lemma quiet_step:
  assumes "readers_step s s1" "quiet_at us s1 s2" "rd_slots s1 = rd_slots s" "\<And>v. v \<notin> us \<Longrightarrow> rd_depth s1 v = rd_depth s v"
    "\<And>v. in_maintenance (rd_pc s v) \<Longrightarrow> rd_pc s1 v = rd_pc s v"
  shows "quiet_at us s s2"
  using assms by (auto simp: quiet_at_def intro: converse_rtranclp_into_rtranclp)

lemma quiet_running:
  "rd_pc s u = Running \<Longrightarrow> rd_depth s u = n \<Longrightarrow> \<exists>s'. quiet_at {u} s s'"
proof (induction n arbitrary: s)
  case 0
  then have "quiet_at {u} s s" by (auto simp: quiet_at_def)
  then show ?case by blast
next
  case (Suc n)
  let ?s1 = "goto u (if rd_depth s u \<noteq> 1 then Running else Leaving False) (set_depth u (rd_depth s u - 1) s)"
  have st: "readers_step s ?s1" using Suc.prems by (intro readers_step.guard_drop [of u]) (simp add: guard_drop_step_def)
  have "\<exists>s'. quiet_at {u} ?s1 s'"
  proof (cases n)
    case 0
    then have "quiet_at {u} ?s1 ?s1" using Suc.prems by (auto simp: quiet_at_def goto_def set_depth_def)
    then show ?thesis by blast
  next
    case (Suc k)
    then show ?thesis using Suc.prems \<open>rd_depth s u = Suc n\<close> by (intro Suc.IH) (simp_all add: goto_def set_depth_def)
  qed
  then obtain s' where "quiet_at {u} ?s1 s'" by blast
  then have "quiet_at {u} s s'" using Suc.prems by (intro quiet_step [OF st]) (auto simp: goto_def set_depth_def)
  then show ?case by blast
qed

lemma quiet_one:
  assumes i: "readers_inv s" and c: "rd_closed s"
  shows "\<exists>s'. quiet_at {u} s s'"
proof (cases "rd_depth s u = 0")
  case True
  then have "quiet_at {u} s s" by (auto simp: quiet_at_def)
  then show ?thesis by blast
next
  case False
  note d = readers_invD(2) [OF i, of u]
  consider "rd_pc s u = Running" | "rd_pc s u = Entering" "u \<in> set (rd_slots s)" | "rd_pc s u = Announced" "rd_depth s u = 1"
    using d False by (cases "rd_pc s u") (auto simp: depth_ok_def)
  then show ?thesis
  proof cases
    case 1
    then show ?thesis using quiet_running by blast
  next
    case 2
    let ?s1 = "goto u Running (set_depth u (rd_depth s u + 1) s)"
    have st: "readers_step s ?s1" using 2 False by (intro readers_step.enter [of u]) (simp add: enter_step_def)
    have "rd_pc ?s1 u = Running" by (simp add: goto_def)
    then obtain s' where "quiet_at {u} ?s1 s'" using quiet_running by blast
    then have "quiet_at {u} s s'" using 2 by (intro quiet_step [OF st]) (auto simp: goto_def set_depth_def)
    then show ?thesis by blast
  next
    case 3
    let ?s1 = "goto u (Leaving True) (set_depth u (rd_depth s u - 1) s)"
    have st: "readers_step s ?s1" using 3 c by (intro readers_step.enter [of u]) (simp add: enter_step_def)
    have "quiet_at {u} ?s1 ?s1" using 3 by (auto simp: quiet_at_def goto_def set_depth_def)
    then have "quiet_at {u} s ?s1" using 3 by (intro quiet_step [OF st]) (auto simp: goto_def set_depth_def)
    then show ?thesis by blast
  qed
qed

lemma readers_run_inv: "readers_step\<^sup>*\<^sup>* s s' \<Longrightarrow> readers_inv s \<Longrightarrow> readers_inv s'"
  by (induction rule: rtranclp_induct) (auto intro: readers_step_inv)

lemma quiet_all:
  assumes "readers_inv s" "in_maintenance (rd_pc s c)" "gate_closed (rd_pc s c)"
  shows "\<exists>s'. quiet_at (set us) s s'"
  using assms
proof (induction us arbitrary: s)
  case Nil
  have "quiet_at (set []) s s" by (auto simp: quiet_at_def)
  then show ?case by blast
next
  case (Cons u us)
  have "rd_closed s" using maintenance_facts(4) Cons.prems by blast
  then obtain s1 where q1: "quiet_at {u} s s1" using quiet_one Cons.prems by blast
  then have "readers_inv s1" "rd_pc s1 c = rd_pc s c" using readers_run_inv Cons.prems by (auto simp: quiet_at_def)
  then obtain s2 where "quiet_at (set us) s1 s2" using Cons.IH [of s1] Cons.prems by auto
  then have "quiet_at (set (u # us)) s s2" using q1 by (auto simp: quiet_at_def fun_eq_iff)
  then show ?case by blast
qed

lemma scan_completes:
  "rd_pc s c = Scanning us \<Longrightarrow> \<forall>u. rd_depth s u = 0 \<Longrightarrow> \<exists>s'. readers_step\<^sup>*\<^sup>* s s' \<and> rd_pc s' c = Granted"
proof (induction us arbitrary: s)
  case Nil
  have "readers_step s (goto c Granted (s\<lparr>rd_idle := None\<rparr>))"
    using Nil by (intro readers_step.pause [of c]) (simp add: pause_step_def)
  moreover have "rd_pc (goto c Granted (s\<lparr>rd_idle := None\<rparr>)) c = Granted" by (simp add: goto_def)
  ultimately show ?case by blast
next
  case (Cons u us)
  have st: "readers_step s (goto c (Scanning us) s)"
    using Cons.prems by (intro readers_step.pause [of c]) (simp add: pause_step_def)
  have "\<exists>s'. readers_step\<^sup>*\<^sup>* (goto c (Scanning us) s) s' \<and> rd_pc s' c = Granted"
    using Cons.prems by (intro Cons.IH) (simp_all add: goto_def)
  then show ?case using st by (blast intro: converse_rtranclp_into_rtranclp)
qed

lemma relock_completes:
  assumes "rd_pc s c = Closing \<or> rd_pc s c = Waking" "rd_idle s = None" "\<forall>u. rd_depth s u = 0"
  shows "\<exists>s'. readers_step\<^sup>*\<^sup>* s s' \<and> rd_pc s' c = Granted"
proof -
  let ?s1 = "goto c (Scanning (rd_slots s)) (s\<lparr>rd_idle := Some c\<rparr>)"
  have st: "readers_step s ?s1" using assms by (intro readers_step.pause [of c]) (auto simp: pause_step_def)
  have "\<exists>s'. readers_step\<^sup>*\<^sup>* ?s1 s' \<and> rd_pc s' c = Granted"
    using assms by (intro scan_completes [where us = "rd_slots s"]) (simp_all add: goto_def)
  then show ?thesis using st by (blast intro: converse_rtranclp_into_rtranclp)
qed

lemma notify_wakes:
  assumes p: "rd_pc s u = Notifying r" and w: "rd_pc s c = Waiting" and n: "rd_idle s = None" and z: "\<forall>u. rd_depth s u = 0"
  shows "\<exists>s'. readers_step\<^sup>*\<^sup>* s s' \<and> rd_pc s' c = Granted"
proof -
  obtain s1 where s1: "notify_step u s = Some s1" using n by (simp add: notify_step_def)
  have st: "readers_step s (goto u (after_leave r) s1)"
    using p s1 by (intro readers_step.guard_drop [of u]) (simp add: guard_drop_step_def)
  have "rd_pc (goto u (after_leave r) s1) c = Waking" "rd_idle (goto u (after_leave r) s1) = None"
    "\<forall>v. rd_depth (goto u (after_leave r) s1) v = 0"
    using s1 p w n z by (auto simp: notify_step_def goto_def)
  then have "\<exists>s'. readers_step\<^sup>*\<^sup>* (goto u (after_leave r) s1) s' \<and> rd_pc s' c = Granted" by (intro relock_completes) auto
  then show ?thesis using st by (blast intro: converse_rtranclp_into_rtranclp)
qed

lemma wait_completes:
  assumes i: "readers_inv s" and w: "rd_pc s c = Waiting" and z: "\<forall>u. rd_depth s u = 0"
  shows "\<exists>s'. readers_step\<^sup>*\<^sup>* s s' \<and> rd_pc s' c = Granted"
proof -
  note f = maintenance_facts [OF i, of c, unfolded w, simplified]
  obtain u r where "rd_pc s u = Leaving r \<or> rd_pc s u = Notifying r" using f(3) z by (auto simp: drained_def)
  then show ?thesis
  proof
    assume u: "rd_pc s u = Leaving r"
    have st: "readers_step s (goto u (Notifying r) s)"
      using u f(4) by (intro readers_step.guard_drop [of u]) (simp add: guard_drop_step_def gate_closed_def)
    have "\<exists>s'. readers_step\<^sup>*\<^sup>* (goto u (Notifying r) s) s' \<and> rd_pc s' c = Granted"
      using u w f z by (intro notify_wakes [of _ u r]) (auto simp: goto_def)
    then show ?thesis using st by (blast intro: converse_rtranclp_into_rtranclp)
  qed (rule notify_wakes, use w f z in auto)
qed

lemma pause_completes:
  assumes i: "readers_inv s" and g: "gate_closed (rd_pc s c)"
  shows "\<exists>s'. readers_step\<^sup>*\<^sup>* s s' \<and> rd_pc s' c = Granted"
proof -
  have m: "in_maintenance (rd_pc s c)" using g by (simp add: gate_closed_def)
  obtain s1 where q: "quiet_at (set (rd_slots s)) s s1" using quiet_all [OF i m g] by blast
  then have i1: "readers_inv s1" and p: "rd_pc s1 c = rd_pc s c" using readers_run_inv i m by (auto simp: quiet_at_def)
  have z: "\<forall>u. rd_depth s1 u = 0"
  proof
    fix u show "rd_depth s1 u = 0"
    using readers_invD(2) [OF i1, of u] q by (auto simp: quiet_at_def depth_ok_def split: rd_pc.splits if_splits)
  qed
  note f = maintenance_facts [OF i1, of c, unfolded p, OF m]
  have "\<exists>s'. readers_step\<^sup>*\<^sup>* s1 s' \<and> rd_pc s' c = Granted"
  proof (cases "rd_pc s c")
    case (Scanning us)
    then show ?thesis using scan_completes p z by simp
  next
    case Waiting
    then show ?thesis using wait_completes [OF i1] p z by simp
  qed (use g f p z relock_completes [of s1 c] in \<open>auto simp: gate_closed_def\<close>)
  then show ?thesis using q by (auto simp: quiet_at_def intro: rtranclp_trans)
qed

section \<open>Properties\<close>

text \<open>A schedule of steps, to evaluate concrete interleavings.\<close>

datatype rd_op = Enter | Drop | Pause | Fail | Resume

fun rd_exec :: "nat \<times> rd_op \<Rightarrow> readers \<Rightarrow> readers option" where
  "rd_exec (t, Enter) s = enter_step t s"
| "rd_exec (t, Drop) s = guard_drop_step t s"
| "rd_exec (t, Pause) s = pause_step t s"
| "rd_exec (t, Fail) s = barrier_fail_step t s"
| "rd_exec (t, Resume) s = pause_drop_step t s"

fun rd_schedule :: "(nat \<times> rd_op) list \<Rightarrow> readers \<Rightarrow> readers option" where
  "rd_schedule [] s = Some s"
| "rd_schedule (x # xs) s = do { s1 \<leftarrow> rd_exec x s; rd_schedule xs s1 }"

lemma rd_exec_step: "rd_exec x s = Some s' \<Longrightarrow> readers_step s s'"
  by (cases "(x, s)" rule: rd_exec.cases) (auto intro: readers_step.intros)

lemma rd_schedule_run: "rd_schedule xs s = Some s' \<Longrightarrow> readers_step\<^sup>*\<^sup>* s s'"
proof (induction xs arbitrary: s)
  case (Cons x xs)
  then obtain s1 where "rd_exec x s = Some s1" "rd_schedule xs s1 = Some s'" by (auto simp: bind_eq_Some_conv)
  then show ?case using Cons.IH [of s1] rd_exec_step [of x s s1] by (auto intro: converse_rtranclp_into_rtranclp)
qed simp

text \<open>
  A reader is inside when the compactor closes the gate and waits; a second reader meets the gate,
  withdraws and blocks; the first reader leaves and wakes the compactor.
\<close>

definition waiting_schedule :: "(nat \<times> rd_op) list" where
  "waiting_schedule = [(0, Enter), (0, Enter), (0, Enter), (0, Enter), (2, Enter), (2, Enter), (1, Pause), (1, Pause), (1, Pause),
     (2, Enter), (1, Pause)]"

definition granted_schedule :: "(nat \<times> rd_op) list" where
  "granted_schedule = waiting_schedule @ [(2, Enter), (2, Drop), (2, Drop), (0, Drop), (0, Drop), (0, Drop), (1, Pause), (1, Pause),
     (1, Pause), (1, Pause)]"

lemmas rd_eval = waiting_schedule_def granted_schedule_def readers_new_def enter_step_def register_step_def guard_drop_step_def
  notify_step_def pause_step_def goto_def set_depth_def after_leave_def

lemma granted_schedule_runs: "\<exists>s. rd_schedule granted_schedule readers_new = Some s \<and> rd_pc s 1 = Granted \<and> rd_pc s 2 = Blocked"
  by (simp add: rd_eval)

text \<open>
  C19: relocation is exclusive. In every interleaving of readers entering, nesting and leaving
  scopes with compactors pausing and resuming, while one compactor has been granted relocation no
  thread is inside a read scope, no other thread owns maintenance, the gate is closed and the set
  of registered threads contains everyone with a non-zero nesting depth.
\<close>

theorem relocation_exclusive:
  assumes r: "readers_step\<^sup>*\<^sup>* readers_new s" and g: "rd_pc s c = Granted"
  shows "\<not> admitted s u \<and> (in_maintenance (rd_pc s u) \<longrightarrow> u = c) \<and> rd_closed s \<and>
    (rd_depth s u \<noteq> 0 \<longrightarrow> rd_pc s u = Announced \<and> u \<in> set (rd_slots s))"
proof -
  note i = readers_reach_inv [OF r]
  have a: "\<not> admitted s u" by (rule no_admitted_granted [OF i g])
  have "rd_maintenance s = Some c" "rd_closed s" using maintenance_facts [OF i, of c] g by (auto simp: gate_closed_def)
  moreover have "rd_depth s u \<noteq> 0 \<longrightarrow> rd_pc s u = Announced \<and> u \<in> set (rd_slots s)"
    using readers_invD(2) [OF i, of u] a by (auto simp: depth_ok_def admitted_def split: rd_pc.splits)
  ultimately show ?thesis using readers_invD(1) [OF i, of u] a by simp
qed

theorem relocation_exclusive_witness:
  "\<exists>s. rd_schedule granted_schedule readers_new = Some s \<and> rd_pc s 1 = Granted \<and> rd_pc s 2 = Blocked \<and>
     \<not> admitted s 0 \<and> rd_closed s"
proof -
  obtain s where s: "rd_schedule granted_schedule readers_new = Some s" "rd_pc s 1 = Granted" "rd_pc s 2 = Blocked"
    using granted_schedule_runs by blast
  show ?thesis using s relocation_exclusive [OF rd_schedule_run [OF s(1)] s(2), of 0] by auto
qed



end
