(* ===== verification/Db_Index.thy ===== *)
theory Db_Index
  imports Account_Refine
begin

text \<open>
  The index of persisted accounts: \<^verbatim>\<open>accountsdb/src/store/index.rs\<close> and the key types of
  \<^verbatim>\<open>accountsdb/src/store/kv.rs\<close>. The three LMDB tables and their transactions are a parameter: a
  record of the operations the code calls, over a type \<open>'t\<close> of database contents as one transaction
  sees them. \<open>lmdb_ok\<close> names what the documentation promises of them; each operation may also fail.
\<close>

section \<open>Keys and errors\<close>

datatype db_error = CodecError | IOError | IndexError | Allocation | UnsupportedVersion u64 | Corruption | Serde | WouldBlock

type_synonym key_tail = bytes

definition key_tail :: "pubkey \<Rightarrow> key_tail" where
  "key_tail pk = map (\<lambda>i. pk ! (i + 16)) [0 ..< 16]"

record owner_and_offset =
  oo_owner :: key_tail
  oo_offset :: nat

section \<open>The LMDB interface\<close>

record 't lmdb =
  lm_begin :: "'t \<Rightarrow> db_error + 't"
  lm_commit :: "'t \<Rightarrow> db_error + 't"
  lm_force_sync :: "'t \<Rightarrow> db_error + unit"
  lm_acc_get :: "'t \<Rightarrow> pubkey \<Rightarrow> db_error + owner_and_offset option"
  lm_acc_put :: "pubkey \<Rightarrow> owner_and_offset \<Rightarrow> 't \<Rightarrow> db_error + 't"
  lm_acc_delete :: "pubkey \<Rightarrow> 't \<Rightarrow> db_error + 't"
  lm_acc_iter :: "'t \<Rightarrow> db_error + (pubkey \<times> owner_and_offset) list"
  lm_prog_put :: "key_tail \<Rightarrow> nat \<Rightarrow> 't \<Rightarrow> db_error + 't"
  lm_prog_delete_one :: "key_tail \<Rightarrow> nat \<Rightarrow> 't \<Rightarrow> db_error + 't"
  lm_prog_duplicates :: "'t \<Rightarrow> key_tail \<Rightarrow> db_error + nat list option"
  lm_free_get :: "'t \<Rightarrow> nat \<Rightarrow> db_error + nat option"
  lm_free_put :: "nat \<Rightarrow> nat \<Rightarrow> 't \<Rightarrow> db_error + 't"
  lm_free_delete_one :: "nat \<Rightarrow> nat \<Rightarrow> 't \<Rightarrow> db_error + 't"
  lm_free_iter :: "'t \<Rightarrow> db_error + (nat \<times> nat) list"

text \<open>The contents of the three tables: a map, and two sets of key and duplicate value pairs.\<close>

record tables =
  tb_accounts :: "pubkey \<rightharpoonup> owner_and_offset"
  tb_programs :: "(key_tail \<times> nat) set"
  tb_freelist :: "(nat \<times> nat) set"

definition updates :: "('t \<Rightarrow> db_error + 't) \<Rightarrow> ('t \<Rightarrow> tables) \<Rightarrow> (tables \<Rightarrow> tables) \<Rightarrow> bool" where
  "updates f tb g \<longleftrightarrow> (\<forall>t t'. f t = Inr t' \<longrightarrow> tb t' = g (tb t))"

definition answers :: "('t \<Rightarrow> db_error + 'a) \<Rightarrow> ('t \<Rightarrow> tables) \<Rightarrow> (tables \<Rightarrow> 'a \<Rightarrow> bool) \<Rightarrow> bool" where
  "answers f tb g \<longleftrightarrow> (\<forall>t x. f t = Inr x \<longrightarrow> g (tb t) x)"

text \<open>
  A successful transaction start or commit shows or publishes the same contents; lookups answer from the contents,
  a duplicate table yields its first value or all values of a key; updates change one entry.
\<close>

definition lmdb_ok :: "'t lmdb \<Rightarrow> ('t \<Rightarrow> tables) \<Rightarrow> bool" where
  "lmdb_ok L tb \<longleftrightarrow>
     updates (lm_begin L) tb (\<lambda>b. b) \<and>
     updates (lm_commit L) tb (\<lambda>b. b) \<and>
     (\<forall>k. answers (\<lambda>t. lm_acc_get L t k) tb (\<lambda>b x. x = tb_accounts b k)) \<and>
     (\<forall>k d. updates (lm_acc_put L k d) tb (tb_accounts_update (\<lambda>f. f(k \<mapsto> d)))) \<and>
     (\<forall>k. updates (lm_acc_delete L k) tb (tb_accounts_update (\<lambda>f. f(k := None)))) \<and>
     answers (lm_acc_iter L) tb (\<lambda>b es. map_of es = tb_accounts b \<and> distinct (map fst es)) \<and>
     (\<forall>k d. updates (lm_prog_put L k d) tb (tb_programs_update (insert (k, d)))) \<and>
     (\<forall>k d. updates (lm_prog_delete_one L k d) tb (tb_programs_update (\<lambda>p. p - {(k, d)}))) \<and>
     (\<forall>k. answers (\<lambda>t. lm_prog_duplicates L t k) tb (\<lambda>b x.
        case x of None \<Rightarrow> {d. (k, d) \<in> tb_programs b} = {}
        | Some ds \<Rightarrow> ds \<noteq> [] \<and> distinct ds \<and> set ds = {d. (k, d) \<in> tb_programs b})) \<and>
     (\<forall>u. answers (\<lambda>t. lm_free_get L t u) tb (\<lambda>b x.
        case x of None \<Rightarrow> \<forall>d. (u, d) \<notin> tb_freelist b | Some d \<Rightarrow> (u, d) \<in> tb_freelist b)) \<and>
     (\<forall>u d. updates (lm_free_put L u d) tb (tb_freelist_update (insert (u, d)))) \<and>
     (\<forall>u d. updates (lm_free_delete_one L u d) tb (tb_freelist_update (\<lambda>p. p - {(u, d)}))) \<and>
     answers (lm_free_iter L) tb (\<lambda>b es. distinct es \<and> set es = tb_freelist b)"

section \<open>Operations of the index\<close>

definition index_offset :: "'t lmdb \<Rightarrow> pubkey \<Rightarrow> 't \<Rightarrow> db_error + nat option" where
  "index_offset L key t = res_bind (lm_acc_get L t key) (\<lambda>entry. Inr (map_option oo_offset entry))"

definition index_allocate :: "'t lmdb \<Rightarrow> nat \<Rightarrow> 't \<Rightarrow> db_error + nat option \<times> 't" where
  "index_allocate L units t =
     res_bind (lm_free_get L t units) (\<lambda>offset.
     case offset of
       Some off \<Rightarrow> res_bind (lm_free_delete_one L units off t) (\<lambda>t. Inr (Some off, t))
     | None \<Rightarrow> Inr (None, t))"

definition index_insert :: "'t lmdb \<Rightarrow> pubkey \<Rightarrow> owner_and_offset \<Rightarrow> 't \<Rightarrow> db_error + 't" where
  "index_insert L key data t =
     res_bind (lm_acc_put L key data t) (\<lambda>t. lm_prog_put L (oo_owner data) (oo_offset data) t)"

definition index_delete :: "'t lmdb \<Rightarrow> pubkey \<Rightarrow> 't \<Rightarrow> db_error + nat option \<times> 't" where
  "index_delete L key t =
     res_bind (lm_acc_get L t key) (\<lambda>entry.
     case entry of
       None \<Rightarrow> Inr (None, t)
     | Some e \<Rightarrow>
         res_bind (lm_acc_delete L key t) (\<lambda>t.
         res_bind (lm_prog_delete_one L (oo_owner e) (oo_offset e) t) (\<lambda>t.
         Inr (Some (oo_offset e), t))))"

definition index_program :: "'t lmdb \<Rightarrow> pubkey \<Rightarrow> 't \<Rightarrow> db_error + nat list option" where
  "index_program L owner env = res_bind (lm_begin L env) (\<lambda>t. lm_prog_duplicates L t (key_tail owner))"

definition index_accounts :: "'t lmdb \<Rightarrow> 't \<Rightarrow> db_error + (pubkey \<times> owner_and_offset) list" where
  "index_accounts L env = res_bind (lm_begin L env) (\<lambda>t. lm_acc_iter L t)"

definition index_update_owner :: "'t lmdb \<Rightarrow> pubkey \<Rightarrow> key_tail \<Rightarrow> 't \<Rightarrow> db_error + 't" where
  "index_update_owner L acc new t =
     res_bind (lm_acc_get L t acc) (\<lambda>val.
     case val of
       None \<Rightarrow> Inr t
     | Some e \<Rightarrow>
         res_bind (lm_prog_delete_one L (oo_owner e) (oo_offset e) t) (\<lambda>t.
         res_bind (lm_acc_put L acc \<lparr>oo_owner = new, oo_offset = oo_offset e\<rparr> t) (\<lambda>t.
         lm_prog_put L new (oo_offset e) t)))"

definition index_relocate :: "'t lmdb \<Rightarrow> pubkey \<Rightarrow> nat \<Rightarrow> owner_and_offset \<Rightarrow> 't \<Rightarrow> db_error + 't" where
  "index_relocate L key old new t =
     res_bind (lm_acc_put L key new t) (\<lambda>t.
     res_bind (lm_prog_delete_one L (oo_owner new) old t) (\<lambda>t.
     lm_prog_put L (oo_owner new) (oo_offset new) t))"

section \<open>Effect on the tables\<close>

lemma updatesD: "updates f tb g \<Longrightarrow> f t = Inr t' \<Longrightarrow> tb t' = g (tb t)"
  by (auto simp: updates_def)

lemma answersD: "answers f tb g \<Longrightarrow> f t = Inr x \<Longrightarrow> g (tb t) x"
  by (auto simp: answers_def)

lemma lmdb_txn:
  assumes "lmdb_ok L tb"
  shows "lm_begin L t = Inr t' \<Longrightarrow> tb t' = tb t" and "lm_commit L t = Inr t' \<Longrightarrow> tb t' = tb t"
proof -
  from assms have f: "updates (lm_begin L) tb (\<lambda>b. b)" "updates (lm_commit L) tb (\<lambda>b. b)" by (simp_all only: lmdb_ok_def)
  show "lm_begin L t = Inr t' \<Longrightarrow> tb t' = tb t" by (rule updatesD [OF f(1)])
  show "lm_commit L t = Inr t' \<Longrightarrow> tb t' = tb t" by (rule updatesD [OF f(2)])
qed

lemma lmdb_accounts:
  assumes "lmdb_ok L tb"
  shows "lm_acc_get L t k = Inr x \<Longrightarrow> x = tb_accounts (tb t) k"
    and "lm_acc_put L k d t = Inr t' \<Longrightarrow> tb t' = (tb t)\<lparr>tb_accounts := (tb_accounts (tb t))(k \<mapsto> d)\<rparr>"
    and "lm_acc_delete L k t = Inr t' \<Longrightarrow> tb t' = (tb t)\<lparr>tb_accounts := (tb_accounts (tb t))(k := None)\<rparr>"
    and "lm_acc_iter L t = Inr es \<Longrightarrow> map_of es = tb_accounts (tb t) \<and> distinct (map fst es)"
proof -
  from assms have "answers (\<lambda>t. lm_acc_get L t k) tb (\<lambda>b x. x = tb_accounts b k)"
    "updates (lm_acc_put L k d) tb (tb_accounts_update (\<lambda>f. f(k \<mapsto> d)))"
    "updates (lm_acc_delete L k) tb (tb_accounts_update (\<lambda>f. f(k := None)))"
    "answers (lm_acc_iter L) tb (\<lambda>b es. map_of es = tb_accounts b \<and> distinct (map fst es))"
    by (simp_all only: lmdb_ok_def)
  note f = answersD [OF this(1)] updatesD [OF this(2)] updatesD [OF this(3)] answersD [OF this(4)]
  show "lm_acc_get L t k = Inr x \<Longrightarrow> x = tb_accounts (tb t) k" by (rule f(1))
  show "lm_acc_put L k d t = Inr t' \<Longrightarrow> tb t' = (tb t)\<lparr>tb_accounts := (tb_accounts (tb t))(k \<mapsto> d)\<rparr>" by (drule f(2)) simp
  show "lm_acc_delete L k t = Inr t' \<Longrightarrow> tb t' = (tb t)\<lparr>tb_accounts := (tb_accounts (tb t))(k := None)\<rparr>" by (drule f(3)) simp
  show "lm_acc_iter L t = Inr es \<Longrightarrow> map_of es = tb_accounts (tb t) \<and> distinct (map fst es)" by (rule f(4))
qed

lemma lmdb_programs:
  assumes "lmdb_ok L tb"
  shows "lm_prog_put L kt off t = Inr t' \<Longrightarrow> tb t' = (tb t)\<lparr>tb_programs := insert (kt, off) (tb_programs (tb t))\<rparr>"
    and "lm_prog_delete_one L kt off t = Inr t' \<Longrightarrow> tb t' = (tb t)\<lparr>tb_programs := tb_programs (tb t) - {(kt, off)}\<rparr>"
    and "lm_prog_duplicates L t kt = Inr x \<Longrightarrow>
      (case x of None \<Rightarrow> {d. (kt, d) \<in> tb_programs (tb t)} = {}
       | Some ds \<Rightarrow> ds \<noteq> [] \<and> distinct ds \<and> set ds = {d. (kt, d) \<in> tb_programs (tb t)})"
proof -
  from assms have "updates (lm_prog_put L kt off) tb (tb_programs_update (insert (kt, off)))"
    "updates (lm_prog_delete_one L kt off) tb (tb_programs_update (\<lambda>p. p - {(kt, off)}))"
    "answers (\<lambda>t. lm_prog_duplicates L t kt) tb (\<lambda>b x.
        case x of None \<Rightarrow> {d. (kt, d) \<in> tb_programs b} = {}
        | Some ds \<Rightarrow> ds \<noteq> [] \<and> distinct ds \<and> set ds = {d. (kt, d) \<in> tb_programs b})"
    by (simp_all only: lmdb_ok_def)
  note f = updatesD [OF this(1)] updatesD [OF this(2)] answersD [OF this(3)]
  show "lm_prog_put L kt off t = Inr t' \<Longrightarrow> tb t' = (tb t)\<lparr>tb_programs := insert (kt, off) (tb_programs (tb t))\<rparr>" by (drule f(1)) simp
  show "lm_prog_delete_one L kt off t = Inr t' \<Longrightarrow> tb t' = (tb t)\<lparr>tb_programs := tb_programs (tb t) - {(kt, off)}\<rparr>"
    by (drule f(2)) simp
  show "lm_prog_duplicates L t kt = Inr x \<Longrightarrow>
      (case x of None \<Rightarrow> {d. (kt, d) \<in> tb_programs (tb t)} = {}
       | Some ds \<Rightarrow> ds \<noteq> [] \<and> distinct ds \<and> set ds = {d. (kt, d) \<in> tb_programs (tb t)})" by (rule f(3))
qed

lemma lmdb_freelist:
  assumes "lmdb_ok L tb"
  shows "lm_free_put L u off t = Inr t' \<Longrightarrow> tb t' = (tb t)\<lparr>tb_freelist := insert (u, off) (tb_freelist (tb t))\<rparr>"
    and "lm_free_delete_one L u off t = Inr t' \<Longrightarrow> tb t' = (tb t)\<lparr>tb_freelist := tb_freelist (tb t) - {(u, off)}\<rparr>"
    and "lm_free_iter L t = Inr fs \<Longrightarrow> distinct fs \<and> set fs = tb_freelist (tb t)"
    and "lm_free_get L t u = Inr (Some off) \<Longrightarrow> (u, off) \<in> tb_freelist (tb t)"
    and "lm_free_get L t u = Inr None \<Longrightarrow> (u, off) \<notin> tb_freelist (tb t)"
proof -
  from assms have "updates (lm_free_put L u off) tb (tb_freelist_update (insert (u, off)))"
    "updates (lm_free_delete_one L u off) tb (tb_freelist_update (\<lambda>p. p - {(u, off)}))"
    "answers (lm_free_iter L) tb (\<lambda>b es. distinct es \<and> set es = tb_freelist b)"
    "answers (\<lambda>t. lm_free_get L t u) tb (\<lambda>b x.
        case x of None \<Rightarrow> \<forall>d. (u, d) \<notin> tb_freelist b | Some d \<Rightarrow> (u, d) \<in> tb_freelist b)"
    by (simp_all only: lmdb_ok_def)
  note f = updatesD [OF this(1)] updatesD [OF this(2)] answersD [OF this(3)] answersD [OF this(4)]
  show "lm_free_put L u off t = Inr t' \<Longrightarrow> tb t' = (tb t)\<lparr>tb_freelist := insert (u, off) (tb_freelist (tb t))\<rparr>" by (drule f(1)) simp
  show "lm_free_delete_one L u off t = Inr t' \<Longrightarrow> tb t' = (tb t)\<lparr>tb_freelist := tb_freelist (tb t) - {(u, off)}\<rparr>"
    by (drule f(2)) simp
  show "lm_free_iter L t = Inr fs \<Longrightarrow> distinct fs \<and> set fs = tb_freelist (tb t)" by (rule f(3))
  show "lm_free_get L t u = Inr (Some off) \<Longrightarrow> (u, off) \<in> tb_freelist (tb t)" by (drule f(4)) simp
  show "lm_free_get L t u = Inr None \<Longrightarrow> (u, off) \<notin> tb_freelist (tb t)" by (drule f(4)) simp
qed

lemmas lmdb_updates = lmdb_txn lmdb_accounts(2,3) lmdb_programs(1,2) lmdb_freelist(1,2)

lemma index_offset_ok: "lmdb_ok L tb \<Longrightarrow> index_offset L k t = Inr x \<Longrightarrow> x = map_option oo_offset (tb_accounts (tb t) k)"
  by (auto simp: index_offset_def unfold_ok dest: lmdb_accounts(1))

lemma index_allocate_ok:
  assumes L: "lmdb_ok L tb" and a: "index_allocate L u t = Inr (x, t')"
  shows "case x of Some off \<Rightarrow> (u, off) \<in> tb_freelist (tb t) \<and> tb t' = (tb t)\<lparr>tb_freelist := tb_freelist (tb t) - {(u, off)}\<rparr>
    | None \<Rightarrow> t' = t \<and> (\<forall>off. (u, off) \<notin> tb_freelist (tb t))"
  using a by (auto simp: index_allocate_def unfold_ok split: option.splits dest: lmdb_freelist [OF L])

lemma index_insert_ok:
  assumes L: "lmdb_ok L tb" and a: "index_insert L k d t = Inr t'"
  shows "tb t' = (tb t)\<lparr>tb_accounts := (tb_accounts (tb t))(k \<mapsto> d), tb_programs := insert (oo_owner d, oo_offset d) (tb_programs (tb t))\<rparr>"
  using a by (auto simp: index_insert_def unfold_ok dest!: lmdb_updates [OF L])

lemma index_delete_ok:
  assumes L: "lmdb_ok L tb" and a: "index_delete L k t = Inr (x, t')"
  shows "case tb_accounts (tb t) k of
     None \<Rightarrow> x = None \<and> t' = t
   | Some e \<Rightarrow> x = Some (oo_offset e) \<and>
       tb t' = (tb t)\<lparr>tb_accounts := (tb_accounts (tb t))(k := None), tb_programs := tb_programs (tb t) - {(oo_owner e, oo_offset e)}\<rparr>"
proof -
  obtain entry where e: "lm_acc_get L t k = Inr entry" using a by (auto simp: index_delete_def unfold_ok)
  then have "entry = tb_accounts (tb t) k" using lmdb_accounts(1) [OF L] by blast
  then show ?thesis using a e by (auto simp: index_delete_def unfold_ok split: option.splits dest!: lmdb_updates [OF L])
qed

lemma index_update_owner_ok:
  assumes L: "lmdb_ok L tb" and a: "index_update_owner L k new t = Inr t'"
  shows "case tb_accounts (tb t) k of
     None \<Rightarrow> t' = t
   | Some e \<Rightarrow> tb t' = (tb t)\<lparr>tb_accounts := (tb_accounts (tb t))(k \<mapsto> \<lparr>oo_owner = new, oo_offset = oo_offset e\<rparr>),
       tb_programs := insert (new, oo_offset e) (tb_programs (tb t) - {(oo_owner e, oo_offset e)})\<rparr>"
proof -
  obtain entry where e: "lm_acc_get L t k = Inr entry" using a by (auto simp: index_update_owner_def unfold_ok)
  then have "entry = tb_accounts (tb t) k" using lmdb_accounts(1) [OF L] by blast
  then show ?thesis using a e by (auto simp: index_update_owner_def unfold_ok split: option.splits dest!: lmdb_updates [OF L])
qed

lemma index_relocate_ok:
  assumes L: "lmdb_ok L tb" and a: "index_relocate L k old d t = Inr t'"
  shows "tb t' = (tb t)\<lparr>tb_accounts := (tb_accounts (tb t))(k \<mapsto> d),
    tb_programs := insert (oo_owner d, oo_offset d) (tb_programs (tb t) - {(oo_owner d, old)})\<rparr>"
  using a by (auto simp: index_relocate_def unfold_ok dest!: lmdb_updates [OF L])

end
