(* ===== verification/Db_Storage.thy ===== *)
theory Db_Storage
  imports Db_Index
begin

text \<open>
  The mapped account file: \<^verbatim>\<open>accountsdb/src/store/mmap.rs\<close>. The memory of a storage is the part of
  the file behind the metadata reservation; the reservation itself is the record \<open>db_meta\<close>.
  Resizing the file and flushing pages are system calls and therefore parameters, which may fail.
  Allocation runs inside the single LMDB write transaction, so its compare-and-swap never retries.
\<close>

section \<open>Stateful fallible computations\<close>

text \<open>
  A step returns the new state, also on error, since effects on the mapped file survive an error;
  \<open>None\<close> is a panic or an access outside the file.
\<close>

type_synonym ('s, 'a) st = "'s \<Rightarrow> ('s \<times> (db_error + 'a)) option"

definition st_return :: "'a \<Rightarrow> ('s, 'a) st" where
  "st_return x s = Some (s, Inr x)"

definition st_fail :: "db_error \<Rightarrow> ('s, 'a) st" where
  "st_fail e s = Some (s, Inl e)"

definition st_bind :: "('s, 'a) st \<Rightarrow> ('a \<Rightarrow> ('s, 'b) st) \<Rightarrow> ('s, 'b) st" where
  "st_bind f g s = (case f s of None \<Rightarrow> None | Some (s', Inl e) \<Rightarrow> Some (s', Inl e) | Some (s', Inr x) \<Rightarrow> g x s')"

definition st_result :: "db_error + 'a \<Rightarrow> ('s, 'a) st" where
  "st_result r s = Some (s, r)"

definition st_state :: "('s \<Rightarrow> ('s, 'a) st) \<Rightarrow> ('s, 'a) st" where
  "st_state f s = f s s"

definition st_modify :: "('s \<Rightarrow> 's) \<Rightarrow> ('s, unit) st" where
  "st_modify f s = Some (f s, Inr ())"

definition st_memory :: "('s \<Rightarrow> 's option) \<Rightarrow> ('s, unit) st" where
  "st_memory f s = map_option (\<lambda>s. (s, Inr ())) (f s)"

definition st_read :: "('s \<Rightarrow> 'a option) \<Rightarrow> ('s, 'a) st" where
  "st_read f s = map_option (\<lambda>x. (s, Inr x)) (f s)"

lemmas st_defs = st_read_def st_return_def st_fail_def st_result_def st_state_def st_modify_def st_memory_def

lemma st_bind_Inr [unfold_ok]:
  "st_bind f g s = Some (s', Inr y) \<longleftrightarrow> (\<exists>s1 x. f s = Some (s1, Inr x) \<and> g x s1 = Some (s', Inr y))"
  by (auto simp: st_bind_def split: option.splits sum.splits)

lemma st_bind_Inl:
  "st_bind f g s = Some (s', Inl e) \<longleftrightarrow>
     f s = Some (s', Inl e) \<or> (\<exists>s1 x. f s = Some (s1, Inr x) \<and> g x s1 = Some (s', Inl e))"
  by (auto simp: st_bind_def split: option.splits sum.splits)

section \<open>Metadata\<close>

record db_stats =
  st_reads :: u64
  st_commits :: u64
  st_allocs :: u64
  st_reallocs :: u64
  st_compactions :: u64
  st_removals :: u64
  st_resizes :: u64

definition stats_read :: "db_stats \<Rightarrow> db_stats" where "stats_read c = c\<lparr>st_reads := st_reads c + 1\<rparr>"
definition stats_commit :: "db_stats \<Rightarrow> db_stats" where "stats_commit c = c\<lparr>st_commits := st_commits c + 1\<rparr>"
definition stats_alloc :: "db_stats \<Rightarrow> db_stats" where "stats_alloc c = c\<lparr>st_allocs := st_allocs c + 1\<rparr>"
definition stats_realloc :: "db_stats \<Rightarrow> db_stats" where "stats_realloc c = c\<lparr>st_reallocs := st_reallocs c + 1\<rparr>"
definition stats_compact :: "nat \<Rightarrow> db_stats \<Rightarrow> db_stats" where
  "stats_compact n c = c\<lparr>st_compactions := st_compactions c + of_nat n\<rparr>"
definition stats_remove :: "db_stats \<Rightarrow> db_stats" where "stats_remove c = c\<lparr>st_removals := st_removals c + 1\<rparr>"
definition stats_resize :: "db_stats \<Rightarrow> db_stats" where "stats_resize c = c\<lparr>st_resizes := st_resizes c + 1\<rparr>"

record db_meta =
  dm_version :: u64
  dm_checksum :: u64
  dm_slot :: u64
  dm_superblock :: u64
  dm_transactions :: u64
  dm_len :: nat
  dm_stats :: db_stats
  dm_cursor :: nat
  dm_chain_slot :: u64

definition VERSION :: u64 where "VERSION = 1"
definition DATABASE_META_RESERVATION :: nat where "DATABASE_META_RESERVATION = 256"
definition STORAGE_BLOCK :: nat where "STORAGE_BLOCK = 256 * (1024 * 1024)"
definition INIT_STORAGE_SIZE :: nat where "INIT_STORAGE_SIZE = STORAGE_BLOCK + DATABASE_META_RESERVATION"
definition MMAP_SIZE :: nat where "MMAP_SIZE = 1024 * (1024 * 1024 * 1024)"
definition STORAGE_CAPACITY :: nat where "STORAGE_CAPACITY = (MMAP_SIZE - DATABASE_META_RESERVATION) div STORAGE_UNIT"

section \<open>The mapped file\<close>

record mapped_storage =
  ms_meta :: db_meta
  ms_mem :: memory

text \<open>The system calls on the file: changing its length, and flushing a prefix of the mapping.\<close>

record os =
  os_set_len :: "nat \<Rightarrow> db_error + unit"
  os_flush :: "nat \<Rightarrow> bool \<Rightarrow> db_error + unit"

definition file_len :: "mapped_storage \<Rightarrow> nat" where
  "file_len s = length (ms_mem s) + DATABASE_META_RESERVATION"

definition ms_count :: "(db_stats \<Rightarrow> db_stats) \<Rightarrow> mapped_storage \<Rightarrow> mapped_storage" where
  "ms_count f s = s\<lparr>ms_meta := (ms_meta s)\<lparr>dm_stats := f (dm_stats (ms_meta s))\<rparr>\<rparr>"

definition storage_cursor :: "mapped_storage \<Rightarrow> nat" where
  "storage_cursor s = dm_cursor (ms_meta s)"

definition storage_at :: "nat \<Rightarrow> nat" where
  "storage_at offset = offset * STORAGE_UNIT"

definition storage_bytes :: "nat \<Rightarrow> nat" where
  "storage_bytes units = units * STORAGE_UNIT + DATABASE_META_RESERVATION"

text \<open>\<open>set_len\<close> truncates or extends the file with zero bytes.\<close>

definition set_file_len :: "nat \<Rightarrow> mapped_storage \<Rightarrow> mapped_storage" where
  "set_file_len len s =
     (let n = len - DATABASE_META_RESERVATION in
      s\<lparr>ms_mem := take n (ms_mem s) @ replicate (n - length (ms_mem s)) 0\<rparr>)"

definition default_stats :: db_stats where
  "default_stats = \<lparr>st_reads = 0, st_commits = 0, st_allocs = 0, st_reallocs = 0, st_compactions = 0, st_removals = 0, st_resizes = 0\<rparr>"

definition fresh_meta :: db_meta where
  "fresh_meta = \<lparr>dm_version = VERSION, dm_checksum = 0, dm_slot = 1, dm_superblock = 0, dm_transactions = 0,
     dm_len = INIT_STORAGE_SIZE, dm_stats = default_stats, dm_cursor = 0, dm_chain_slot = 0\<rparr>"

definition publish_len :: "mapped_storage \<Rightarrow> mapped_storage" where
  "publish_len s = s\<lparr>ms_meta := (ms_meta s)\<lparr>dm_len := file_len s\<rparr>\<rparr>"

definition storage_new :: "os \<Rightarrow> mapped_storage option \<Rightarrow> db_error + mapped_storage" where
  "storage_new os file =
     (case file of
        Some s \<Rightarrow> Inr (publish_len s)
      | None \<Rightarrow>
          res_bind (os_set_len os INIT_STORAGE_SIZE) (\<lambda>_.
          res_bind (os_flush os INIT_STORAGE_SIZE True) (\<lambda>_.
          Inr (publish_len (set_file_len INIT_STORAGE_SIZE \<lparr>ms_meta = fresh_meta, ms_mem = []\<rparr>)))))"

definition storage_flush :: "os \<Rightarrow> bool \<Rightarrow> (mapped_storage, unit) st" where
  "storage_flush os sync = st_state (\<lambda>s. st_result (os_flush os (storage_bytes (storage_cursor s)) sync))"

definition storage_validate :: "mapped_storage \<Rightarrow> db_error + unit" where
  "storage_validate s =
     (let meta = ms_meta s in
      if dm_version meta \<noteq> VERSION then Inl (UnsupportedVersion (dm_version meta))
      else if dm_cursor meta \<le> STORAGE_CAPACITY \<and> storage_bytes (dm_cursor meta) \<le> dm_len meta then Inr ()
      else Inl Corruption)"

definition storage_resize :: "os \<Rightarrow> nat \<Rightarrow> (nat \<Rightarrow> nat \<Rightarrow> bool) \<Rightarrow> (mapped_storage, unit) st" where
  "storage_resize os len cmp = st_state (\<lambda>s.
     if cmp (file_len s) len then st_return ()
     else st_bind (st_result (os_set_len os len)) (\<lambda>_.
          st_bind (st_modify (\<lambda>s. ms_count stats_resize (publish_len (set_file_len len s)))) (\<lambda>_.
          st_result (os_flush os len True))))"

definition div_ceil :: "nat \<Rightarrow> nat \<Rightarrow> nat" where
  "div_ceil a b = (a + (b - 1)) div b"

definition storage_grow :: "os \<Rightarrow> nat \<Rightarrow> (mapped_storage, unit) st" where
  "storage_grow os len =
     (let len = div_ceil len STORAGE_BLOCK * STORAGE_BLOCK in
      if len > MMAP_SIZE then st_fail Allocation else storage_resize os len (\<ge>))"

definition storage_allocate :: "os \<Rightarrow> nat \<Rightarrow> (mapped_storage, nat) st" where
  "storage_allocate os units = st_state (\<lambda>s.
     let offset = storage_cursor s in
     case checked_add offset units of
       None \<Rightarrow> st_fail Allocation
     | Some endp \<Rightarrow>
         if endp > STORAGE_CAPACITY then st_fail Allocation
         else st_bind (if storage_bytes endp > dm_len (ms_meta s) then storage_grow os (storage_bytes endp) else st_return ()) (\<lambda>_.
              st_bind (st_modify (\<lambda>s. ms_count stats_alloc (s\<lparr>ms_meta := (ms_meta s)\<lparr>dm_cursor := endp\<rparr>\<rparr>))) (\<lambda>_.
              st_return offset)))"

definition storage_shrink :: "os \<Rightarrow> nat \<Rightarrow> (mapped_storage, unit) st" where
  "storage_shrink os units =
     st_bind (storage_resize os (storage_bytes units) (\<le>)) (\<lambda>_.
     st_modify (\<lambda>s. s\<lparr>ms_meta := (ms_meta s)\<lparr>dm_cursor := units\<rparr>\<rparr>))"

section \<open>Allocation\<close>

definition storage_ok :: "mapped_storage \<Rightarrow> bool" where
  "storage_ok s \<longleftrightarrow> dm_len (ms_meta s) = file_len s \<and> storage_bytes (storage_cursor s) \<le> file_len s \<and>
     storage_cursor s \<le> STORAGE_CAPACITY"

lemmas storage_consts = DATABASE_META_RESERVATION_def STORAGE_UNIT_def STORAGE_BLOCK_def MMAP_SIZE_def STORAGE_CAPACITY_def

lemma storage_ok_mem: "storage_ok s \<longleftrightarrow> dm_len (ms_meta s) = length (ms_mem s) + 256 \<and> 8 * storage_cursor s \<le> length (ms_mem s) \<and>
    storage_cursor s \<le> STORAGE_CAPACITY"
  by (auto simp: storage_ok_def file_len_def storage_bytes_def DATABASE_META_RESERVATION_def STORAGE_UNIT_def)

lemma div_ceil_bounds:
  assumes "0 < b"
  shows "a \<le> div_ceil a b * b" "k * b \<ge> a \<Longrightarrow> div_ceil a b * b \<le> k * b"
proof -
  have "a + (b - 1) - (a + (b - 1)) mod b = div_ceil a b * b" by (simp add: div_ceil_def minus_mod_eq_div_mult)
  moreover have "(a + (b - 1)) mod b < b" using assms by simp
  ultimately show "a \<le> div_ceil a b * b" by linarith
  assume k: "k * b \<ge> a"
  have "a + (b - 1) < (k + 1) * b" using k assms by simp
  then have "div_ceil a b < k + 1" unfolding div_ceil_def by (rule less_mult_imp_div_less)
  then show "div_ceil a b * b \<le> k * b" by simp
qed

text \<open>Rounding the needed length up to a block stays within the mapping when the span does.\<close>

lemma grow_length:
  assumes "endp \<le> STORAGE_CAPACITY"
  defines "len \<equiv> div_ceil (storage_bytes endp) STORAGE_BLOCK * STORAGE_BLOCK"
  shows "storage_bytes endp \<le> len" "len \<le> MMAP_SIZE"
proof -
  have b: "0 < STORAGE_BLOCK" by (simp add: STORAGE_BLOCK_def)
  show "storage_bytes endp \<le> len" unfolding len_def by (rule div_ceil_bounds(1) [OF b])
  have "storage_bytes endp \<le> 4096 * STORAGE_BLOCK" using assms(1) by (simp add: storage_bytes_def storage_consts)
  then have "len \<le> 4096 * STORAGE_BLOCK" unfolding len_def by (rule div_ceil_bounds(2) [OF b])
  then show "len \<le> MMAP_SIZE" by (simp add: storage_consts)
qed

definition extended :: "mapped_storage \<Rightarrow> mapped_storage \<Rightarrow> bool" where
  "extended s s' \<longleftrightarrow> (\<exists>zs. ms_mem s' = ms_mem s @ zs)"

lemma set_file_len_extends:
  assumes "file_len s \<le> len"
  shows "extended s (set_file_len len s)" "file_len (set_file_len len s) = len"
  using assms by (auto simp: extended_def set_file_len_def file_len_def Let_def)

lemma grow_ok:
  assumes s: "storage_ok s" and e: "endp \<le> STORAGE_CAPACITY" "dm_len (ms_meta s) < storage_bytes endp"
  shows "\<exists>s' r. storage_grow os (storage_bytes endp) s = Some (s', r) \<and> extended s s' \<and> dm_len (ms_meta s') = file_len s' \<and>
    storage_cursor s' = storage_cursor s \<and> (r = Inr () \<longrightarrow> storage_bytes endp \<le> file_len s') \<and>
    ((\<forall>n. os_set_len os n = Inr ()) \<and> (\<forall>n sync. os_flush os n sync = Inr ()) \<longrightarrow> r = Inr ())"
proof -
  define len where "len = div_ceil (storage_bytes endp) STORAGE_BLOCK * STORAGE_BLOCK"
  note g = grow_length [OF e(1), folded len_def]
  have fl: "file_len s < len" "dm_len (ms_meta s) = file_len s" using g(1) e(2) s by (auto simp: storage_ok_def)
  let ?s = "ms_count stats_resize (publish_len (set_file_len len s))"
  have x: "extended s ?s" "file_len ?s = len" "dm_len (ms_meta ?s) = file_len ?s" "storage_cursor ?s = storage_cursor s"
    using set_file_len_extends [of s len] fl(1)
    by (auto simp: extended_def ms_count_def publish_len_def file_len_def set_file_len_def storage_cursor_def Let_def)
  have gr: "storage_grow os (storage_bytes endp) s =
      (case os_set_len os len of Inl e \<Rightarrow> Some (s, Inl e) | Inr _ \<Rightarrow> Some (?s, os_flush os len True))"
    using g(2) fl(1) by (simp add: storage_grow_def len_def [symmetric] storage_resize_def st_defs st_bind_def Let_def split: sum.split)
  show ?thesis
  proof (cases "os_set_len os len")
    case (Inl err)
    then show ?thesis using gr fl(2) by (auto simp: extended_def)
  next
    case (Inr y)
    then show ?thesis using gr x g(1) by auto
  qed
qed

lemma allocate_ok:
  assumes s: "storage_ok s"
  shows "\<exists>s' r. storage_allocate os u s = Some (s', r) \<and> storage_ok s' \<and> extended s s' \<and>
    (case r of Inl e \<Rightarrow> storage_cursor s' = storage_cursor s
     | Inr off \<Rightarrow> off = storage_cursor s \<and> storage_cursor s' = storage_cursor s + u) \<and>
    ((\<forall>n. os_set_len os n = Inr ()) \<and> (\<forall>n sync. os_flush os n sync = Inr ()) \<longrightarrow>
      r = (if storage_cursor s + u \<le> STORAGE_CAPACITY then Inr (storage_cursor s) else Inl Allocation))"
proof (cases "storage_cursor s + u \<le> STORAGE_CAPACITY")
  case False
  then have "storage_allocate os u s = Some (s, Inl Allocation)"
    by (auto simp: storage_allocate_def st_defs Let_def split: option.splits)
  then show ?thesis using s False by (auto simp: extended_def)
next
  case True
  let ?e = "storage_cursor s + u"
  define f where "f = ms_count stats_alloc \<circ> (\<lambda>s. s\<lparr>ms_meta := (ms_meta s)\<lparr>dm_cursor := ?e\<rparr>\<rparr>)"
  have f: "ms_mem (f t) = ms_mem t" "dm_len (ms_meta (f t)) = dm_len (ms_meta t)" "storage_cursor (f t) = ?e" "file_len (f t) = file_len t" for t
    by (simp_all add: f_def ms_count_def storage_cursor_def file_len_def)
  have ca: "?e < usize_bound" using True by (simp add: usize_bound_def storage_consts)
  show ?thesis
  proof (cases "dm_len (ms_meta s) < storage_bytes ?e")
    case False
    then have "storage_allocate os u s = Some (f s, Inr (storage_cursor s))"
      using True ca False by (simp add: storage_allocate_def checked_add_def st_defs st_bind_def Let_def f_def)
    then show ?thesis using s True False f by (auto simp: storage_ok_def extended_def)
  next
    case grow: True
    obtain s1 r where g: "storage_grow os (storage_bytes ?e) s = Some (s1, r)" "extended s s1" "dm_len (ms_meta s1) = file_len s1"
      "storage_cursor s1 = storage_cursor s" "r = Inr () \<longrightarrow> storage_bytes ?e \<le> file_len s1"
      "(\<forall>n. os_set_len os n = Inr ()) \<and> (\<forall>n sync. os_flush os n sync = Inr ()) \<longrightarrow> r = Inr ()"
      using grow_ok [OF s True grow, of os] by blast
    have al: "storage_allocate os u s = Some (case r of Inl e \<Rightarrow> (s1, Inl e) | Inr _ \<Rightarrow> (f s1, Inr (storage_cursor s)))"
      using True ca grow g(1) by (simp add: storage_allocate_def checked_add_def st_defs st_bind_def Let_def f_def split: sum.split)
    have "file_len s \<le> file_len s1" using g(2) by (auto simp: extended_def file_len_def)
    then have ok1: "storage_ok s1" using s g(3,4) by (auto simp: storage_ok_def)
    show ?thesis
    proof (cases r)
      case (Inl err)
      then show ?thesis using al ok1 g by auto
    next
      case (Inr y)
      then show ?thesis using al g f True by (auto simp: storage_ok_def extended_def)
    qed
  qed
qed

section \<open>Properties\<close>

text \<open>
  C24: allocation hands out fresh space within the file. On a well-formed storage, allocating
  never fails with a panic, keeps all bytes of existing images and keeps the storage well formed;
  a successful allocation is the span right behind the old cursor and lies inside the file, and an error moves no
  cursor. When the system calls succeed, the request is refused exactly when it does not fit the mapping.
\<close>

theorem storage_allocate_exact:
  assumes "storage_ok s" "\<forall>n. os_set_len os n = Inr ()" "\<forall>n sync. os_flush os n sync = Inr ()"
  shows "\<exists>s' r. storage_allocate os u s = Some (s', r) \<and> storage_ok s' \<and> extended s s' \<and>
    r = (if storage_cursor s + u \<le> STORAGE_CAPACITY then Inr (storage_cursor s) else Inl Allocation) \<and>
    storage_cursor s' = (if r = Inl Allocation then storage_cursor s else storage_cursor s + u) \<and>
    storage_bytes (storage_cursor s') \<le> file_len s'"
proof -
  obtain s' r where r: "storage_allocate os u s = Some (s', r)" "storage_ok s'" "extended s s'"
    "case r of Inl e \<Rightarrow> storage_cursor s' = storage_cursor s
     | Inr off \<Rightarrow> off = storage_cursor s \<and> storage_cursor s' = storage_cursor s + u"
    "r = (if storage_cursor s + u \<le> STORAGE_CAPACITY then Inr (storage_cursor s) else Inl Allocation)"
    using allocate_ok [OF assms(1), of os u] assms(2,3) by blast
  moreover have "storage_bytes (storage_cursor s') \<le> file_len s'" using r(2) by (simp add: storage_ok_def)
  ultimately show ?thesis by (cases "storage_cursor s + u \<le> STORAGE_CAPACITY") auto
qed

theorem storage_allocate_exact_witness:
  "\<exists>s' s''. storage_allocate \<lparr>os_set_len = \<lambda>_. Inr (), os_flush = \<lambda>_ _. Inr ()\<rparr> 21 \<lparr>ms_meta = fresh_meta\<lparr>dm_len := 256\<rparr>, ms_mem = []\<rparr>
     = Some (s', Inr 0) \<and> storage_cursor s' = 21 \<and>
   storage_allocate \<lparr>os_set_len = \<lambda>_. Inr (), os_flush = \<lambda>_ _. Inr ()\<rparr> (2 ^ 40) \<lparr>ms_meta = fresh_meta\<lparr>dm_len := 256\<rparr>, ms_mem = []\<rparr>
     = Some (s'', Inl Allocation)"
proof -
  let ?s = "\<lparr>ms_meta = fresh_meta\<lparr>dm_len := 256\<rparr>, ms_mem = []\<rparr>"
  have "storage_ok ?s" by (simp add: storage_ok_mem storage_cursor_def fresh_meta_def)
  from storage_allocate_exact [OF this, of "\<lparr>os_set_len = \<lambda>_. Inr (), os_flush = \<lambda>_ _. Inr ()\<rparr>" 21]
    storage_allocate_exact [OF this, of "\<lparr>os_set_len = \<lambda>_. Inr (), os_flush = \<lambda>_ _. Inr ()\<rparr>" "2 ^ 40"]
  show ?thesis by (auto simp: storage_cursor_def fresh_meta_def storage_consts)
qed

end
