(* ===== verification/Db_Store.thy ===== *)
theory Db_Store
  imports Db_Storage
begin

text \<open>
  The persisted account store: \<^verbatim>\<open>accountsdb/src/store/mod.rs\<close>. It combines the mapped file, the index
  and the borrowed account layout. A batch opens one write transaction on demand and commits it
  at the end; account images are written to the mapped file on the way.
\<close>

section \<open>State and transactions\<close>

record 't pstore =
  ps_storage :: mapped_storage
  ps_env :: 't
  ps_txn :: "'t option"

abbreviation ps_mem :: "'t pstore \<Rightarrow> memory" where
  "ps_mem s \<equiv> ms_mem (ps_storage s)"

definition set_mem :: "memory \<Rightarrow> 't pstore \<Rightarrow> 't pstore" where
  "set_mem m s = s\<lparr>ps_storage := (ps_storage s)\<lparr>ms_mem := m\<rparr>\<rparr>"

definition ps_count :: "(db_stats \<Rightarrow> db_stats) \<Rightarrow> ('t pstore, unit) st" where
  "ps_count f = st_modify (\<lambda>s. s\<lparr>ps_storage := ms_count f (ps_storage s)\<rparr>)"

definition ps_write :: "(memory \<Rightarrow> memory option) \<Rightarrow> ('t pstore, unit) st" where
  "ps_write f = st_memory (\<lambda>s. map_option (\<lambda>m. set_mem m s) (f (ps_mem s)))"

definition on_storage :: "(mapped_storage, 'a) st \<Rightarrow> ('t pstore, 'a) st" where
  "on_storage f s = map_option (\<lambda>(x, r). (s\<lparr>ps_storage := x\<rparr>, r)) (f (ps_storage s))"

definition write_txn :: "'t lmdb \<Rightarrow> ('t pstore, unit) st" where
  "write_txn L = st_state (\<lambda>s.
     case ps_txn s of
       Some t \<Rightarrow> st_return ()
     | None \<Rightarrow> st_bind (st_result (lm_begin L (ps_env s))) (\<lambda>t. st_modify (\<lambda>s. s\<lparr>ps_txn := Some t\<rparr>)))"

definition read_txn :: "'t lmdb \<Rightarrow> 't option \<Rightarrow> 't pstore \<Rightarrow> db_error + 't" where
  "read_txn L txn s = (case txn of Some t \<Rightarrow> Inr t | None \<Rightarrow> lm_begin L (ps_env s))"

text \<open>An index operation on the open write transaction.\<close>

definition on_txn :: "('t \<Rightarrow> db_error + 'a \<times> 't) \<Rightarrow> ('t pstore, 'a) st" where
  "on_txn f s =
     (case ps_txn s of
        None \<Rightarrow> None
      | Some t \<Rightarrow> Some (case f t of Inl e \<Rightarrow> (s, Inl e) | Inr (x, t) \<Rightarrow> (s\<lparr>ps_txn := Some t\<rparr>, Inr x)))"

definition txn_update :: "('t \<Rightarrow> db_error + 't) \<Rightarrow> ('t pstore, unit) st" where
  "txn_update f = on_txn (\<lambda>t. res_bind (f t) (\<lambda>t. Inr ((), t)))"

section \<open>Reading\<close>

definition persisted_load :: "'t lmdb \<Rightarrow> 't option \<Rightarrow> pubkey \<Rightarrow> ('t pstore, 't \<times> borrowed_account option) st" where
  "persisted_load L txn pubkey = st_state (\<lambda>s.
     st_bind (st_result (read_txn L txn s)) (\<lambda>txn.
     st_bind (st_result (index_offset L pubkey txn)) (\<lambda>offset.
     case offset of
       None \<Rightarrow> st_return (txn, None)
     | Some off \<Rightarrow>
         st_bind (ps_count stats_read) (\<lambda>_.
         st_bind (st_read (\<lambda>s. borrowed_init (ps_mem s) (storage_at off))) (\<lambda>b.
         st_return (txn, Some b))))))"

definition persisted_contains :: "'t lmdb \<Rightarrow> 't option \<Rightarrow> pubkey \<Rightarrow> ('t pstore, 't \<times> bool) st" where
  "persisted_contains L txn pubkey = st_state (\<lambda>s.
     st_bind (st_result (read_txn L txn s)) (\<lambda>txn.
     st_bind (st_result (index_offset L pubkey txn)) (\<lambda>offset. st_return (txn, offset \<noteq> None))))"

definition persisted_program :: "'t lmdb \<Rightarrow> pubkey \<Rightarrow> 't pstore \<Rightarrow> db_error + nat list option" where
  "persisted_program L owner s = index_program L owner (ps_env s)"

text \<open>One element of the program iterator; the key comes from the image prefix.\<close>

definition persisted_program_next :: "nat \<Rightarrow> ('t pstore, pubkey \<times> borrowed_account) st" where
  "persisted_program_next offset =
     st_bind (ps_count stats_read) (\<lambda>_.
     st_bind (st_read (\<lambda>s. borrowed_pubkey (ps_mem s) (storage_at offset))) (\<lambda>pubkey.
     st_bind (st_read (\<lambda>s. borrowed_init (ps_mem s) (storage_at offset))) (\<lambda>account.
     st_return (pubkey, account))))"

section \<open>Writing\<close>

definition persisted_free :: "'t lmdb \<Rightarrow> nat \<Rightarrow> ('t pstore, unit) st" where
  "persisted_free L offset =
     st_bind (st_read (\<lambda>s. borrowed_span (ps_mem s) (storage_at offset))) (\<lambda>space.
     txn_update (lm_free_put L (unat space) offset))"

definition persisted_delete :: "'t lmdb \<Rightarrow> pubkey \<Rightarrow> ('t pstore, unit) st" where
  "persisted_delete L pubkey =
     st_bind (write_txn L) (\<lambda>_.
     st_bind (on_txn (index_delete L pubkey)) (\<lambda>offset.
     case offset of
       None \<Rightarrow> st_return ()
     | Some off \<Rightarrow> st_bind (persisted_free L off) (\<lambda>_. ps_count stats_remove)))"

definition persisted_insert :: "'t lmdb \<Rightarrow> os \<Rightarrow> pubkey \<Rightarrow> owned_account \<Rightarrow> ('t pstore, unit) st" where
  "persisted_insert L os pubkey acc =
     (let units = unat (owned_units acc); owner = key_tail (ac_owner (oa_core acc)) in
      st_bind (write_txn L) (\<lambda>_.
      st_bind (on_txn (index_allocate L units)) (\<lambda>reused.
      st_bind (case reused of
                 Some off \<Rightarrow> st_bind (ps_count stats_realloc) (\<lambda>_. st_return off)
               | None \<Rightarrow> on_storage (storage_allocate os units)) (\<lambda>offset.
      st_bind (on_txn (index_delete L pubkey)) (\<lambda>old.
      st_bind (case old of Some off \<Rightarrow> persisted_free L off | None \<Rightarrow> st_return ()) (\<lambda>_.
      st_bind (txn_update (index_insert L pubkey \<lparr>oo_owner = owner, oo_offset = offset\<rparr>)) (\<lambda>_.
      ps_write (\<lambda>m. owned_serialize m (storage_at offset) acc pubkey))))))))"

definition persisted_update :: "'t lmdb \<Rightarrow> pubkey \<Rightarrow> borrowed_account \<Rightarrow> u8 \<Rightarrow> ('t pstore, unit) st" where
  "persisted_update L pubkey acc markers =
     st_bind (if flags_contain markers DIRTY_OWNER
              then st_bind (write_txn L) (\<lambda>_.
                   st_bind (st_read (\<lambda>s. borrowed_owner (ps_mem s) acc)) (\<lambda>owner.
                   txn_update (index_update_owner L pubkey (key_tail owner))))
              else st_return ()) (\<lambda>_.
     if markers AND DIRTY_ALL = 0 then st_return ()
     else st_bind (ps_write (\<lambda>m. borrowed_commit m acc)) (\<lambda>_. ps_count stats_commit))"

type_synonym account_entry = "pubkey \<times> shared_data"

definition persisted_apply :: "'t lmdb \<Rightarrow> os \<Rightarrow> account_entry \<Rightarrow> ('t pstore, unit) st" where
  "persisted_apply L os e =
     (let (pubkey, account) = e in
      st_bind (st_read (\<lambda>s. do { mode \<leftarrow> shared_mode (ps_mem s) account; requires_persistence mode })) (\<lambda>persistent.
      if \<not> persistent
      then st_bind (persisted_delete L pubkey) (\<lambda>_.
           case sd_cow account of
             Borrowed acc \<Rightarrow> ps_write (\<lambda>m. borrowed_commit m acc)
           | Owned _ \<Rightarrow> st_return ())
      else case sd_cow account of
             Borrowed acc \<Rightarrow> persisted_update L pubkey acc (sd_dirty account)
           | Owned acc \<Rightarrow> persisted_insert L os pubkey acc))"

fun persisted_rollback :: "shared_data list \<Rightarrow> memory \<Rightarrow> memory option" where
  "persisted_rollback [] m = Some m"
| "persisted_rollback (acc # accs) m =
     (if \<not> shared_dirty acc then persisted_rollback accs m
      else case sd_cow acc of
             Owned _ \<Rightarrow> persisted_rollback accs m
           | Borrowed b \<Rightarrow> do { m \<leftarrow> borrowed_rollback m b; persisted_rollback accs m })"

text \<open>The loop of \<open>upsert\<close>: the state, the number of applied entries and the result.\<close>

fun apply_all :: "'t lmdb \<Rightarrow> os \<Rightarrow> account_entry list \<Rightarrow> nat \<Rightarrow> 't pstore \<Rightarrow> ('t pstore \<times> nat \<times> (db_error + unit)) option" where
  "apply_all L os [] applied s = Some (s, applied, Inr ())"
| "apply_all L os (e # es) applied s =
     (case persisted_apply L os e s of
        None \<Rightarrow> None
      | Some (s, Inl err) \<Rightarrow> Some (s, applied, Inl err)
      | Some (s, Inr _) \<Rightarrow> apply_all L os es (applied + 1) s)"

definition finish_txn :: "'t lmdb \<Rightarrow> db_error + unit \<Rightarrow> 't pstore \<Rightarrow> 't pstore \<times> (db_error + unit)" where
  "finish_txn L r s =
     (case (ps_txn s, r) of
        (Some t, Inr _) \<Rightarrow> (case lm_commit L t of Inl e \<Rightarrow> (s, Inl e) | Inr env \<Rightarrow> (s\<lparr>ps_env := env\<rparr>, Inr ()))
      | _ \<Rightarrow> (s, r))"

definition persisted_upsert :: "'t lmdb \<Rightarrow> os \<Rightarrow> account_entry list \<Rightarrow> ('t pstore, unit) st" where
  "persisted_upsert L os es s =
     (case apply_all L os es 0 (s\<lparr>ps_txn := None\<rparr>) of
        None \<Rightarrow> None
      | Some (s, applied, r) \<Rightarrow>
          (case finish_txn L r s of
             (s, Inr _) \<Rightarrow> Some (s\<lparr>ps_txn := None\<rparr>, Inr ())
           | (s, Inl e) \<Rightarrow> do {
               m \<leftarrow> persisted_rollback (map snd (take applied es)) (ps_mem s);
               Some (set_mem m (s\<lparr>ps_txn := None\<rparr>), Inl e)
             }))"

section \<open>Checksum, flush and validation\<close>

fun checksum_accounts :: "memory \<Rightarrow> (pubkey \<times> owner_and_offset) list \<Rightarrow> bytes option" where
  "checksum_accounts m [] = Some []"
| "checksum_accounts m ((pubkey, data) # es) = do {
     account \<leftarrow> borrowed_init m (storage_at (oo_offset data));
     bs \<leftarrow> borrowed_storage m account;
     rest \<leftarrow> checksum_accounts m es;
     Some (pubkey @ bs @ rest)
   }"

text \<open>The hasher consumes the bytes written to it as one stream; the hash function is a parameter.\<close>

definition persisted_checksum :: "(bytes \<Rightarrow> u64) \<Rightarrow> 't lmdb \<Rightarrow> ('t pstore, u64) st" where
  "persisted_checksum hash L = st_state (\<lambda>s.
     st_bind (st_result (index_accounts L (ps_env s))) (\<lambda>es.
     st_bind (st_read (\<lambda>s. checksum_accounts (ps_mem s) es)) (\<lambda>bs.
     st_return (hash (enc_u64 (dm_slot (ms_meta (ps_storage s))) @ enc_u64 (dm_superblock (ms_meta (ps_storage s))) @ bs)))))"

definition on_meta :: "(db_meta \<Rightarrow> db_meta) \<Rightarrow> 't pstore \<Rightarrow> 't pstore" where
  "on_meta f s = s\<lparr>ps_storage := (ps_storage s)\<lparr>ms_meta := f (ms_meta (ps_storage s))\<rparr>\<rparr>"

definition persisted_flush :: "(bytes \<Rightarrow> u64) \<Rightarrow> 't lmdb \<Rightarrow> os \<Rightarrow> bool \<Rightarrow> ('t pstore, unit) st" where
  "persisted_flush hash L os sync =
     st_bind (if sync
              then st_bind (st_state (\<lambda>s. st_result (lm_force_sync L (ps_env s)))) (\<lambda>_.
                   st_bind (persisted_checksum hash L) (\<lambda>checksum.
                   st_modify (on_meta (\<lambda>meta. meta\<lparr>dm_checksum := checksum\<rparr>))))
              else st_return ()) (\<lambda>_.
     on_storage (storage_flush os sync))"

definition persisted_validate :: "(bytes \<Rightarrow> u64) \<Rightarrow> 't lmdb \<Rightarrow> ('t pstore, unit) st" where
  "persisted_validate hash L = st_state (\<lambda>s.
     st_bind (st_result (storage_validate (ps_storage s))) (\<lambda>_.
     if storage_cursor (ps_storage s) = 0 then st_return ()
     else st_bind (persisted_checksum hash L) (\<lambda>actual.
          if dm_checksum (ms_meta (ps_storage s)) \<noteq> actual then st_fail Corruption else st_return ())))"

end
