(* ===== verification/Db_Layout.thy ===== *)
theory Db_Layout
  imports Db_Store
begin

text \<open>
  The layout of the mapped file: every indexed account owns a span of storage units that holds a
  well-formed buffer for it, every freelist entry owns a span, and no two spans overlap. The
  lemmas give the effect of the store's primitive steps on this layout: freeing, reusing and
  extending, serializing a new image, and publishing a borrowed one.
\<close>

section \<open>Buffers as byte regions\<close>

abbreviation buffer_bytes :: "u32 \<Rightarrow> nat" where
  "buffer_bytes space \<equiv> 40 + 16 * unat space"

definition same_region :: "nat \<Rightarrow> nat \<Rightarrow> memory \<Rightarrow> nat \<Rightarrow> memory \<Rightarrow> bool" where
  "same_region n h m h' m' \<longleftrightarrow> (\<exists>bs. mem_read m h n = Some bs \<and> mem_read m' h' n = Some bs)"

lemma same_regionI: "mem_read m h n = Some bs \<Longrightarrow> mem_read m' h' n = Some bs \<Longrightarrow> same_region n h m h' m'"
  by (auto simp: same_region_def)

lemma same_region_refl: "h + n \<le> length m \<Longrightarrow> same_region n h m h m"
  using mem_read_Some [of h n m] by (auto simp: same_region_def)

lemma same_region_trans: "same_region n h m h' m' \<Longrightarrow> same_region n h' m' h'' m'' \<Longrightarrow> same_region n h m h'' m''"
  by (auto simp: same_region_def)

lemma same_region_agree:
  assumes "agree_outside lo hi m m'" "h + n \<le> lo \<or> hi \<le> h" "h + n \<le> length m"
  shows "same_region n h m h m'"
  using agree_outside_read [OF assms(1,2)] mem_read_Some [OF assms(3)] by (auto simp: same_region_def)

lemma same_region_sub:
  assumes "same_region n h m h' m'" "i + k \<le> n"
  shows "mem_read m' (h' + i) k = mem_read m (h + i) k" "h + i + k \<le> length m" "h' + i + k \<le> length m'"
proof -
  obtain bs where bs: "mem_read m h n = Some bs" "mem_read m' h' n = Some bs" using assms(1) by (auto simp: same_region_def)
  show "mem_read m' (h' + i) k = mem_read m (h + i) k" using mem_read_sub [OF bs(1) assms(2)] mem_read_sub [OF bs(2) assms(2)] by simp
  show "h + i + k \<le> length m" "h' + i + k \<le> length m'" using mem_readD(2) [OF bs(1)] mem_readD(2) [OF bs(2)] assms(2) by auto
qed

lemma same_region_image:
  assumes r: "same_region n h m h' m'" and i: "image_ok m (h + p) k" and b: "p + k \<le> n"
  shows "image_ok m' (h' + p) k \<and> image_account m' (h' + p) = image_account m (h + p)"
proof -
  note s = same_region_sub [OF r b]
  obtain img where img: "mem_read m (h + p) k = Some img" using mem_read_Some [OF s(2)] by blast
  then have "mem_read m' (h' + p) k = Some img" using s(1) by simp
  then show ?thesis by (rule image_ok_copy [OF i img _ s(3)])
qed

lemma same_region_load:
  assumes "same_region n h m h' m'" "i + k \<le> n"
  shows "mem_load k dec m' (h' + i) = mem_load k dec m (h + i)"
  using same_region_sub(1) [OF assms] by (simp add: mem_load_def)

lemma image_ptr_shift: "image_ptr h space sequence active = h + image_ptr 0 space sequence active"
  by (simp add: image_ptr_cases)

lemma same_region_buffer:
  assumes r: "same_region n h m h' m'" and b: "buffer_ok m h sequence space" and n: "buffer_bytes space \<le> n"
  shows "buffer_ok m' h' sequence space" "published m' h' = published m h" "borrowed_pubkey m' h' = borrowed_pubkey m h"
proof -
  let ?p = "image_ptr 0 space sequence True"
  have hdr: "hdr_sequence m' h' = Some sequence" "hdr_space m' h' = Some space"
    using same_region_load [OF r, of 0 4 dec_u32] same_region_load [OF r, of 4 4 dec_u32] b n
    by (auto simp: hdr_sequence_def hdr_space_def buffer_ok_def)
  have i: "image_ok m (h + ?p) (8 * unat space)" using b image_ptr_shift [of h] by (simp add: buffer_ok_def)
  have pb: "?p + 8 * unat space \<le> n" using image_ptr_bounds(2) [of 0 space sequence True] n by simp
  note img = same_region_image [OF r i pb]
  have l: "h' + buffer_bytes space \<le> length m'" using same_region_sub(3) [OF r, of 0 "buffer_bytes space"] n by simp
  show bo: "buffer_ok m' h' sequence space" using hdr img l image_ptr_shift [of h'] by (simp add: buffer_ok_def)
  show "published m' h' = published m h" using published_image [OF bo] published_image [OF b] img image_ptr_shift by metis
  show "borrowed_pubkey m' h' = borrowed_pubkey m h"
    using same_region_sub(1) [OF r, of 8 32] n by (simp add: borrowed_pubkey_def STORAGE_UNIT_def KEY_SIZE_def)
qed

lemma same_region_view:
  assumes r: "same_region n (bw_header b) m (bw_header b) m'" and v: "view_ok m b space active" and n: "buffer_bytes space \<le> n"
  shows "view_ok m' b space active" "borrowed_owned m' b = borrowed_owned m b" "load_core m' (bw_core b) = load_core m (bw_core b)"
proof -
  let ?h = "bw_header b" let ?p = "image_ptr 0 space (bw_version b) active"
  have bo: "buffer_ok m ?h (bw_version b) space" and c: "bw_core b = ?h + ?p" and i: "image_ok m (?h + ?p) (8 * unat space)"
    using v image_ptr_shift [of ?h space "bw_version b" active] by (auto simp: view_ok_def)
  have pb: "?p + 8 * unat space \<le> n" using image_ptr_bounds(2) [of 0 space "bw_version b" active] n by simp
  note img = same_region_image [OF r i pb]
  show v': "view_ok m' b space active"
    using same_region_buffer(1) [OF r bo n] v img c by (simp add: view_ok_def)
  show "borrowed_owned m' b = borrowed_owned m b" using view_owned [OF v] view_owned [OF v'] img c by simp
  have "56 \<le> 8 * unat space" using image_mem [OF i] by simp
  then show "load_core m' (bw_core b) = load_core m (bw_core b)" using same_region_load [OF r, of ?p 56 dec_core] c pb by simp
qed

section \<open>Spans\<close>

datatype claim_tag = Live pubkey | Free | Reserved

type_synonym claim = "claim_tag \<times> nat \<times> nat"

definition span_at :: "memory \<Rightarrow> nat \<Rightarrow> nat" where
  "span_at m off = (case borrowed_span m (storage_at off) of None \<Rightarrow> 0 | Some u \<Rightarrow> unat u)"

definition claims :: "memory \<Rightarrow> tables \<Rightarrow> (nat \<times> nat) option \<Rightarrow> claim set" where
  "claims m b res =
     {(Live pk, oo_offset e, span_at m (oo_offset e)) |pk e. tb_accounts b pk = Some e} \<union>
     {(Free, off, u) |off u. (u, off) \<in> tb_freelist b} \<union> {(Reserved, off, u) |off u. res = Some (off, u)}"

definition apart :: "claim \<Rightarrow> claim \<Rightarrow> bool" where
  "apart x y = (case (snd x, snd y) of ((a, n), (b, k)) \<Rightarrow> a + n \<le> b \<or> b + k \<le> a)"

definition all_apart :: "claim set \<Rightarrow> bool" where
  "all_apart C \<longleftrightarrow> (\<forall>x \<in> C. \<forall>y \<in> C. x \<noteq> y \<longrightarrow> apart x y)"

definition entry_ok :: "memory \<Rightarrow> pubkey \<Rightarrow> owner_and_offset \<Rightarrow> bool" where
  "entry_ok m pk e \<longleftrightarrow> (\<exists>sequence space acc.
     buffer_ok m (storage_at (oo_offset e)) sequence space \<and> 5 + 2 * unat space < 2 ^ 32 \<and>
     borrowed_pubkey m (storage_at (oo_offset e)) = Some pk \<and> published m (storage_at (oo_offset e)) = Some acc \<and>
     oo_owner e = key_tail (ac_owner (oa_core acc)))"

definition program_entries :: "tables \<Rightarrow> (key_tail \<times> nat) set" where
  "program_entries b = (\<lambda>e. (oo_owner e, oo_offset e)) ` ran (tb_accounts b)"

definition layout_ok :: "memory \<Rightarrow> nat \<Rightarrow> tables \<Rightarrow> (nat \<times> nat) option \<Rightarrow> bool" where
  "layout_ok m c b res \<longleftrightarrow>
     (\<forall>pk e. tb_accounts b pk = Some e \<longrightarrow> entry_ok m pk e) \<and>
     (\<forall>t off u. (t, off, u) \<in> claims m b res \<longrightarrow> 0 < u \<and> off + u \<le> c) \<and>
     all_apart (claims m b res) \<and> tb_programs b = program_entries b \<and> 8 * c \<le> length m"

text \<open>What readers find under a key.\<close>

definition stored :: "memory \<Rightarrow> tables \<Rightarrow> pubkey \<Rightarrow> owned_account option" where
  "stored m b pk = (case tb_accounts b pk of None \<Rightarrow> None | Some e \<Rightarrow> published m (storage_at (oo_offset e)))"

lemma layout_okD:
  assumes "layout_ok m c b res"
  shows "tb_accounts b pk = Some e \<Longrightarrow> entry_ok m pk e" "(t, off, u) \<in> claims m b res \<Longrightarrow> 0 < u \<and> off + u \<le> c"
    "all_apart (claims m b res)" "tb_programs b = program_entries b" "8 * c \<le> length m"
  using assms unfolding layout_ok_def by blast+

lemma all_apartD: "all_apart C \<Longrightarrow> x \<in> C \<Longrightarrow> y \<in> C \<Longrightarrow> x \<noteq> y \<Longrightarrow> apart x y"
  unfolding all_apart_def by blast

lemma apart_sym: "apart x y \<Longrightarrow> apart y x"
  by (auto simp: apart_def split: prod.splits)

lemma apart_retag: "apart (t, r) y \<Longrightarrow> apart (t', r) y"
  by (simp add: apart_def)

lemma all_apart_subset: "all_apart C \<Longrightarrow> D \<subseteq> C \<Longrightarrow> all_apart D"
  unfolding all_apart_def by blast

lemma all_apart_add:
  assumes "all_apart C" "\<And>y. y \<in> C \<Longrightarrow> apart x y"
  shows "all_apart (insert x C)"
  unfolding all_apart_def
proof (intro ballI impI)
  fix y z assume "y \<in> insert x C" "z \<in> insert x C" "y \<noteq> z"
  then consider "y = x" "z \<in> C" | "y \<in> C" "z = x" | "y \<in> C" "z \<in> C" by blast
  then show "apart y z"
    by cases (use assms(2) apart_sym all_apartD [OF assms(1)] \<open>y \<noteq> z\<close> in blast)+
qed

lemma all_apart_retag:
  assumes "all_apart C" "(t, r) \<in> C"
  shows "all_apart (insert (t', r) (C - {(t, r)}))"
proof (rule all_apart_add)
  show "all_apart (C - {(t, r)})" using assms(1) all_apart_subset by blast
  show "apart (t', r) y" if "y \<in> C - {(t, r)}" for y
    using all_apartD [OF assms(1,2), of y] that by (blast intro: apart_retag)
qed

lemma all_apart_insert:
  assumes "all_apart C" "\<And>t off u. (t, off, u) \<in> C \<Longrightarrow> off + u \<le> c"
  shows "all_apart (insert (t', c, n) C)"
proof (rule all_apart_add [OF assms(1)])
  fix y assume "y \<in> C"
  then show "apart (t', c, n) y" using assms(2) by (cases y) (auto simp: apart_def)
qed

lemma storage_at_eq: "storage_at off = 8 * off"
  by (simp add: storage_at_def STORAGE_UNIT_def)

lemma span_space:
  assumes "hdr_space m (storage_at off) = Some space" "5 + 2 * unat space < 2 ^ 32"
  shows "borrowed_span m (storage_at off) = Some (of_nat (5 + 2 * unat space))" "span_at m off = 5 + 2 * unat space"
proof -
  have "space * 2 + 5 = (of_nat (5 + 2 * unat space) :: u32)" by simp
  then show s: "borrowed_span m (storage_at off) = Some (of_nat (5 + 2 * unat space))"
    using assms(1) by (simp add: borrowed_span_def IMAGE_OFFSET_def ACCOUNT_HEADER_SIZE_def KEY_SIZE_def STORAGE_UNIT_def)
  show "span_at m off = 5 + 2 * unat space" using unat_of_nat_u32 [of "5 + 2 * unat space"] assms(2) by (simp add: span_at_def s)
qed

lemma entry_okE:
  assumes "entry_ok m pk e"
  obtains sequence space acc where "buffer_ok m (storage_at (oo_offset e)) sequence space" "5 + 2 * unat space < 2 ^ 32"
    "borrowed_pubkey m (storage_at (oo_offset e)) = Some pk" "published m (storage_at (oo_offset e)) = Some acc"
    "oo_owner e = key_tail (ac_owner (oa_core acc))" "span_at m (oo_offset e) = 5 + 2 * unat space"
    "borrowed_span m (storage_at (oo_offset e)) = Some (of_nat (span_at m (oo_offset e)))"
    "buffer_bytes space = 8 * span_at m (oo_offset e)"
proof -
  obtain sequence space acc where e: "buffer_ok m (storage_at (oo_offset e)) sequence space" "5 + 2 * unat space < 2 ^ 32"
    "borrowed_pubkey m (storage_at (oo_offset e)) = Some pk" "published m (storage_at (oo_offset e)) = Some acc"
    "oo_owner e = key_tail (ac_owner (oa_core acc))"
    using assms by (auto simp: entry_ok_def)
  moreover have "hdr_space m (storage_at (oo_offset e)) = Some space" using e(1) by (simp add: buffer_ok_def)
  ultimately show ?thesis using that span_space [of m "oo_offset e" space] by simp
qed

text \<open>An entry depends on the bytes of its span only.\<close>

lemma entry_frame:
  assumes e: "entry_ok m pk e" and r: "same_region (8 * span_at m (oo_offset e)) (storage_at (oo_offset e)) m (storage_at (oo_offset e)) m'"
  shows "entry_ok m' pk e" "span_at m' (oo_offset e) = span_at m (oo_offset e)"
    "published m' (storage_at (oo_offset e)) = published m (storage_at (oo_offset e))"
proof -
  obtain sequence space acc where i: "buffer_ok m (storage_at (oo_offset e)) sequence space" "5 + 2 * unat space < 2 ^ 32"
    "borrowed_pubkey m (storage_at (oo_offset e)) = Some pk" "published m (storage_at (oo_offset e)) = Some acc"
    "oo_owner e = key_tail (ac_owner (oa_core acc))" "span_at m (oo_offset e) = 5 + 2 * unat space"
    "buffer_bytes space = 8 * span_at m (oo_offset e)" by (rule entry_okE [OF e])
  have n: "buffer_bytes space \<le> 8 * span_at m (oo_offset e)" using i(7) by simp
  note s = same_region_buffer [OF r i(1) n]
  show "entry_ok m' pk e" unfolding entry_ok_def using s(1) i(2) s(3) i(3) s(2) i(4) i(5) by metis
  show "published m' (storage_at (oo_offset e)) = published m (storage_at (oo_offset e))" by (rule s(2))
  have "hdr_space m' (storage_at (oo_offset e)) = Some space" using s(1) by (simp add: buffer_ok_def)
  then show "span_at m' (oo_offset e) = span_at m (oo_offset e)" using span_space(2) i(2,6) by metis
qed

section \<open>Steps of the layout\<close>

definition live_same :: "tables \<Rightarrow> memory \<Rightarrow> memory \<Rightarrow> bool" where
  "live_same b m m' \<longleftrightarrow> (\<forall>pk e. tb_accounts b pk = Some e \<longrightarrow>
     same_region (8 * span_at m (oo_offset e)) (storage_at (oo_offset e)) m (storage_at (oo_offset e)) m')"

lemma claims_cong:
  assumes "\<And>pk e. tb_accounts b pk = Some e \<Longrightarrow> span_at m' (oo_offset e) = span_at m (oo_offset e)"
  shows "claims m' b res = claims m b res"
proof -
  have "{(Live pk, oo_offset e, span_at m' (oo_offset e)) |pk e. tb_accounts b pk = Some e} =
    {(Live pk, oo_offset e, span_at m (oo_offset e)) |pk e. tb_accounts b pk = Some e}"
    using assms by (intro Collect_cong) metis
  then show ?thesis by (simp only: claims_def)
qed

lemma live_frame:
  assumes l: "layout_ok m c b res" and s: "live_same b m m'"
  shows "claims m' b res = claims m b res" "stored m' b = stored m b"
proof -
  have e: "entry_ok m pk e" "same_region (8 * span_at m (oo_offset e)) (storage_at (oo_offset e)) m (storage_at (oo_offset e)) m'"
    if "tb_accounts b pk = Some e" for pk e
    using layout_okD(1) [OF l that] s that by (auto simp: live_same_def)
  show "claims m' b res = claims m b res" by (rule claims_cong) (rule entry_frame(2) [OF e])
  show "stored m' b = stored m b"
  proof
    fix pk show "stored m' b pk = stored m b pk"
    proof (cases "tb_accounts b pk")
      case (Some e)
      then show ?thesis using entry_frame(3) [OF e [OF Some]] by (simp add: stored_def)
    qed (simp add: stored_def)
  qed
qed

lemma layout_frame:
  assumes l: "layout_ok m c b res" and s: "live_same b m m'" and n: "8 * c \<le> length m'"
  shows "layout_ok m' c b res"
proof -
  have "entry_ok m' pk e" if "tb_accounts b pk = Some e" for pk e
    using entry_frame(1) [OF layout_okD(1) [OF l that]] s that by (auto simp: live_same_def)
  then show ?thesis using l n live_frame(1) [OF l s] by (simp add: layout_ok_def)
qed

lemma live_claim: "tb_accounts b pk = Some e \<Longrightarrow> (Live pk, oo_offset e, span_at m (oo_offset e)) \<in> claims m b res"
  by (auto simp: claims_def)

lemma live_bounds:
  assumes "layout_ok m c b res" "tb_accounts b pk = Some e"
  shows "0 < span_at m (oo_offset e)" "storage_at (oo_offset e) + 8 * span_at m (oo_offset e) \<le> length m"
  using layout_okD(2) [OF assms(1) live_claim [OF assms(2)]] layout_okD(5) [OF assms(1)] by (auto simp: storage_at_eq)

text \<open>Writing inside a span that no account owns, and extending the file, keep all accounts.\<close>

lemma live_same_claim:
  assumes l: "layout_ok m c b res" and a: "agree_outside (8 * off) (8 * (off + u)) m m'"
    and c: "(t, off, u) \<in> claims m b res" "\<And>pk. t \<noteq> Live pk"
  shows "live_same b m m'"
  unfolding live_same_def
proof (intro allI impI)
  fix pk e assume e: "tb_accounts b pk = Some e"
  have "apart (Live pk, oo_offset e, span_at m (oo_offset e)) (t, off, u)"
    using all_apartD [OF layout_okD(3) [OF l] live_claim [OF e] c(1)] c(2) by blast
  then have "storage_at (oo_offset e) + 8 * span_at m (oo_offset e) \<le> 8 * off \<or> 8 * (off + u) \<le> storage_at (oo_offset e)"
    by (auto simp: apart_def storage_at_eq)
  then show "same_region (8 * span_at m (oo_offset e)) (storage_at (oo_offset e)) m (storage_at (oo_offset e)) m'"
    using same_region_agree [OF a] live_bounds(2) [OF l e] by blast
qed

lemma same_region_append: "h + n \<le> length m \<Longrightarrow> same_region n h m h (m @ zs)"
proof -
  assume b: "h + n \<le> length m"
  then obtain bs where r: "mem_read m h n = Some bs" using mem_read_Some by blast
  have "mem_read (m @ zs) h n = Some bs"
    using mem_readD [OF r] by (intro mem_read_eqI) (auto simp: nth_append)
  then show ?thesis using r by (rule_tac same_regionI)
qed

lemma live_same_append: "layout_ok m c b res \<Longrightarrow> live_same b m (m @ zs)"
  unfolding live_same_def using live_bounds(2) same_region_append by blast

lemma layout_bump:
  assumes l: "layout_ok m c b None" and u: "0 < u" and m: "8 * (c + u) \<le> length (m @ zs)"
  shows "layout_ok (m @ zs) (c + u) b (Some (c, u))" "stored (m @ zs) b = stored m b"
proof -
  note s = live_same_append [OF l, of zs]
  have l': "layout_ok (m @ zs) c b None" by (rule layout_frame [OF l s]) (use m in simp)
  show "stored (m @ zs) b = stored m b" by (rule live_frame(2) [OF l s])
  have cl: "claims (m @ zs) b (Some (c, u)) = insert (Reserved, c, u) (claims (m @ zs) b None)" by (auto simp: claims_def)
  have bd: "0 < v \<and> off + v \<le> c" if "(t, off, v) \<in> claims (m @ zs) b None" for t off v
    using layout_okD(2) [OF l' that] .
  then have "all_apart (claims (m @ zs) b (Some (c, u)))"
    unfolding cl by (intro all_apart_insert layout_okD(3) [OF l']) blast
  moreover have "0 < v \<and> off + v \<le> c + u" if "(t, off, v) \<in> claims (m @ zs) b (Some (c, u))" for t off v
    using bd [of t off v] that u unfolding cl by auto
  ultimately show "layout_ok (m @ zs) (c + u) b (Some (c, u))" using l' m unfolding layout_ok_def by blast
qed

lemma layout_reuse:
  assumes l: "layout_ok m c b None" and f: "(u, off) \<in> tb_freelist b"
    and b': "b' = b\<lparr>tb_freelist := tb_freelist b - {(u, off)}\<rparr>"
  shows "layout_ok m c b' (Some (off, u))" "stored m b' = stored m b"
proof -
  show "stored m b' = stored m b" by (simp add: b' stored_def fun_eq_iff)
  have fc: "(Free, off, u) \<in> claims m b None" using f by (simp add: claims_def)
  have sub: "claims m b' (Some (off, u)) \<subseteq> insert (Reserved, off, u) (claims m b None - {(Free, off, u)})"
    by (auto simp: claims_def b')
  then have "all_apart (claims m b' (Some (off, u)))"
    using all_apart_subset [OF all_apart_retag [OF layout_okD(3) [OF l] fc]] by blast
  moreover have "0 < v \<and> o' + v \<le> c" if "(t, o', v) \<in> claims m b' (Some (off, u))" for t o' v
  proof -
    have "(t, o', v) \<in> claims m b None \<or> (o', v) = (off, u)" using that sub by blast
    then show ?thesis using layout_okD(2) [OF l] fc by blast
  qed
  ultimately show "layout_ok m c b' (Some (off, u))" using l unfolding layout_ok_def by (simp add: b' program_entries_def)
qed

lemma offset_unique:
  assumes "layout_ok m c b res" "tb_accounts b pk = Some e" "tb_accounts b pk' = Some e'" "oo_offset e' = oo_offset e"
  shows "pk' = pk"
proof (rule ccontr)
  assume "pk' \<noteq> pk"
  then have "apart (Live pk, oo_offset e, span_at m (oo_offset e)) (Live pk', oo_offset e', span_at m (oo_offset e'))"
    using all_apartD [OF layout_okD(3) [OF assms(1)] live_claim [OF assms(2)] live_claim [OF assms(3)]] by blast
  then show False using live_bounds(1) [OF assms(1,2)] assms(4) by (auto simp: apart_def)
qed

lemma program_entries_delete:
  assumes "layout_ok m c b res" "tb_accounts b pk = Some e"
  shows "program_entries (b\<lparr>tb_accounts := (tb_accounts b)(pk := None)\<rparr>) = program_entries b - {(oo_owner e, oo_offset e)}"
proof -
  let ?f = "\<lambda>e. (oo_owner e, oo_offset e)" and ?m = "tb_accounts b"
  have "?m = (?m(pk := None))(pk \<mapsto> e)" using assms(2) by (simp add: fun_upd_idem)
  then have r: "ran ?m = insert e (ran (?m(pk := None)))" using ran_map_upd [of "?m(pk := None)" pk e] by simp
  have "?f e \<notin> ?f ` ran (?m(pk := None))"
  proof
    assume "?f e \<in> ?f ` ran (?m(pk := None))"
    then obtain pk' e' where "?m pk' = Some e'" "pk' \<noteq> pk" "oo_offset e' = oo_offset e" by (auto simp: ran_def split: if_splits)
    then show False using offset_unique [OF assms] by blast
  qed
  then show ?thesis unfolding program_entries_def r by simp
qed

lemma layout_free:
  assumes l: "layout_ok m c b res" and e: "tb_accounts b pk = Some e"
    and b': "b' = b\<lparr>tb_accounts := (tb_accounts b)(pk := None), tb_programs := tb_programs b - {(oo_owner e, oo_offset e)},
      tb_freelist := insert (span_at m (oo_offset e), oo_offset e) (tb_freelist b)\<rparr>"
  shows "layout_ok m c b' res" "stored m b' = (stored m b)(pk := None)"
proof -
  let ?r = "(oo_offset e, span_at m (oo_offset e))"
  show "stored m b' = (stored m b)(pk := None)" by (auto simp: b' stored_def fun_eq_iff)
  have lc: "(Live pk, ?r) \<in> claims m b res" by (rule live_claim [OF e])
  have sub: "claims m b' res \<subseteq> insert (Free, ?r) (claims m b res - {(Live pk, ?r)})"
    by (auto simp: claims_def b' split: if_splits)
  then have ap: "all_apart (claims m b' res)"
    using all_apart_subset [OF all_apart_retag [OF layout_okD(3) [OF l] lc]] by blast
  have bd: "0 < v \<and> o' + v \<le> c" if "(t, o', v) \<in> claims m b' res" for t o' v
  proof -
    have "(t, o', v) \<in> claims m b res \<or> (o', v) = ?r" using that sub by blast
    then show ?thesis using layout_okD(2) [OF l] lc by blast
  qed
  have pe: "tb_programs b' = program_entries b'"
    using program_entries_delete [OF l e] layout_okD(4) [OF l] by (simp add: b' program_entries_def)
  have "entry_ok m pk' e'" if "tb_accounts b' pk' = Some e'" for pk' e'
    using layout_okD(1) [OF l] that by (auto simp: b' split: if_splits)
  then show "layout_ok m c b' res" using ap bd pe layout_okD(5) [OF l] unfolding layout_ok_def by blast
qed

lemma layout_insert:
  assumes l: "layout_ok m c b (Some (off, u))" and n: "tb_accounts b pk = None" and a: "owned_ok acc" "length pk = 32"
    and u: "u = unat (owned_units acc)" and w: "owned_serialize m (storage_at off) acc pk = Some m'"
    and e: "e = \<lparr>oo_owner = key_tail (ac_owner (oa_core acc)), oo_offset = off\<rparr>"
    and b': "b' = b\<lparr>tb_accounts := (tb_accounts b)(pk \<mapsto> e), tb_programs := insert (oo_owner e, off) (tb_programs b)\<rparr>"
  shows "layout_ok m' c b' None" "stored m' b' = (stored m b)(pk \<mapsto> acc)"
proof -
  have rc: "(Reserved, off, u) \<in> claims m b (Some (off, u))" by (simp add: claims_def)
  have fit: "storage_at off + 8 * unat (owned_units acc) \<le> length m"
    using layout_okD(2) [OF l rc] layout_okD(5) [OF l] u by (simp add: storage_at_eq)
  obtain m1 where m1: "owned_serialize m (storage_at off) acc pk = Some m1" "buffer_ok m1 (storage_at off) 0 (owned_allocation acc)"
    "published m1 (storage_at off) = Some acc" "borrowed_pubkey m1 (storage_at off) = Some pk"
    "borrowed_span m1 (storage_at off) = Some (owned_units acc)"
    "agree_outside (storage_at off) (storage_at off + 8 * unat (owned_units acc)) m m1"
    using owned_serialize_ok [OF a fit] by blast
  have mm: "m1 = m'" using m1(1) w by simp
  have ag: "agree_outside (8 * off) (8 * (off + u)) m m'" using m1(6) mm u by (simp add: storage_at_eq distrib_left)
  have s: "live_same b m m'" by (rule live_same_claim [OF l ag rc]) simp
  have cl: "claims m' b (Some (off, u)) = claims m b (Some (off, u))" by (rule live_frame(1) [OF l s])
  have sp: "span_at m' off = u" using m1(5) mm u by (simp add: span_at_def)
  have sub: "claims m' b' None \<subseteq> insert (Live pk, off, u) (claims m b (Some (off, u)) - {(Reserved, off, u)})"
    unfolding cl [symmetric] using n by (auto simp: claims_def b' e sp split: if_splits)
  then have ap: "all_apart (claims m' b' None)"
    using all_apart_subset [OF all_apart_retag [OF layout_okD(3) [OF l] rc]] by blast
  have bd: "0 < v \<and> o' + v \<le> c" if "(t, o', v) \<in> claims m' b' None" for t o' v
  proof -
    have "(t, o', v) \<in> claims m b (Some (off, u)) \<or> (o', v) = (off, u)" using that sub by blast
    then show ?thesis using layout_okD(2) [OF l] rc by blast
  qed
  have len: "8 * c \<le> length m'" using layout_okD(5) [OF l] agree_outside_length [OF ag] by simp
  have l': "layout_ok m' c b (Some (off, u))" by (rule layout_frame [OF l s len])
  have "5 + 2 * unat (owned_allocation acc) < 2 ^ 32"
    using owned_allocation_bounds(3) [OF a(1)] unat_u32_less [of "owned_units acc"] by simp
  then have eo: "entry_ok m' pk e" unfolding entry_ok_def using m1 mm e by auto
  have "entry_ok m' pk' e'" if "tb_accounts b' pk' = Some e'" for pk' e'
    using layout_okD(1) [OF l'] eo that by (auto simp: b' split: if_splits)
  moreover have "tb_programs b' = program_entries b'"
    using layout_okD(4) [OF l] n by (simp add: b' e program_entries_def)
  ultimately show "layout_ok m' c b' None" using ap bd len unfolding layout_ok_def by blast
  have "stored m' b = stored m b" by (rule live_frame(2) [OF l s])
  then show "stored m' b' = (stored m b)(pk \<mapsto> acc)" using m1(3) mm by (auto simp: b' e stored_def fun_eq_iff)
qed

lemma program_entries_update:
  assumes l: "layout_ok m c b res" and e: "tb_accounts b pk = Some e" and off: "oo_offset e' = oo_offset e"
  shows "program_entries (b\<lparr>tb_accounts := (tb_accounts b)(pk \<mapsto> e')\<rparr>) =
    insert (oo_owner e', oo_offset e) (program_entries b - {(oo_owner e, oo_offset e)})"
proof -
  have "ran ((tb_accounts b)(pk \<mapsto> e')) = insert e' (ran ((tb_accounts b)(pk := None)))"
    using ran_map_upd [of "(tb_accounts b)(pk := None)" pk e'] by simp
  then show ?thesis using program_entries_delete [OF l e] off by (simp add: program_entries_def)
qed

lemma live_same_others:
  assumes l: "layout_ok m c b res" and e: "tb_accounts b pk = Some e"
    and a: "agree_outside (storage_at (oo_offset e)) (storage_at (oo_offset e) + 8 * span_at m (oo_offset e)) m m'"
    and q: "tb_accounts b pk' = Some e'" "pk' \<noteq> pk"
  shows "same_region (8 * span_at m (oo_offset e')) (storage_at (oo_offset e')) m (storage_at (oo_offset e')) m'"
proof -
  have "apart (Live pk', oo_offset e', span_at m (oo_offset e')) (Live pk, oo_offset e, span_at m (oo_offset e))"
    using all_apartD [OF layout_okD(3) [OF l] live_claim [OF q(1)] live_claim [OF e]] q(2) by blast
  then have "storage_at (oo_offset e') + 8 * span_at m (oo_offset e') \<le> storage_at (oo_offset e) \<or>
      storage_at (oo_offset e) + 8 * span_at m (oo_offset e) \<le> storage_at (oo_offset e')"
    by (auto simp: apart_def storage_at_eq)
  then show ?thesis using same_region_agree [OF a] live_bounds(2) [OF l q(1)] by blast
qed

lemma layout_publish:
  assumes l: "layout_ok m c b res" and e: "tb_accounts b pk = Some e"
    and a: "agree_outside (storage_at (oo_offset e)) (storage_at (oo_offset e) + 8 * span_at m (oo_offset e)) m m'"
    and sp: "span_at m' (oo_offset e) = span_at m (oo_offset e)" and p: "published m' (storage_at (oo_offset e)) = Some acc"
    and off: "oo_offset e' = oo_offset e" and eo: "entry_ok m' pk e'"
    and b': "b' = b\<lparr>tb_accounts := (tb_accounts b)(pk \<mapsto> e'), tb_programs := insert (oo_owner e', oo_offset e) (tb_programs b - {(oo_owner e, oo_offset e)})\<rparr>"
  shows "layout_ok m' c b' res" "stored m' b' = (stored m b)(pk \<mapsto> acc)"
proof -
  note r = live_same_others [OF l e a]
  have f: "entry_ok m' pk' e''" "span_at m' (oo_offset e'') = span_at m (oo_offset e'')"
    "published m' (storage_at (oo_offset e'')) = published m (storage_at (oo_offset e''))"
    if "tb_accounts b pk' = Some e''" "pk' \<noteq> pk" for pk' e''
    using entry_frame [OF layout_okD(1) [OF l that(1)] r [OF that]] by blast+
  have span: "span_at m' (oo_offset e'') = span_at m (oo_offset e'')" if "tb_accounts b pk' = Some e''" for pk' e''
    using f(2) [OF that] sp that e by (cases "pk' = pk") auto
  have "claims m' b' res \<subseteq> claims m' b res" using e off by (auto simp: claims_def b' split: if_splits)
  moreover have "claims m' b res = claims m b res" by (rule claims_cong) (rule span)
  ultimately have sub: "claims m' b' res \<subseteq> claims m b res" by simp
  have "entry_ok m' pk' e''" if "tb_accounts b' pk' = Some e''" for pk' e''
    using f(1) eo that by (auto simp: b' split: if_splits)
  moreover have "tb_programs b' = program_entries b'"
    using program_entries_update [OF l e off] layout_okD(4) [OF l] by (simp add: b' program_entries_def)
  moreover have "8 * c \<le> length m'" using layout_okD(5) [OF l] agree_outside_length [OF a] by simp
  ultimately show "layout_ok m' c b' res"
    using all_apart_subset [OF layout_okD(3) [OF l] sub] sub layout_okD(2) [OF l] unfolding layout_ok_def by blast
  show "stored m' b' = (stored m b)(pk \<mapsto> acc)"
  proof
    fix q show "stored m' b' q = ((stored m b)(pk \<mapsto> acc)) q"
      using f(3) [of q] p off by (cases "tb_accounts b q") (auto simp: stored_def b')
  qed
qed

end
