(* ===== verification/Db_Volatile.thy ===== *)
theory Db_Volatile
  imports Account_Refine
begin

text \<open>
  The in-memory account store: \<^verbatim>\<open>accountsdb/src/volatile.rs\<close>, and the volatile part of a snapshot
  (\<open>dump\<close> of \<^verbatim>\<open>accountsdb/src/snapshot.rs\<close>). A concurrent hash map is a map whose single-key
  operations are atomic; the three of them that \<open>upsert\<close> and \<open>delete\<close> perform are separate steps,
  so that executors working on different accounts interleave. The binary codec of the snapshot
  file and the iteration order of the hash map are parameters.
\<close>

section \<open>Operations\<close>

record volatile_store =
  vs_accounts :: "pubkey \<rightharpoonup> owned_account"
  vs_programs :: "pubkey \<rightharpoonup> pubkey set"

text \<open>The atomic updates of the two maps.\<close>

definition vs_index :: "pubkey \<Rightarrow> pubkey \<Rightarrow> volatile_store \<Rightarrow> volatile_store" where
  "vs_index owner pk v =
     v\<lparr>vs_programs := (vs_programs v)(owner \<mapsto> insert pk (case vs_programs v owner of None \<Rightarrow> {} | Some s \<Rightarrow> s))\<rparr>"

definition vs_swap :: "pubkey \<Rightarrow> owned_account \<Rightarrow> volatile_store \<Rightarrow> volatile_store \<times> owned_account option" where
  "vs_swap pk acc v = (v\<lparr>vs_accounts := (vs_accounts v)(pk \<mapsto> acc)\<rparr>, vs_accounts v pk)"

definition vs_remove :: "pubkey \<Rightarrow> volatile_store \<Rightarrow> volatile_store \<times> owned_account option" where
  "vs_remove pk v = (v\<lparr>vs_accounts := (vs_accounts v)(pk := None)\<rparr>, vs_accounts v pk)"

definition vs_unindex :: "pubkey \<Rightarrow> pubkey \<Rightarrow> volatile_store \<Rightarrow> volatile_store" where
  "vs_unindex owner pk v =
     (case vs_programs v owner of
        None \<Rightarrow> v
      | Some s \<Rightarrow> v\<lparr>vs_programs := (vs_programs v)(owner := (if s - {pk} = {} then None else Some (s - {pk})))\<rparr>)"

abbreviation owned_owner :: "owned_account \<Rightarrow> pubkey" where
  "owned_owner a \<equiv> ac_owner (oa_core a)"

definition volatile_delete :: "pubkey \<Rightarrow> volatile_store \<Rightarrow> volatile_store" where
  "volatile_delete pk v =
     (case vs_remove pk v of (v, None) \<Rightarrow> v | (v, Some e) \<Rightarrow> vs_unindex (owned_owner e) pk v)"

text \<open>One entry of \<open>upsert\<close>; reading the mode, owner and image of a borrowed entry goes through memory.\<close>

definition volatile_put :: "pubkey \<Rightarrow> owned_account \<Rightarrow> volatile_store \<Rightarrow> volatile_store" where
  "volatile_put pk acc v =
     (let owner = owned_owner acc; v = vs_index owner pk v in
      case vs_swap pk acc v of
        (v, None) \<Rightarrow> v
      | (v, Some prev) \<Rightarrow> if owned_owner prev = owner then v else vs_unindex (owned_owner prev) pk v)"

definition volatile_upsert_one :: "memory \<Rightarrow> pubkey \<times> shared_data \<Rightarrow> volatile_store \<Rightarrow> volatile_store option" where
  "volatile_upsert_one m e v = do {
     let (pubkey, account) = e;
     mode \<leftarrow> shared_mode m account;
     persistent \<leftarrow> requires_persistence mode;
     if persistent \<or> mode = Closed then Some (volatile_delete pubkey v)
     else do { acc \<leftarrow> shared_owned m account; Some (volatile_put pubkey acc v) }
   }"

fun volatile_upsert :: "memory \<Rightarrow> (pubkey \<times> shared_data) list \<Rightarrow> volatile_store \<Rightarrow> volatile_store option" where
  "volatile_upsert m [] v = Some v"
| "volatile_upsert m (e # es) v = do { v \<leftarrow> volatile_upsert_one m e v; volatile_upsert m es v }"

definition volatile_load :: "volatile_store \<Rightarrow> pubkey \<Rightarrow> owned_account option" where
  "volatile_load v pk = vs_accounts v pk"

definition volatile_lifecycle :: "volatile_store \<Rightarrow> pubkey \<Rightarrow> (account_mode \<times> u64) option" where
  "volatile_lifecycle v pk = map_option (\<lambda>a. (ac_mode (oa_core a), ac_slot (oa_core a))) (vs_accounts v pk)"

definition volatile_contains :: "volatile_store \<Rightarrow> pubkey \<Rightarrow> bool" where
  "volatile_contains v pk \<longleftrightarrow> vs_accounts v pk \<noteq> None"

definition volatile_program :: "volatile_store \<Rightarrow> pubkey \<Rightarrow> pubkey set" where
  "volatile_program v owner = (case vs_programs v owner of None \<Rightarrow> {} | Some s \<Rightarrow> s)"

definition volatile_reset :: "volatile_store \<Rightarrow> volatile_store" where
  "volatile_reset v = v\<lparr>vs_accounts := (\<lambda>_. None), vs_programs := (\<lambda>_. None)\<rparr>"

text \<open>
  Opening: the snapshot file, when there is one, is decoded and removed; the ownership sets are
  rebuilt by one pass over the decoded map, in the order \<open>iter\<close> of the hash map.
\<close>

definition volatile_rebuild :: "(pubkey \<times> owned_account) list \<Rightarrow> (pubkey \<rightharpoonup> owned_account) \<Rightarrow> volatile_store" where
  "volatile_rebuild es accounts =
     fold (\<lambda>(pk, acc). vs_index (owned_owner acc) pk) es \<lparr>vs_accounts = accounts, vs_programs = (\<lambda>_. None)\<rparr>"

definition volatile_new ::
  "((pubkey \<rightharpoonup> owned_account) \<Rightarrow> (pubkey \<times> owned_account) list) \<Rightarrow> (bytes \<Rightarrow> 'e + (pubkey \<rightharpoonup> owned_account)) \<Rightarrow>
   bytes option \<Rightarrow> 'e + volatile_store \<times> bytes option" where
  "volatile_new iter de file =
     res_bind (case file of Some bs \<Rightarrow> de bs | None \<Rightarrow> Inr (\<lambda>_. None))
       (\<lambda>accounts. Inr (volatile_rebuild (iter accounts) accounts, None))"

definition volatile_dump :: "((pubkey \<rightharpoonup> owned_account) \<Rightarrow> 'e + bytes) \<Rightarrow> volatile_store \<Rightarrow> 'e + bytes option" where
  "volatile_dump ser v = res_bind (ser (vs_accounts v)) (\<lambda>bs. Inr (Some bs))"

section \<open>Concurrent executors\<close>

text \<open>
  Where a thread stands in its update of a key: after the new owner's set was extended, or after
  the account map was changed, with the previous owner's set still to be cleaned. The scheduler
  never runs two transactions that write the same account, so a key has at most one update in flight.
\<close>

datatype vol_pc = Indexed owned_account | Cleaning pubkey

type_synonym vol_state = "volatile_store \<times> (pubkey \<rightharpoonup> vol_pc)"

inductive volatile_step :: "vol_state \<Rightarrow> vol_state \<Rightarrow> bool" where
  put_index: "pc pk = None \<Longrightarrow> volatile_step (v, pc) (vs_index (owned_owner acc) pk v, pc(pk \<mapsto> Indexed acc))"
| put_swap: "pc pk = Some (Indexed acc) \<Longrightarrow> vs_swap pk acc v = (v', prev) \<Longrightarrow>
    volatile_step (v, pc) (v', pc(pk := (case prev of None \<Rightarrow> None
      | Some p \<Rightarrow> if owned_owner p = owned_owner acc then None else Some (Cleaning (owned_owner p)))))"
| put_clean: "pc pk = Some (Cleaning owner) \<Longrightarrow> volatile_step (v, pc) (vs_unindex owner pk v, pc(pk := None))"
| remove: "pc pk = None \<Longrightarrow> vs_remove pk v = (v', prev) \<Longrightarrow>
    volatile_step (v, pc) (v', pc(pk := map_option (Cleaning \<circ> owned_owner) prev))"

inductive_cases volatile_stepE: "volatile_step (v, pc) s'"

section \<open>The ownership index\<close>

definition owner_of :: "volatile_store \<Rightarrow> pubkey \<Rightarrow> pubkey option" where
  "owner_of v pk = map_option owned_owner (vs_accounts v pk)"

definition pending_owner :: "vol_pc option \<Rightarrow> pubkey option" where
  "pending_owner p = (case p of None \<Rightarrow> None | Some (Indexed acc) \<Rightarrow> Some (owned_owner acc) | Some (Cleaning owner) \<Rightarrow> Some owner)"

definition vol_inv :: "vol_state \<Rightarrow> bool" where
  "vol_inv s = (case s of (v, pc) \<Rightarrow>
     (\<forall>owner. vs_programs v owner \<noteq> Some {}) \<and>
     (\<forall>owner pk. pk \<in> volatile_program v owner \<longleftrightarrow> owner_of v pk = Some owner \<or> pending_owner (pc pk) = Some owner) \<and>
     (\<forall>owner pk. pc pk = Some (Cleaning owner) \<longrightarrow> owner_of v pk \<noteq> Some owner))"

definition vol_ok :: "volatile_store \<Rightarrow> bool" where
  "vol_ok v \<longleftrightarrow> vol_inv (v, \<lambda>_. None)"

lemma program_index [simp]:
  "volatile_program (vs_index owner pk v) w = (if w = owner then insert pk (volatile_program v w) else volatile_program v w)"
  by (simp add: volatile_program_def vs_index_def)

lemma program_unindex [simp]:
  "volatile_program (vs_unindex owner pk v) w = (if w = owner then volatile_program v w - {pk} else volatile_program v w)"
  by (auto simp: volatile_program_def vs_unindex_def split: option.splits)

lemma owner_of_index [simp]: "owner_of (vs_index owner pk v) q = owner_of v q" "owner_of (vs_unindex owner pk v) q = owner_of v q"
  by (simp_all add: owner_of_def vs_index_def vs_unindex_def split: option.splits)

lemma nonempty_index: "\<forall>w. vs_programs v w \<noteq> Some {} \<Longrightarrow> vs_programs (vs_index owner pk v) w \<noteq> Some {}"
  by (simp add: vs_index_def)

lemma nonempty_unindex: "\<forall>w. vs_programs v w \<noteq> Some {} \<Longrightarrow> vs_programs (vs_unindex owner pk v) w \<noteq> Some {}"
  by (simp add: vs_unindex_def split: option.splits)

lemma swap_simps:
  "vs_swap pk acc v = (v', prev) \<Longrightarrow> prev = vs_accounts v pk \<and> vs_accounts v' = (vs_accounts v)(pk \<mapsto> acc) \<and> vs_programs v' = vs_programs v"
  "vs_remove pk v = (v', prev) \<Longrightarrow> prev = vs_accounts v pk \<and> vs_accounts v' = (vs_accounts v)(pk := None) \<and> vs_programs v' = vs_programs v"
  by (auto simp: vs_swap_def vs_remove_def)

lemma vol_invD:
  assumes "vol_inv (v, pc)"
  shows "vs_programs v owner \<noteq> Some {}"
    and "pk \<in> volatile_program v owner \<longleftrightarrow> owner_of v pk = Some owner \<or> pending_owner (pc pk) = Some owner"
    and "pc pk = Some (Cleaning owner) \<Longrightarrow> owner_of v pk \<noteq> Some owner"
  using assms by (auto simp: vol_inv_def)

lemma vol_invI:
  assumes "\<And>owner. vs_programs v owner \<noteq> Some {}"
    and "\<And>owner pk. pk \<in> volatile_program v owner \<longleftrightarrow> owner_of v pk = Some owner \<or> pending_owner (pc pk) = Some owner"
    and "\<And>owner pk. pc pk = Some (Cleaning owner) \<Longrightarrow> owner_of v pk \<noteq> Some owner"
  shows "vol_inv (v, pc)"
  using assms by (auto simp: vol_inv_def)

lemma pending_owner_simps [simp]:
  "pending_owner None = None" "pending_owner (Some (Indexed acc)) = Some (owned_owner acc)"
  "pending_owner (Some (Cleaning owner)) = Some owner"
  "pending_owner (map_option (Cleaning \<circ> owned_owner) prev) = map_option owned_owner prev"
  by (cases prev; simp add: pending_owner_def)+

lemma volatile_step_inv:
  assumes "volatile_step s s'" "vol_inv s"
  shows "vol_inv s'"
  using assms
proof (induction rule: volatile_step.induct)
  case (put_index pc pk v acc)
  note i = vol_invD [OF put_index(2)]
  show ?case
  proof (rule vol_invI)
    show "vs_programs (vs_index (owned_owner acc) pk v) owner \<noteq> Some {}" for owner
      using nonempty_index i(1) by blast
    show "q \<in> volatile_program (vs_index (owned_owner acc) pk v) owner \<longleftrightarrow>
      owner_of (vs_index (owned_owner acc) pk v) q = Some owner \<or> pending_owner ((pc(pk \<mapsto> Indexed acc)) q) = Some owner" for owner q
      using i(2) [of q owner] put_index(1) by auto
    show "owner_of (vs_index (owned_owner acc) pk v) q \<noteq> Some owner" if "(pc(pk \<mapsto> Indexed acc)) q = Some (Cleaning owner)" for owner q
      using i(3) [of q owner] that by (auto split: if_splits)
  qed
next
  case (put_swap pc pk acc v v' prev)
  note i = vol_invD [OF put_swap(3)]
  note w = swap_simps(1) [OF put_swap(2)]
  have prog: "volatile_program v' owner = volatile_program v owner" for owner using w by (simp add: volatile_program_def)
  have own: "owner_of v' q = (if q = pk then Some (owned_owner acc) else owner_of v q)" for q using w by (simp add: owner_of_def)
  have old: "map_option owned_owner prev = owner_of v pk" using w by (simp add: owner_of_def)
  show ?case
  proof (rule vol_invI)
    show "vs_programs v' owner \<noteq> Some {}" for owner using i(1) w by simp
  qed (use i(2) i(3) put_swap(1) old in \<open>auto simp: prog own split: option.splits if_splits\<close>)
next
  case (put_clean pc pk owner v)
  note i = vol_invD [OF put_clean(2)]
  show ?case
  proof (rule vol_invI)
    show "vs_programs (vs_unindex owner pk v) w \<noteq> Some {}" for w using nonempty_unindex i(1) by blast
    show "q \<in> volatile_program (vs_unindex owner pk v) w \<longleftrightarrow>
      owner_of (vs_unindex owner pk v) q = Some w \<or> pending_owner ((pc(pk := None)) q) = Some w" for w q
      using i(2) [of q w] i(3) [OF put_clean(1)] put_clean(1) by auto
    show "owner_of (vs_unindex owner pk v) q \<noteq> Some w" if "(pc(pk := None)) q = Some (Cleaning w)" for w q
      using i(3) [of q w] that by (auto split: if_splits)
  qed
next
  case (remove pc pk v v' prev)
  note i = vol_invD [OF remove(3)]
  note w = swap_simps(2) [OF remove(2)]
  have prog: "volatile_program v' owner = volatile_program v owner" for owner using w by (simp add: volatile_program_def)
  have own: "owner_of v' q = (if q = pk then None else owner_of v q)" for q using w by (simp add: owner_of_def)
  have old: "map_option owned_owner prev = owner_of v pk" using w by (simp add: owner_of_def)
  show ?case
  proof (rule vol_invI)
    show "vs_programs v' owner \<noteq> Some {}" for owner using i(1) w by simp
  qed (use i(2) i(3) remove(1) old in \<open>auto simp: prog own split: option.splits if_splits\<close>)
qed

lemma volatile_run_inv: "volatile_step\<^sup>*\<^sup>* s s' \<Longrightarrow> vol_inv s \<Longrightarrow> vol_inv s'"
  by (induction rule: rtranclp_induct) (auto intro: volatile_step_inv)

section \<open>Sequential updates\<close>

text \<open>What one entry of a batch does to the account map, by its mode.\<close>

definition persistent_mode :: "account_mode \<Rightarrow> bool" where
  "persistent_mode m \<longleftrightarrow> m \<in> {Runtime, Delegated, Magic, Undelegating}"

lemma requires_persistence_eq: "requires_persistence m = Some (persistent_mode m)"
  by (induction m; code_simp)

definition volatile_entry :: "owned_account \<Rightarrow> owned_account option" where
  "volatile_entry a = (if persistent_mode (ac_mode (oa_core a)) \<or> ac_mode (oa_core a) = Closed then None else Some a)"

lemma delete_run: "volatile_step\<^sup>*\<^sup>* (v, \<lambda>_. None) (volatile_delete pk v, \<lambda>_. None)"
proof -
  let ?v = "v\<lparr>vs_accounts := (vs_accounts v)(pk := None)\<rparr>"
  have r: "vs_remove pk v = (?v, vs_accounts v pk)" by (simp add: vs_remove_def)
  have s1: "volatile_step (v, \<lambda>_. None) (?v, (\<lambda>_. None)(pk := map_option (Cleaning \<circ> owned_owner) (vs_accounts v pk)))"
    using r by (intro volatile_step.remove) simp_all
  show ?thesis
  proof (cases "vs_accounts v pk")
    case None
    have e: "(\<lambda>_. None)(pk := None) = (\<lambda>_. None)" by auto
    from s1 None r show ?thesis unfolding volatile_delete_def by (simp add: e r_into_rtranclp)
  next
    case (Some e)
    have "volatile_step (?v, (\<lambda>_. None)(pk \<mapsto> Cleaning (owned_owner e)))
      (vs_unindex (owned_owner e) pk ?v, ((\<lambda>_. None)(pk \<mapsto> Cleaning (owned_owner e)))(pk := None))"
      by (intro volatile_step.put_clean) simp
    moreover have "((\<lambda>_. None)(pk \<mapsto> Cleaning (owned_owner e)))(pk := None) = (\<lambda>_. None)" by auto
    moreover have "volatile_delete pk v = vs_unindex (owned_owner e) pk ?v" using r Some by (simp add: volatile_delete_def)
    ultimately show ?thesis using s1 Some by (auto intro: converse_rtranclp_into_rtranclp)
  qed
qed

lemma put_run: "volatile_step\<^sup>*\<^sup>* (v, \<lambda>_. None) (volatile_put pk acc v, \<lambda>_. None)"
proof -
  let ?w = "vs_index (owned_owner acc) pk v"
  let ?v = "?w\<lparr>vs_accounts := (vs_accounts ?w)(pk \<mapsto> acc)\<rparr>"
  let ?pc = "\<lambda>x. (\<lambda>_. None)(pk := x)"
  let ?p = "case vs_accounts ?w pk of None \<Rightarrow> None
      | Some p \<Rightarrow> if owned_owner p = owned_owner acc then None else Some (Cleaning (owned_owner p))"
  have sw: "vs_swap pk acc ?w = (?v, vs_accounts ?w pk)" by (simp add: vs_swap_def)
  have n: "?pc None = (\<lambda>_. None)" by auto
  have s1: "volatile_step (v, \<lambda>_. None) (?w, ?pc (Some (Indexed acc)))" by (intro volatile_step.put_index) simp
  have "volatile_step (?w, ?pc (Some (Indexed acc))) (?v, (?pc (Some (Indexed acc)))(pk := ?p))"
    by (rule volatile_step.put_swap [OF _ sw]) simp
  then have s2: "volatile_step\<^sup>*\<^sup>* (v, \<lambda>_. None) (?v, ?pc ?p)" using s1 by (auto intro: converse_rtranclp_into_rtranclp)
  show ?thesis
  proof (cases "?p")
    case None
    then have "volatile_put pk acc v = ?v" using sw by (auto simp: volatile_put_def Let_def split: option.splits if_splits)
    then show ?thesis using s2 None n by simp
  next
    case (Some q)
    then obtain prev where pr: "vs_accounts ?w pk = Some prev" "owned_owner prev \<noteq> owned_owner acc" "q = Cleaning (owned_owner prev)"
      by (auto split: option.splits if_splits)
    have "volatile_step (?v, ?pc (Some q)) (vs_unindex (owned_owner prev) pk ?v, (?pc (Some q))(pk := None))"
      using pr by (intro volatile_step.put_clean) simp
    moreover have "volatile_put pk acc v = vs_unindex (owned_owner prev) pk ?v" using sw pr by (simp add: volatile_put_def Let_def)
    ultimately show ?thesis using s2 Some n by (auto intro: rtranclp.rtrancl_into_rtrancl)
  qed
qed

lemma accounts_index [simp]:
  "vs_accounts (vs_index owner pk v) = vs_accounts v" "vs_accounts (vs_unindex owner pk v) = vs_accounts v"
  by (simp_all add: vs_index_def vs_unindex_def split: option.splits)

lemma accounts_delete: "vs_accounts (volatile_delete pk v) = (vs_accounts v)(pk := None)"
  by (simp add: volatile_delete_def vs_remove_def split: option.splits)

lemma accounts_put: "vs_accounts (volatile_put pk acc v) = (vs_accounts v)(pk \<mapsto> acc)"
  by (simp add: volatile_put_def vs_swap_def Let_def split: option.splits)

lemma shared_owned_mode: "shared_owned m a = Some acc \<Longrightarrow> shared_mode m a = Some (ac_mode (oa_core acc))"
  by (auto simp: shared_owned_def shared_mode_def shared_core_def borrowed_owned_def bind_eq_Some_conv split: cow_account.splits)

lemma upsert_one:
  assumes ow: "shared_owned m a = Some acc"
  shows "\<exists>v'. volatile_upsert_one m (pk, a) v = Some v' \<and> volatile_step\<^sup>*\<^sup>* (v, \<lambda>_. None) (v', \<lambda>_. None) \<and>
    vs_accounts v' = (vs_accounts v)(pk := volatile_entry acc)"
proof -
  note c = shared_owned_mode [OF ow]
  show ?thesis
  proof (cases "volatile_entry acc")
    case None
    then have "volatile_upsert_one m (pk, a) v = Some (volatile_delete pk v)"
      using c by (auto simp: volatile_upsert_one_def requires_persistence_eq volatile_entry_def split: if_splits)
    then show ?thesis using None delete_run accounts_delete by simp
  next
    case (Some x)
    then have "volatile_upsert_one m (pk, a) v = Some (volatile_put pk acc v)" "x = acc"
      using c ow by (auto simp: volatile_upsert_one_def requires_persistence_eq volatile_entry_def split: if_splits)
    then show ?thesis using Some put_run accounts_put by simp
  qed
qed

fun volatile_spec :: "(pubkey \<times> owned_account) list \<Rightarrow> (pubkey \<rightharpoonup> owned_account) \<Rightarrow> (pubkey \<rightharpoonup> owned_account)" where
  "volatile_spec [] f = f"
| "volatile_spec ((pk, acc) # es) f = volatile_spec es (f(pk := volatile_entry acc))"

lemma upsert_planned:
  "\<forall>x \<in> set xs. shared_owned m (snd (fst x)) = Some (snd x) \<Longrightarrow>
    \<exists>v'. volatile_upsert m (map fst xs) v = Some v' \<and> volatile_step\<^sup>*\<^sup>* (v, \<lambda>_. None) (v', \<lambda>_. None) \<and>
      vs_accounts v' = volatile_spec (map (\<lambda>x. (fst (fst x), snd x)) xs) (vs_accounts v)"
proof (induction xs arbitrary: v)
  case (Cons x xs)
  obtain pk a acc where x: "x = ((pk, a), acc)" by (cases x) auto
  have acc: "shared_owned m a = Some acc" using Cons.prems x by simp
  obtain v1 where v1: "volatile_upsert_one m (pk, a) v = Some v1" "volatile_step\<^sup>*\<^sup>* (v, \<lambda>_. None) (v1, \<lambda>_. None)"
    "vs_accounts v1 = (vs_accounts v)(pk := volatile_entry acc)"
    using upsert_one [OF acc] by blast
  obtain v' where v': "volatile_upsert m (map fst xs) v1 = Some v'" "volatile_step\<^sup>*\<^sup>* (v1, \<lambda>_. None) (v', \<lambda>_. None)"
    "vs_accounts v' = volatile_spec (map (\<lambda>x. (fst (fst x), snd x)) xs) (vs_accounts v1)"
    using Cons.IH [of v1] Cons.prems by auto
  show ?case using v1 v' x by (intro exI [of _ v']) (auto intro: rtranclp_trans)
qed simp

lemma upsert_all:
  assumes "\<forall>(pk, a) \<in> set es. shared_ok m a"
  shows "\<exists>v' accs. volatile_upsert m es v = Some v' \<and> volatile_step\<^sup>*\<^sup>* (v, \<lambda>_. None) (v', \<lambda>_. None) \<and>
    map (\<lambda>(pk, a). (pk, shared_owned m a)) es = map (\<lambda>(pk, acc). (pk, Some acc)) accs \<and>
    vs_accounts v' = volatile_spec accs (vs_accounts v)"
proof -
  let ?f = "\<lambda>e. the (shared_owned m (snd e))"
  have f: "shared_owned m (snd e) = Some (?f e)" if "e \<in> set es" for e
  proof -
    have "shared_ok m (snd e)" using assms that by (cases e) auto
    then obtain acc where "shared_owned m (snd e) = Some acc" by (rule shared_account)
    then show ?thesis by simp
  qed
  obtain v' where "volatile_upsert m es v = Some v'" "volatile_step\<^sup>*\<^sup>* (v, \<lambda>_. None) (v', \<lambda>_. None)"
    "vs_accounts v' = volatile_spec (map (\<lambda>e. (fst e, ?f e)) es) (vs_accounts v)"
    using upsert_planned [of "map (\<lambda>e. (e, ?f e)) es" m v] f by (auto simp: comp_def)
  moreover have "map (\<lambda>(pk, a). (pk, shared_owned m a)) es = map (\<lambda>(pk, acc). (pk, Some acc)) (map (\<lambda>e. (fst e, ?f e)) es)"
    using f by (simp add: case_prod_beta)
  ultimately show ?thesis by blast
qed

section \<open>Snapshots\<close>

lemma rebuild_fold:
  "vs_accounts (fold (\<lambda>(pk, acc). vs_index (owned_owner acc) pk) es v) = vs_accounts v"
  "vs_programs (fold (\<lambda>(pk, acc). vs_index (owned_owner acc) pk) es v) owner =
     (let new = fst ` {e \<in> set es. owned_owner (snd e) = owner} in
      if new = {} then vs_programs v owner else Some (new \<union> volatile_program v owner))"
proof (induction es arbitrary: v)
  case Nil
  { case 1 then show ?case by simp }
  { case 2 then show ?case by simp }
next
  case (Cons e es)
  obtain pk acc where e: "e = (pk, acc)" by (cases e)
  { case 1 then show ?case using Cons(1) by (simp add: e) }
  { case 2
    let ?new = "fst ` {e \<in> set es. owned_owner (snd e) = owner}"
    have "fst ` {x \<in> set (e # es). owned_owner (snd x) = owner} = (if owned_owner acc = owner then insert pk ?new else ?new)"
      by (auto simp: e image_iff)
    moreover have "vs_programs (vs_index (owned_owner acc) pk v) owner =
      (if owned_owner acc = owner then Some (insert pk (volatile_program v owner)) else vs_programs v owner)"
      by (simp add: vs_index_def volatile_program_def)
    ultimately show ?case using Cons(2) [of "vs_index (owned_owner acc) pk v"] by (auto simp: e Let_def) }
qed

lemma vol_ok_programs:
  assumes "vol_ok v"
  shows "vs_programs v owner = (let s = {pk. owner_of v pk = Some owner} in if s = {} then None else Some s)"
proof -
  have i: "vs_programs v owner \<noteq> Some {}" "\<And>pk. pk \<in> volatile_program v owner \<longleftrightarrow> owner_of v pk = Some owner"
    using vol_invD [of v "\<lambda>_. None"] assms by (auto simp: vol_ok_def)
  then have "volatile_program v owner = {pk. owner_of v pk = Some owner}" by auto
  then show ?thesis using i(1) by (cases "vs_programs v owner") (auto simp: volatile_program_def Let_def)
qed

lemma rebuild_exact:
  assumes v: "vol_ok v" and it: "map_of es = vs_accounts v" "distinct (map fst es)"
  shows "volatile_rebuild es (vs_accounts v) = v"
proof -
  have "fst ` {e \<in> set es. owned_owner (snd e) = owner} = {pk. owner_of v pk = Some owner}" for owner
    using it by (auto simp: owner_of_def image_iff it(1) [symmetric] map_of_eq_Some_iff)
  then have "vs_programs (volatile_rebuild es (vs_accounts v)) owner = vs_programs v owner" for owner
    unfolding volatile_rebuild_def rebuild_fold(2) vol_ok_programs [OF v, of owner] by (simp add: Let_def volatile_program_def)
  then show ?thesis using rebuild_fold(1) [of es] by (intro volatile_store.equality) (auto simp: volatile_rebuild_def)
qed

section \<open>Properties\<close>

text \<open>
  C21: the ownership index never misses an account. Executors that update different accounts
  interleave their three atomic map operations in any order; in every reachable state each
  stored account is listed under its owner, no owner has an empty set, and for a key with no
  update in flight the sets list it under its current owner and under no other.
\<close>

theorem volatile_index_exact:
  assumes v: "vol_ok v" and r: "volatile_step\<^sup>*\<^sup>* (v, \<lambda>_. None) (v', pc)"
  shows "vs_programs v' owner \<noteq> Some {} \<and> (owner_of v' pk = Some owner \<longrightarrow> pk \<in> volatile_program v' owner) \<and>
    (pc pk = None \<longrightarrow> (pk \<in> volatile_program v' owner \<longleftrightarrow> owner_of v' pk = Some owner))"
proof -
  have "vol_inv (v', pc)" using volatile_run_inv [OF r] v by (simp add: vol_ok_def)
  then show ?thesis using vol_invD [of v' pc] by auto
qed

definition sample_owned :: "u64 \<Rightarrow> pubkey \<Rightarrow> owned_account" where
  "sample_owned lamports owner = default_owned\<lparr>oa_core := default_core\<lparr>ac_lamports := lamports, ac_owner := owner, ac_mode := Mirrored\<rparr>\<rparr>"

definition empty_volatile :: volatile_store where
  "empty_volatile = \<lparr>vs_accounts = (\<lambda>_. None), vs_programs = (\<lambda>_. None)\<rparr>"

lemma empty_volatile_ok: "vol_ok empty_volatile"
  by (simp add: vol_ok_def vol_inv_def empty_volatile_def volatile_program_def owner_of_def)

theorem volatile_index_exact_witness:
  "[7] \<in> volatile_program (volatile_put [7] (sample_owned 1 [2]) (volatile_put [7] (sample_owned 1 [1]) empty_volatile)) [2] \<and>
   [7] \<notin> volatile_program (volatile_put [7] (sample_owned 1 [2]) (volatile_put [7] (sample_owned 1 [1]) empty_volatile)) [1]"
proof -
  let ?v = "volatile_put [7] (sample_owned 1 [2]) (volatile_put [7] (sample_owned 1 [1]) empty_volatile)"
  have r: "volatile_step\<^sup>*\<^sup>* (empty_volatile, \<lambda>_. None) (?v, \<lambda>_. None)" by (rule rtranclp_trans [OF put_run put_run])
  have o: "owner_of ?v [7] = Some [2]" by (simp add: owner_of_def accounts_put sample_owned_def)
  show ?thesis
    using volatile_index_exact [OF empty_volatile_ok r, of "[2]" "[7]"] volatile_index_exact [OF empty_volatile_ok r, of "[1]" "[7]"] o
    by simp
qed

text \<open>
  C22: a batch update of the volatile store never fails on well-formed accounts, leaves a
  consistent store and sets each key, in batch order, to the entry's current account image when its mode is
  \<open>Missing\<close> or \<open>Mirrored\<close>; entries in a persistent mode or closed entries evict the cached copy.
\<close>

theorem volatile_upsert_refines:
  assumes "vol_ok v" "\<forall>(pk, a) \<in> set es. shared_ok m a"
  shows "\<exists>v' accs. volatile_upsert m es v = Some v' \<and> vol_ok v' \<and>
    map (\<lambda>(pk, a). (pk, shared_owned m a)) es = map (\<lambda>(pk, acc). (pk, Some acc)) accs \<and>
    (\<forall>pk. volatile_load v' pk = volatile_spec accs (vs_accounts v) pk)"
proof -
  obtain v' accs where u: "volatile_upsert m es v = Some v'" "volatile_step\<^sup>*\<^sup>* (v, \<lambda>_. None) (v', \<lambda>_. None)"
    "map (\<lambda>(pk, a). (pk, shared_owned m a)) es = map (\<lambda>(pk, acc). (pk, Some acc)) accs"
    "vs_accounts v' = volatile_spec accs (vs_accounts v)"
    using upsert_all [OF assms(2)] by blast
  moreover have "vol_ok v'" using volatile_run_inv [OF u(2)] assms(1) by (simp add: vol_ok_def)
  ultimately show ?thesis by (auto simp: volatile_load_def)
qed

theorem volatile_upsert_refines_witness:
  "\<exists>v'. volatile_upsert [] [([7], shared_from_owned (sample_owned 1 (replicate 32 1)))] empty_volatile = Some v' \<and>
     volatile_load v' [7] = Some (sample_owned 1 (replicate 32 1))"
proof -
  let ?es = "[([7], shared_from_owned (sample_owned 1 (replicate 32 1)))]"
  have "\<forall>(pk, a) \<in> set ?es. shared_ok [] a"
    by (simp add: shared_ok_def shared_from_owned_def sample_owned_def core_ok_def)
  from volatile_upsert_refines [OF empty_volatile_ok this] obtain v' accs where
    v: "volatile_upsert [] ?es empty_volatile = Some v'"
    "map (\<lambda>(pk, a). (pk, shared_owned [] a)) ?es = map (\<lambda>(pk, acc). (pk, Some acc)) accs"
    "\<forall>pk. volatile_load v' pk = volatile_spec accs (vs_accounts empty_volatile) pk" by blast
  then have "accs = [([7], sample_owned 1 (replicate 32 1))]"
    by (auto simp: shared_owned_def shared_from_owned_def)
  then show ?thesis using v by (auto simp: volatile_entry_def sample_owned_def persistent_mode_def)
qed

text \<open>
  C23: a snapshot restores the volatile store. Dumping a consistent store and opening from the
  file yields the same accounts and the same ownership sets, and consumes the file, for every
  iteration order of the hash map and every codec that decodes what it encoded.
\<close>

theorem volatile_snapshot_roundtrip:
  assumes "vol_ok v" and codec: "\<And>f bs. ser f = Inr bs \<Longrightarrow> de bs = Inr f"
    and order: "map_of (iter (vs_accounts v)) = vs_accounts v" "distinct (map fst (iter (vs_accounts v)))"
    and "volatile_dump ser v = Inr file"
  shows "volatile_new iter de file = Inr (v, None)"
proof -
  obtain bs where "file = Some bs" "de bs = Inr (vs_accounts v)" using assms(5) codec by (auto simp: volatile_dump_def unfold_ok)
  then show ?thesis using rebuild_exact [OF assms(1) order] by (simp add: volatile_new_def)
qed

definition sample_volatile :: volatile_store where
  "sample_volatile = volatile_put [8] (sample_owned 2 [1]) (volatile_put [7] (sample_owned 1 [1]) empty_volatile)"

theorem volatile_snapshot_roundtrip_witness:
  "volatile_new (\<lambda>f. map (\<lambda>pk. (pk, the (f pk))) [[7], [8]])
     (\<lambda>bs. if bs = [1] then Inr (vs_accounts sample_volatile) else Inl ())
     (Some [1]) = Inr (sample_volatile, None)"
proof (rule volatile_snapshot_roundtrip
    [where ser = "\<lambda>f. if f = vs_accounts sample_volatile then Inr [1] else Inl ()" and v = sample_volatile])
  show "vol_ok sample_volatile" unfolding sample_volatile_def
    using volatile_run_inv [OF rtranclp_trans [OF put_run put_run]] empty_volatile_ok by (simp add: vol_ok_def)
  show "(if bs = [1] then Inr (vs_accounts sample_volatile) else Inl ()) = Inr f"
    if "(if f = vs_accounts sample_volatile then Inr [1] else Inl ()) = Inr bs" for f bs
    using that by (auto split: if_splits)
  show "map_of (map (\<lambda>pk. (pk, the (vs_accounts sample_volatile pk))) [[7], [8]]) = vs_accounts sample_volatile"
    by (auto simp: sample_volatile_def accounts_put empty_volatile_def fun_eq_iff)
  show "distinct (map fst (map (\<lambda>pk. (pk, the (vs_accounts sample_volatile pk))) [[7], [8 :: u8]]))" by simp
  show "volatile_dump (\<lambda>f. if f = vs_accounts sample_volatile then Inr [1] else Inl ()) sample_volatile = Inr (Some [1])"
    by (simp add: volatile_dump_def)
qed

end
