(* ===== verification/Db_Batch.thy ===== *)
theory Db_Batch
  imports Db_Layout Db_Volatile
begin

text \<open>
  Batches of the persisted store: what \<open>upsert\<close> does to the accounts that readers see. The proof follows
  the steps of the store through a small Hoare calculus for stateful fallible computations; its
  invariant combines the layout of the mapped file under the open write transaction with what is needed to undo
  the batch under the committed index.
\<close>

section \<open>Total correctness of stateful computations\<close>

text \<open>The computation returns; success and error states satisfy the two postconditions.\<close>

definition runs :: "('s, 'a) st \<Rightarrow> 's \<Rightarrow> ('a \<Rightarrow> 's \<Rightarrow> bool) \<Rightarrow> ('s \<Rightarrow> bool) \<Rightarrow> bool" where
  "runs f s P E \<longleftrightarrow> (\<exists>s' r. f s = Some (s', r) \<and> (case r of Inl _ \<Rightarrow> E s' | Inr x \<Rightarrow> P x s'))"

lemma runs_bind:
  assumes "runs f s Q E" "\<And>x s'. Q x s' \<Longrightarrow> runs (g x) s' P E"
  shows "runs (st_bind f g) s P E"
proof -
  obtain s1 r where f: "f s = Some (s1, r)" "case r of Inl _ \<Rightarrow> E s1 | Inr x \<Rightarrow> Q x s1" using assms(1) unfolding runs_def by blast
  show ?thesis
  proof (cases r)
    case (Inl e)
    then show ?thesis using f by (simp add: runs_def st_bind_def)
  next
    case (Inr x)
    then have "runs (g x) s1 P E" using f(2) assms(2) by simp
    then show ?thesis using f(1) Inr by (simp add: runs_def st_bind_def)
  qed
qed

lemma runs_cons:
  assumes "runs f s Q E'" "\<And>x s'. Q x s' \<Longrightarrow> P x s'" "\<And>s'. E' s' \<Longrightarrow> E s'"
  shows "runs f s P E"
proof -
  obtain s1 r where f: "f s = Some (s1, r)" "case r of Inl _ \<Rightarrow> E' s1 | Inr x \<Rightarrow> Q x s1" using assms(1) unfolding runs_def by blast
  then have "case r of Inl _ \<Rightarrow> E s1 | Inr x \<Rightarrow> P x s1" using assms(2,3) by (cases r) auto
  then show ?thesis using f(1) unfolding runs_def by blast
qed

lemma runs_simps [simp]:
  "runs (st_return x) s P E \<longleftrightarrow> P x s"
  "runs (st_fail e) s P E \<longleftrightarrow> E s"
  "runs (st_result r) s P E \<longleftrightarrow> (case r of Inl _ \<Rightarrow> E s | Inr x \<Rightarrow> P x s)"
  "runs (st_state h) s P E \<longleftrightarrow> runs (h s) s P E"
  by (auto simp: runs_def st_defs)

lemma runs_modify [simp]: "runs (st_modify f) s P E \<longleftrightarrow> P () (f s)"
  by (simp add: runs_def st_defs)

lemma runs_read: "h s = Some x \<Longrightarrow> P x s \<Longrightarrow> runs (st_read h) s P E"
  by (simp add: runs_def st_read_def)

section \<open>The batch invariant\<close>

abbreviation cursor_of :: "'t pstore \<Rightarrow> nat" where
  "cursor_of s \<equiv> storage_cursor (ps_storage s)"

text \<open>The tables as the batch sees them: of its write transaction once it is open.\<close>

definition cur :: "('t \<Rightarrow> tables) \<Rightarrow> 't pstore \<Rightarrow> tables" where
  "cur tb s = tb (case ps_txn s of None \<Rightarrow> ps_env s | Some t \<Rightarrow> t)"

text \<open>
  The bytes of all accounts of the committed index are still in place, except that the header of
  an account in \<open>D\<close> has been advanced by one.
\<close>

definition undo_ok :: "memory \<Rightarrow> tables \<Rightarrow> pubkey set \<Rightarrow> memory \<Rightarrow> bool" where
  "undo_ok m0 b0 D m \<longleftrightarrow> (\<forall>pk e. tb_accounts b0 pk = Some e \<longrightarrow>
     (let h = storage_at (oo_offset e); n = 8 * span_at m0 (oo_offset e) in
      if pk \<in> D then same_region (n - 4) (h + 4) m0 (h + 4) m \<and>
        (\<exists>v. hdr_sequence m0 h = Some v \<and> hdr_sequence m h = Some (v + 1))
      else same_region n h m0 h m))"

definition base_inv :: "('t \<Rightarrow> tables) \<Rightarrow> bool \<Rightarrow> 't pstore \<Rightarrow> pubkey set \<Rightarrow> 't pstore \<Rightarrow> bool" where
  "base_inv tb g s0 D s \<longleftrightarrow> storage_ok (ps_storage s) \<and> ps_env s = ps_env s0 \<and> cursor_of s0 \<le> cursor_of s \<and>
     (g \<longrightarrow> undo_ok (ps_mem s0) (tb (ps_env s0)) D (ps_mem s))"

definition pstore_ok :: "('t \<Rightarrow> tables) \<Rightarrow> 't pstore \<Rightarrow> bool" where
  "pstore_ok tb s \<longleftrightarrow> storage_ok (ps_storage s) \<and> layout_ok (ps_mem s) (cursor_of s) (tb (ps_env s)) None"

text \<open>The accounts other than \<open>pk\<close> keep their entries and bytes.\<close>

definition others_kept :: "pubkey \<Rightarrow> tables \<Rightarrow> memory \<Rightarrow> tables \<Rightarrow> memory \<Rightarrow> bool" where
  "others_kept pk b m b' m' \<longleftrightarrow> (\<forall>q. q \<noteq> pk \<longrightarrow> tb_accounts b' q = tb_accounts b q \<and>
     (\<forall>e. tb_accounts b q = Some e \<longrightarrow>
        same_region (8 * span_at m (oo_offset e)) (storage_at (oo_offset e)) m (storage_at (oo_offset e)) m'))"

lemma others_keptI:
  assumes "\<And>q. q \<noteq> pk \<Longrightarrow> tb_accounts b' q = tb_accounts b q" "live_same b m m'"
  shows "others_kept pk b m b' m'"
  using assms by (auto simp: others_kept_def live_same_def)

lemma live_same_refl: "layout_ok m c b res \<Longrightarrow> live_same b m m"
  unfolding live_same_def using live_bounds(2) same_region_refl by blast

lemma write_txn_runs:
  assumes L: "lmdb_ok L tb" and b: "base_inv tb g s0 D s"
  shows "runs (write_txn L) s (\<lambda>_ s'. ps_txn s' \<noteq> None \<and> ps_storage s' = ps_storage s \<and> ps_env s' = ps_env s \<and> cur tb s' = cur tb s)
    (base_inv tb g s0 D)"
proof (cases "ps_txn s")
  case None
  show ?thesis unfolding write_txn_def runs_simps(4)
  proof (simp only: None option.case, rule runs_bind)
    show "runs (st_result (lm_begin L (ps_env s))) s (\<lambda>t s'. s' = s \<and> tb t = tb (ps_env s)) (base_inv tb g s0 D)"
      using b lmdb_txn(1) [OF L] by (auto split: sum.split)
    show "runs (st_modify (ps_txn_update (\<lambda>_. Some t))) s' (\<lambda>_ s'. ps_txn s' \<noteq> None \<and> ps_storage s' = ps_storage s \<and> ps_env s' = ps_env s \<and> cur tb s' = cur tb s)
        (base_inv tb g s0 D)" if "s' = s \<and> tb t = tb (ps_env s)" for t s'
      using that None by (simp add: cur_def)
  qed
qed (simp add: write_txn_def)

lemma on_txn_runs:
  assumes "ps_txn s \<noteq> None" "\<And>t. ps_txn s = Some t \<Longrightarrow> (case f t of Inl e \<Rightarrow> E s | Inr (x, t') \<Rightarrow> P x (s\<lparr>ps_txn := Some t'\<rparr>))"
  shows "runs (on_txn f) s P E"
proof -
  obtain t where t: "ps_txn s = Some t" using assms(1) by auto
  from assms(2) [OF t] show ?thesis by (cases "f t") (auto simp: runs_def on_txn_def t split: prod.splits)
qed

lemma cur_txn: "cur tb (s\<lparr>ps_txn := Some t\<rparr>) = tb t"
  by (simp add: cur_def)

lemma cur_cong: "ps_txn s' = ps_txn s \<Longrightarrow> ps_env s' = ps_env s \<Longrightarrow> cur tb s' = cur tb s"
  by (cases "ps_txn s") (simp_all add: cur_def)

lemma cur_storage [simp]: "cur tb (s\<lparr>ps_storage := x\<rparr>) = cur tb s"
  by (rule cur_cong) simp_all

lemma count_simps [simp]:
  "ms_mem (ms_count f x) = ms_mem x" "storage_cursor (ms_count f x) = storage_cursor x" "storage_ok (ms_count f x) = storage_ok x"
  by (simp_all add: ms_count_def storage_cursor_def storage_ok_def file_len_def)

lemma runs_count: "P () (s\<lparr>ps_storage := ms_count f (ps_storage s)\<rparr>) \<Longrightarrow> runs (ps_count f) s P E"
  by (simp add: ps_count_def)

lemma cur_open: "ps_txn s = Some t \<Longrightarrow> cur tb s = tb t"
  by (simp add: cur_def)

section \<open>Keeping the committed accounts\<close>

definition clear_of :: "memory \<Rightarrow> tables \<Rightarrow> nat \<Rightarrow> nat \<Rightarrow> bool" where
  "clear_of m0 b0 off u \<longleftrightarrow> (\<forall>pk e. tb_accounts b0 pk = Some e \<longrightarrow>
     apart (Live pk, oo_offset e, span_at m0 (oo_offset e)) (Reserved, off, u))"

definition regions_same :: "memory \<Rightarrow> tables \<Rightarrow> memory \<Rightarrow> memory \<Rightarrow> bool" where
  "regions_same m0 b0 m m' \<longleftrightarrow> (\<forall>pk e. tb_accounts b0 pk = Some e \<longrightarrow>
     same_region (8 * span_at m0 (oo_offset e)) (storage_at (oo_offset e)) m (storage_at (oo_offset e)) m')"

lemma same_region_shift:
  assumes "same_region n h m h m'" "i + k \<le> n"
  shows "same_region k (h + i) m (h + i) m'"
proof -
  note s = same_region_sub [OF assms]
  obtain bs where "mem_read m (h + i) k = Some bs" using mem_read_Some [of "h + i" k m] s(2) by auto
  then show ?thesis using s(1) by (intro same_regionI) simp_all
qed

lemma hdr_sequence_region:
  assumes "same_region n h m h m'" "4 \<le> n"
  shows "hdr_sequence m' h = hdr_sequence m h"
  using same_region_load [OF assms(1), of 0 4 dec_u32] assms(2) by (simp add: hdr_sequence_def)

lemma undo_okD:
  assumes "undo_ok m0 b0 D m" "tb_accounts b0 pk = Some e"
  shows "pk \<in> D \<Longrightarrow> same_region (8 * span_at m0 (oo_offset e) - 4) (storage_at (oo_offset e) + 4) m0 (storage_at (oo_offset e) + 4) m"
    "pk \<in> D \<Longrightarrow> \<exists>v. hdr_sequence m0 (storage_at (oo_offset e)) = Some v \<and> hdr_sequence m (storage_at (oo_offset e)) = Some (v + 1)"
    "pk \<notin> D \<Longrightarrow> same_region (8 * span_at m0 (oo_offset e)) (storage_at (oo_offset e)) m0 (storage_at (oo_offset e)) m"
  using assms(1) [unfolded undo_ok_def Let_def, rule_format, OF assms(2)] by simp_all

lemma undo_step:
  assumes l: "layout_ok m0 c b0 res" and u: "undo_ok m0 b0 D m" and r: "regions_same m0 b0 m m'"
  shows "undo_ok m0 b0 D m'"
  unfolding undo_ok_def Let_def
proof (intro allI impI)
  fix pk e assume e: "tb_accounts b0 pk = Some e"
  let ?h = "storage_at (oo_offset e)" and ?n = "8 * span_at m0 (oo_offset e)"
  have n: "4 \<le> ?n" using live_bounds(1) [OF l e] by simp
  have s: "same_region ?n ?h m ?h m'" using r e by (simp add: regions_same_def)
  have s4: "same_region (?n - 4) (?h + 4) m (?h + 4) m'" by (rule same_region_shift [OF s]) (use n in simp)
  note q = hdr_sequence_region [OF s n]
  show "if pk \<in> D then same_region (?n - 4) (?h + 4) m0 (?h + 4) m' \<and>
        (\<exists>v. hdr_sequence m0 ?h = Some v \<and> hdr_sequence m' ?h = Some (v + 1)) else same_region ?n ?h m0 ?h m'"
  proof (cases "pk \<in> D")
    case True
    then show ?thesis using undo_okD(1,2) [OF u e True] same_region_trans [OF _ s4] q by simp
  next
    case False
    then show ?thesis using undo_okD(3) [OF u e False] same_region_trans [OF _ s] by simp
  qed
qed

lemma undo_refl: "layout_ok m0 c b0 res \<Longrightarrow> undo_ok m0 b0 {} m0"
  using live_bounds(2) same_region_refl by (fastforce simp: undo_ok_def Let_def)

lemma undo_length:
  assumes l: "layout_ok m0 c b0 res" and u: "undo_ok m0 b0 D m" and e: "tb_accounts b0 pk = Some e"
  shows "storage_at (oo_offset e) + 8 * span_at m0 (oo_offset e) \<le> length m"
proof -
  let ?h = "storage_at (oo_offset e)" and ?n = "8 * span_at m0 (oo_offset e)"
  have n: "4 \<le> ?n" using live_bounds(1) [OF l e] by simp
  have "same_region (?n - 4) (?h + 4) m0 (?h + 4) m \<or> same_region ?n ?h m0 ?h m"
    using undo_okD [OF u e] by blast
  then show ?thesis using same_region_sub(3) [of "?n - 4" "?h + 4" m0 "?h + 4" m 0 "?n - 4"] same_region_sub(3) [of ?n ?h m0 ?h m 0 ?n] n
    by auto
qed

lemma regions_append:
  assumes "layout_ok m0 c b0 res" "undo_ok m0 b0 D m"
  shows "regions_same m0 b0 m (m @ zs)"
  unfolding regions_same_def using undo_length [OF assms] same_region_append by blast

lemma regions_write:
  assumes l: "layout_ok m0 c b0 res" and u: "undo_ok m0 b0 D m" and c: "clear_of m0 b0 off n"
    and a: "agree_outside (8 * off) (8 * (off + n)) m m'"
  shows "regions_same m0 b0 m m'"
  unfolding regions_same_def
proof (intro allI impI)
  fix pk e assume e: "tb_accounts b0 pk = Some e"
  have "apart (Live pk, oo_offset e, span_at m0 (oo_offset e)) (Reserved, off, n)" using c e unfolding clear_of_def by blast
  then have "storage_at (oo_offset e) + 8 * span_at m0 (oo_offset e) \<le> 8 * off \<or> 8 * (off + n) \<le> storage_at (oo_offset e)"
    by (auto simp: apart_def storage_at_eq)
  then show "same_region (8 * span_at m0 (oo_offset e)) (storage_at (oo_offset e)) m (storage_at (oo_offset e)) m'"
    using same_region_agree [OF a] undo_length [OF l u e] by blast
qed

lemma clear_bump:
  assumes l: "layout_ok m0 c0 b0 None" and "c0 \<le> c"
  shows "clear_of m0 b0 c u"
  unfolding clear_of_def
  using layout_okD(2) [OF l live_claim] assms(2) by (fastforce simp: apart_def)

lemma clear_free:
  assumes l: "layout_ok m0 c0 b0 None" and f: "(u, off) \<in> tb_freelist b0"
  shows "clear_of m0 b0 off u"
  unfolding clear_of_def
proof (intro allI impI)
  fix pk e assume e: "tb_accounts b0 pk = Some e"
  have "(Free, off, u) \<in> claims m0 b0 None" using f by (simp add: claims_def)
  then have "apart (Live pk, oo_offset e, span_at m0 (oo_offset e)) (Free, off, u)"
    using all_apartD [OF layout_okD(3) [OF l] live_claim [OF e]] by blast
  then show "apart (Live pk, oo_offset e, span_at m0 (oo_offset e)) (Reserved, off, u)" by (simp add: apart_def)
qed

section \<open>Phases of a batch step\<close>

definition st_inv :: "('t \<Rightarrow> tables) \<Rightarrow> bool \<Rightarrow> 't pstore \<Rightarrow> pubkey set \<Rightarrow> bool \<Rightarrow> (nat \<times> nat) option \<Rightarrow> 't pstore \<Rightarrow> bool" where
  "st_inv tb g s0 D freed res s \<longleftrightarrow> base_inv tb g s0 D s \<and> layout_ok (ps_mem s) (cursor_of s) (cur tb s) res \<and>
     (\<not> freed \<longrightarrow> tb_freelist (cur tb s) \<subseteq> tb_freelist (tb (ps_env s0)))"

lemma base_inv_txn [simp]: "base_inv tb g s0 D (s\<lparr>ps_txn := t\<rparr>) = base_inv tb g s0 D s"
  by (simp add: base_inv_def)

lemma allocate_phase:
  assumes L: "lmdb_ok L tb" and z: "pstore_ok tb s0" and i: "st_inv tb g s0 D freed None s" and t: "ps_txn s \<noteq> None" and f: "g \<longrightarrow> \<not> freed"
  shows "runs (on_txn (index_allocate L u)) s
    (\<lambda>r s1. ps_txn s1 \<noteq> None \<and> ps_storage s1 = ps_storage s \<and> tb_accounts (cur tb s1) = tb_accounts (cur tb s) \<and>
      (case r of None \<Rightarrow> st_inv tb g s0 D freed None s1
       | Some off \<Rightarrow> st_inv tb g s0 D freed (Some (off, u)) s1 \<and> (g \<longrightarrow> clear_of (ps_mem s0) (tb (ps_env s0)) off u)))
    (base_inv tb g s0 D)"
proof (rule on_txn_runs [OF t])
  fix t assume t: "ps_txn s = Some t"
  note c = cur_open [OF t, of tb]
  have b: "base_inv tb g s0 D s" and l: "layout_ok (ps_mem s) (cursor_of s) (tb t) None"
    and fr: "\<not> freed \<longrightarrow> tb_freelist (tb t) \<subseteq> tb_freelist (tb (ps_env s0))"
    using i by (auto simp: st_inv_def c)
  show "case index_allocate L u t of Inl e \<Rightarrow> base_inv tb g s0 D s
    | Inr (r, t') \<Rightarrow> ps_txn (s\<lparr>ps_txn := Some t'\<rparr>) \<noteq> None \<and> ps_storage (s\<lparr>ps_txn := Some t'\<rparr>) = ps_storage s \<and>
        tb_accounts (cur tb (s\<lparr>ps_txn := Some t'\<rparr>)) = tb_accounts (cur tb s) \<and>
        (case r of None \<Rightarrow> st_inv tb g s0 D freed None (s\<lparr>ps_txn := Some t'\<rparr>)
         | Some off \<Rightarrow> st_inv tb g s0 D freed (Some (off, u)) (s\<lparr>ps_txn := Some t'\<rparr>) \<and>
            (g \<longrightarrow> clear_of (ps_mem s0) (tb (ps_env s0)) off u))"
  proof (cases "index_allocate L u t")
    case (Inr p)
    obtain r t' where p: "p = (r, t')" by (cases p)
    note a = index_allocate_ok [OF L Inr [unfolded p]]
    show ?thesis
    proof (cases r)
      case None
      then show ?thesis using a i Inr p t by (simp add: st_inv_def cur_txn c)
    next
      case (Some off)
      then have m: "(u, off) \<in> tb_freelist (tb t)" "tb t' = (tb t)\<lparr>tb_freelist := tb_freelist (tb t) - {(u, off)}\<rparr>" using a by auto
      have "layout_ok (ps_mem s) (cursor_of s) (tb t') (Some (off, u))" by (rule layout_reuse(1) [OF l m])
      moreover have "g \<longrightarrow> clear_of (ps_mem s0) (tb (ps_env s0)) off u"
        using clear_free z m(1) fr f by (auto simp: pstore_ok_def)
      moreover have "\<not> freed \<longrightarrow> tb_freelist (tb t') \<subseteq> tb_freelist (tb (ps_env s0))" using fr m(2) by auto
      ultimately show ?thesis using Inr p Some b m(2) by (simp add: st_inv_def cur_txn c)
    qed
  qed (simp add: b)
qed

lemma storage_runs:
  assumes b: "base_inv tb g s0 D s" and z: "pstore_ok tb s0"
  shows "runs (on_storage (storage_allocate os u)) s
    (\<lambda>off s'. base_inv tb g s0 D s' \<and> off = cursor_of s \<and> cursor_of s' = cursor_of s + u \<and> ps_txn s' = ps_txn s \<and> ps_env s' = ps_env s \<and>
      (\<exists>zs. ps_mem s' = ps_mem s @ zs))
    (base_inv tb g s0 D)"
proof -
  have ok: "storage_ok (ps_storage s)" and e: "ps_env s = ps_env s0" and c: "cursor_of s0 \<le> cursor_of s"
    and u: "g \<longrightarrow> undo_ok (ps_mem s0) (tb (ps_env s0)) D (ps_mem s)" using b by (auto simp: base_inv_def)
  obtain x r where a: "storage_allocate os u (ps_storage s) = Some (x, r)" "storage_ok x" "extended (ps_storage s) x"
    "case r of Inl e \<Rightarrow> storage_cursor x = cursor_of s | Inr off \<Rightarrow> off = cursor_of s \<and> storage_cursor x = cursor_of s + u"
    using allocate_ok [OF ok, of os u] by blast
  obtain zs where zs: "ms_mem x = ps_mem s @ zs" using a(3) by (auto simp: extended_def)
  have "layout_ok (ps_mem s0) (cursor_of s0) (tb (ps_env s0)) None" using z by (simp add: pstore_ok_def)
  then have u': "g \<longrightarrow> undo_ok (ps_mem s0) (tb (ps_env s0)) D (ms_mem x)"
    unfolding zs using u undo_step regions_append by blast
  have b': "base_inv tb g s0 D (s\<lparr>ps_storage := x\<rparr>)"
    using a(2,4) e c u' by (cases r) (auto simp: base_inv_def)
  then show ?thesis using a(1,4) zs by (cases r) (auto simp: runs_def on_storage_def)
qed

lemma place_phase:
  assumes z: "pstore_ok tb s0" and t: "ps_txn s \<noteq> None" and u: "0 < u"
    and i: "case r of None \<Rightarrow> st_inv tb g s0 D freed None s
       | Some off \<Rightarrow> st_inv tb g s0 D freed (Some (off, u)) s \<and> (g \<longrightarrow> clear_of (ps_mem s0) (tb (ps_env s0)) off u)"
  shows "runs (case r of Some off \<Rightarrow> st_bind (ps_count stats_realloc) (\<lambda>_. st_return off)
               | None \<Rightarrow> on_storage (storage_allocate os u)) s
    (\<lambda>off s'. ps_txn s' \<noteq> None \<and> st_inv tb g s0 D freed (Some (off, u)) s' \<and> (g \<longrightarrow> clear_of (ps_mem s0) (tb (ps_env s0)) off u) \<and>
      cur tb s' = cur tb s \<and> (\<exists>zs. ps_mem s' = ps_mem s @ zs))
    (base_inv tb g s0 D)"
proof (cases r)
  case None
  then have b: "base_inv tb g s0 D s" and l: "layout_ok (ps_mem s) (cursor_of s) (cur tb s) None"
    and fr: "\<not> freed \<longrightarrow> tb_freelist (cur tb s) \<subseteq> tb_freelist (tb (ps_env s0))" using i by (auto simp: st_inv_def)
  show ?thesis unfolding None option.case
  proof (rule runs_cons [OF storage_runs [OF b z]])
    fix off s' assume a: "base_inv tb g s0 D s' \<and> off = cursor_of s \<and> cursor_of s' = cursor_of s + u \<and> ps_txn s' = ps_txn s \<and>
      ps_env s' = ps_env s \<and> (\<exists>zs. ps_mem s' = ps_mem s @ zs)"
    then obtain zs where zs: "ps_mem s' = ps_mem s @ zs" by blast
    have cu: "cur tb s' = cur tb s" using a by (intro cur_cong) simp_all
    have "8 * cursor_of s' \<le> length (ps_mem s')" using a by (simp add: base_inv_def storage_ok_mem)
    then have "layout_ok (ps_mem s') (cursor_of s') (cur tb s') (Some (off, u))"
      using layout_bump(1) [OF l u, of zs] a zs cu by simp
    moreover have "clear_of (ps_mem s0) (tb (ps_env s0)) off u"
      using clear_bump z a b by (auto simp: pstore_ok_def base_inv_def)
    ultimately show "ps_txn s' \<noteq> None \<and> st_inv tb g s0 D freed (Some (off, u)) s' \<and> (g \<longrightarrow> clear_of (ps_mem s0) (tb (ps_env s0)) off u) \<and>
      cur tb s' = cur tb s \<and> (\<exists>zs. ps_mem s' = ps_mem s @ zs)"
      using a t cu fr zs by (simp add: st_inv_def)
  qed
next
  case (Some off)
  show ?thesis unfolding Some option.case
  proof (rule runs_bind)
    show "runs (ps_count stats_realloc) s (\<lambda>_ s'. s' = s\<lparr>ps_storage := ms_count stats_realloc (ps_storage s)\<rparr>) (base_inv tb g s0 D)"
      by (rule runs_count) (rule refl)
  qed (use i Some t in \<open>auto simp: st_inv_def base_inv_def\<close>)
qed

lemma runs_bind_assoc:
  assumes "runs (st_bind f g) s Q E" "\<And>x s'. Q x s' \<Longrightarrow> runs (h x) s' P E"
  shows "runs (st_bind f (\<lambda>x. st_bind (g x) h)) s P E"
proof -
  have "st_bind f (\<lambda>x. st_bind (g x) h) = st_bind (st_bind f g) h"
    by (rule ext) (simp add: st_bind_def split: option.split sum.split)
  then show ?thesis using runs_bind [OF assms] by simp
qed

text \<open>Removing an entry and returning its span to the freelist.\<close>

definition released :: "('t \<Rightarrow> tables) \<Rightarrow> pubkey \<Rightarrow> 't pstore \<Rightarrow> 't pstore \<Rightarrow> bool" where
  "released tb pk s s' \<longleftrightarrow> ps_txn s' \<noteq> None \<and> ps_env s' = ps_env s \<and> ps_mem s' = ps_mem s \<and> cursor_of s' = cursor_of s \<and>
     (storage_ok (ps_storage s) \<longrightarrow> storage_ok (ps_storage s')) \<and>
     (case tb_accounts (cur tb s) pk of
        None \<Rightarrow> cur tb s' = cur tb s
      | Some e \<Rightarrow> cur tb s' = (cur tb s)\<lparr>tb_accounts := (tb_accounts (cur tb s))(pk := None),
          tb_programs := tb_programs (cur tb s) - {(oo_owner e, oo_offset e)},
          tb_freelist := insert (span_at (ps_mem s) (oo_offset e), oo_offset e) (tb_freelist (cur tb s))\<rparr>)"

lemma released_inv:
  assumes r: "released tb pk s s'" and i: "st_inv tb g s0 D freed res s"
  shows "st_inv tb g s0 D (freed \<or> tb_accounts (cur tb s) pk \<noteq> None) res s'"
    "tb_accounts (cur tb s') = (tb_accounts (cur tb s))(pk := None)"
    "stored (ps_mem s') (cur tb s') = (stored (ps_mem s) (cur tb s))(pk := None)"
proof -
  have b: "base_inv tb g s0 D s'" using r i by (auto simp: released_def st_inv_def base_inv_def)
  have l: "layout_ok (ps_mem s) (cursor_of s) (cur tb s) res" using i by (simp add: st_inv_def)
  have m: "ps_mem s' = ps_mem s" "cursor_of s' = cursor_of s" using r by (simp_all add: released_def)
  show "st_inv tb g s0 D (freed \<or> tb_accounts (cur tb s) pk \<noteq> None) res s'"
    "tb_accounts (cur tb s') = (tb_accounts (cur tb s))(pk := None)"
    "stored (ps_mem s') (cur tb s') = (stored (ps_mem s) (cur tb s))(pk := None)"
  proof -
    show "tb_accounts (cur tb s') = (tb_accounts (cur tb s))(pk := None)"
      using r by (cases "tb_accounts (cur tb s) pk") (auto simp: released_def)
    show "stored (ps_mem s') (cur tb s') = (stored (ps_mem s) (cur tb s))(pk := None)"
      using r by (cases "tb_accounts (cur tb s) pk") (auto simp: released_def stored_def fun_eq_iff)
    show "st_inv tb g s0 D (freed \<or> tb_accounts (cur tb s) pk \<noteq> None) res s'"
    proof (cases "tb_accounts (cur tb s) pk")
      case None
      then have "cur tb s' = cur tb s" using r by (simp add: released_def)
      then show ?thesis using None b i m by (simp add: st_inv_def)
    next
      case (Some e)
      then have "cur tb s' = (cur tb s)\<lparr>tb_accounts := (tb_accounts (cur tb s))(pk := None),
          tb_programs := tb_programs (cur tb s) - {(oo_owner e, oo_offset e)},
          tb_freelist := insert (span_at (ps_mem s) (oo_offset e), oo_offset e) (tb_freelist (cur tb s))\<rparr>"
        using r by (simp add: released_def)
      from layout_free(1) [OF l Some this] show ?thesis using b Some m by (simp add: st_inv_def)
    qed
  qed
qed

lemma txn_update_runs:
  assumes "ps_txn s \<noteq> None" "\<And>t. ps_txn s = Some t \<Longrightarrow> (case f t of Inl e \<Rightarrow> E s | Inr t' \<Rightarrow> P () (s\<lparr>ps_txn := Some t'\<rparr>))"
  shows "runs (txn_update f) s P E"
  unfolding txn_update_def
proof (rule on_txn_runs [OF assms(1)])
  fix t assume "ps_txn s = Some t"
  from assms(2) [OF this]
  show "case res_bind (f t) (\<lambda>t. Inr ((), t)) of Inl e \<Rightarrow> E s | Inr (x, t') \<Rightarrow> P x (s\<lparr>ps_txn := Some t'\<rparr>)"
    by (cases "f t") simp_all
qed

definition unlinked :: "('t \<Rightarrow> tables) \<Rightarrow> pubkey \<Rightarrow> 't pstore \<Rightarrow> nat option \<Rightarrow> 't pstore \<Rightarrow> bool" where
  "unlinked tb pk s old s1 \<longleftrightarrow> (\<exists>t1. s1 = s\<lparr>ps_txn := Some t1\<rparr> \<and>
     (case tb_accounts (cur tb s) pk of
        None \<Rightarrow> old = None \<and> tb t1 = cur tb s
      | Some e \<Rightarrow> old = Some (oo_offset e) \<and> tb t1 = (cur tb s)\<lparr>tb_accounts := (tb_accounts (cur tb s))(pk := None),
          tb_programs := tb_programs (cur tb s) - {(oo_owner e, oo_offset e)}\<rparr>))"

lemma unlink_runs:
  assumes L: "lmdb_ok L tb" and b: "base_inv tb g s0 D s" and t: "ps_txn s \<noteq> None"
  shows "runs (on_txn (index_delete L pk)) s (unlinked tb pk s) (base_inv tb g s0 D)"
proof (rule on_txn_runs [OF t])
  fix t assume t: "ps_txn s = Some t"
  show "case index_delete L pk t of Inl e \<Rightarrow> base_inv tb g s0 D s | Inr (x, t') \<Rightarrow> unlinked tb pk s x (s\<lparr>ps_txn := Some t'\<rparr>)"
    using index_delete_ok [OF L, of pk t] b cur_open [OF t, of tb]
    by (cases "tb_accounts (tb t) pk") (auto simp: unlinked_def split: sum.split prod.split)
qed

lemma unlinked_None:
  assumes "unlinked tb pk s None s1"
  shows "released tb pk s s1"
  using assms by (cases "tb_accounts (cur tb s) pk") (auto simp: unlinked_def released_def cur_txn)

lemma free_runs:
  assumes L: "lmdb_ok L tb" and i: "st_inv tb g s0 D freed res s" and u: "unlinked tb pk s (Some off) s1"
  shows "runs (persisted_free L off) s1 (\<lambda>_. released tb pk s) (base_inv tb g s0 D)"
proof -
  have b: "base_inv tb g s0 D s" and l: "layout_ok (ps_mem s) (cursor_of s) (cur tb s) res" using i by (auto simp: st_inv_def)
  obtain e t1 where e: "tb_accounts (cur tb s) pk = Some e" and off: "off = oo_offset e" and s1: "s1 = s\<lparr>ps_txn := Some t1\<rparr>"
    and tb1: "tb t1 = (cur tb s)\<lparr>tb_accounts := (tb_accounts (cur tb s))(pk := None),
          tb_programs := tb_programs (cur tb s) - {(oo_owner e, oo_offset e)}\<rparr>"
    using u by (cases "tb_accounts (cur tb s) pk") (auto simp: unlinked_def)
  obtain sp where sp: "borrowed_span (ps_mem s) (storage_at (oo_offset e)) = Some sp"
    by (rule entry_okE [OF layout_okD(1) [OF l e]])
  then have un: "unat sp = span_at (ps_mem s) (oo_offset e)" by (simp add: span_at_def)
  show ?thesis unfolding persisted_free_def
  proof (rule runs_bind [where Q = "\<lambda>x s2. x = sp \<and> s2 = s1"])
    show "runs (st_read (\<lambda>s. borrowed_span (ps_mem s) (storage_at off))) s1 (\<lambda>x s2. x = sp \<and> s2 = s1) (base_inv tb g s0 D)"
      by (rule runs_read [where x = sp]) (simp_all add: s1 sp off)
    show "runs (txn_update (lm_free_put L (unat x) off)) s2 (\<lambda>_. released tb pk s) (base_inv tb g s0 D)" if x: "x = sp \<and> s2 = s1" for x s2
    proof (rule txn_update_runs)
      show "ps_txn s2 \<noteq> None" using x s1 by simp
      show "case lm_free_put L (unat x) off t of Inl e \<Rightarrow> base_inv tb g s0 D s2 | Inr t' \<Rightarrow> released tb pk s (s2\<lparr>ps_txn := Some t'\<rparr>)"
        if "ps_txn s2 = Some t" for t
        using x that s1 b e lmdb_freelist(1) [OF L, of "unat x" off t] un tb1 off
        by (auto simp: released_def cur_txn split: sum.split)
    qed
  qed
qed

lemma release_phase:
  assumes L: "lmdb_ok L tb" and i: "st_inv tb g s0 D freed res s" and t: "ps_txn s \<noteq> None"
  shows "runs (st_bind (on_txn (index_delete L pk)) (\<lambda>old. case old of Some off \<Rightarrow> persisted_free L off | None \<Rightarrow> st_return ())) s
    (\<lambda>_. released tb pk s) (base_inv tb g s0 D)"
proof (rule runs_bind)
  show "runs (on_txn (index_delete L pk)) s (unlinked tb pk s) (base_inv tb g s0 D)"
    by (rule unlink_runs [OF L _ t]) (use i in \<open>simp add: st_inv_def\<close>)
  show "runs (case old of Some off \<Rightarrow> persisted_free L off | None \<Rightarrow> st_return ()) s1 (\<lambda>_. released tb pk s) (base_inv tb g s0 D)"
    if "unlinked tb pk s old s1" for old s1
    using that unlinked_None free_runs [OF L i] by (cases old) simp_all
qed

lemma delete_runs:
  assumes L: "lmdb_ok L tb" and i: "st_inv tb g s0 D freed res s"
  shows "runs (persisted_delete L pk) s (\<lambda>_. released tb pk s) (base_inv tb g s0 D)"
  unfolding persisted_delete_def
proof (rule runs_bind)
  have b: "base_inv tb g s0 D s" using i by (simp add: st_inv_def)
  show "runs (write_txn L) s (\<lambda>_ s'. ps_txn s' \<noteq> None \<and> ps_storage s' = ps_storage s \<and> ps_env s' = ps_env s \<and> cur tb s' = cur tb s)
    (base_inv tb g s0 D)" by (rule write_txn_runs [OF L b])
  fix s1 :: "'a pstore" assume w: "ps_txn s1 \<noteq> None \<and> ps_storage s1 = ps_storage s \<and> ps_env s1 = ps_env s \<and> cur tb s1 = cur tb s"
  then have i1: "st_inv tb g s0 D freed res s1" and b1: "base_inv tb g s0 D s1" using i by (simp_all add: st_inv_def base_inv_def)
  have rel: "released tb pk s1 s2 \<Longrightarrow> released tb pk s s2" for s2
    using w by (cases "tb_accounts (cur tb s) pk") (simp_all add: released_def)
  have cnt: "released tb pk s s2 \<Longrightarrow> released tb pk s (s2\<lparr>ps_storage := ms_count f (ps_storage s2)\<rparr>)" for s2 f
    by (cases "tb_accounts (cur tb s) pk") (simp_all add: released_def)
  show "runs (st_bind (on_txn (index_delete L pk)) (\<lambda>offset. case offset of None \<Rightarrow> st_return ()
      | Some off \<Rightarrow> st_bind (persisted_free L off) (\<lambda>_. ps_count stats_remove))) s1 (\<lambda>_. released tb pk s) (base_inv tb g s0 D)"
  proof (rule runs_bind [OF unlink_runs [OF L b1]])
    fix old s2 assume u: "unlinked tb pk s1 old s2"
    show "runs (case old of None \<Rightarrow> st_return () | Some off \<Rightarrow> st_bind (persisted_free L off) (\<lambda>_. ps_count stats_remove)) s2
      (\<lambda>_. released tb pk s) (base_inv tb g s0 D)"
    proof (cases old)
      case None
      then show ?thesis using rel [OF unlinked_None] u by simp
    next
      case (Some off)
      then have "runs (persisted_free L off) s2 (\<lambda>_. released tb pk s1) (base_inv tb g s0 D)" using free_runs [OF L i1] u by blast
      then show ?thesis unfolding Some option.case by (rule runs_bind) (use rel cnt in \<open>auto intro: runs_count\<close>)
    qed
  qed (use w in blast)
qed

section \<open>One entry\<close>

text \<open>The effect of applying an entry for \<open>pk\<close> that leaves \<open>v\<close> under the key.\<close>

definition applied_to ::
  "('t \<Rightarrow> tables) \<Rightarrow> bool \<Rightarrow> 't pstore \<Rightarrow> pubkey set \<Rightarrow> bool \<Rightarrow> pubkey \<Rightarrow> owned_account option \<Rightarrow> 't pstore \<Rightarrow> 't pstore \<Rightarrow> bool" where
  "applied_to tb g s0 D freed pk v s s' \<longleftrightarrow> st_inv tb g s0 D freed None s' \<and>
     others_kept pk (cur tb s) (ps_mem s) (cur tb s') (ps_mem s') \<and>
     stored (ps_mem s') (cur tb s') = (stored (ps_mem s) (cur tb s))(pk := v)"

lemma stored_cong: "tb_accounts b' = tb_accounts b \<Longrightarrow> stored m b' = stored m b"
  by (simp add: stored_def fun_eq_iff)

lemma serialize_runs:
  assumes z: "pstore_ok tb s0" and i: "base_inv tb g s0 D s" and cl: "g \<longrightarrow> clear_of (ps_mem s0) (tb (ps_env s0)) off u"
    and l: "layout_ok (ps_mem s) (cursor_of s) b (Some (off, u))" and n: "tb_accounts b pk = None"
    and a: "owned_ok acc" "length pk = 32" and u: "u = unat (owned_units acc)"
    and fr: "\<not> freed \<longrightarrow> tb_freelist b \<subseteq> tb_freelist (tb (ps_env s0))"
    and c: "cur tb s = b\<lparr>tb_accounts := (tb_accounts b)(pk \<mapsto> \<lparr>oo_owner = key_tail (ac_owner (oa_core acc)), oo_offset = off\<rparr>),
      tb_programs := insert (key_tail (ac_owner (oa_core acc)), off) (tb_programs b)\<rparr>"
  shows "runs (ps_write (\<lambda>m. owned_serialize m (storage_at off) acc pk)) s
    (\<lambda>_ s'. st_inv tb g s0 D freed None s' \<and> cur tb s' = cur tb s \<and> live_same b (ps_mem s) (ps_mem s') \<and>
      stored (ps_mem s') (cur tb s') = (stored (ps_mem s) b)(pk \<mapsto> acc)) E"
proof -
  have rc: "(Reserved, off, u) \<in> claims (ps_mem s) b (Some (off, u))" by (simp add: claims_def)
  have fit: "storage_at off + 8 * unat (owned_units acc) \<le> length (ps_mem s)"
    using layout_okD(2) [OF l rc] layout_okD(5) [OF l] u by (simp add: storage_at_eq)
  obtain m where m: "owned_serialize (ps_mem s) (storage_at off) acc pk = Some m"
    "agree_outside (storage_at off) (storage_at off + 8 * unat (owned_units acc)) (ps_mem s) m"
    using owned_serialize_ok [OF a fit] by blast
  have ag: "agree_outside (8 * off) (8 * (off + u)) (ps_mem s) m" using m(2) u by (simp add: storage_at_eq distrib_left)
  have ls: "live_same b (ps_mem s) m" by (rule live_same_claim [OF l ag rc]) simp
  have lo: "layout_ok m (cursor_of s) (cur tb s) None" "stored m (cur tb s) = (stored (ps_mem s) b)(pk \<mapsto> acc)"
    using layout_insert [OF l n a u m(1) refl, of "cur tb s"] c by simp_all
  have z': "layout_ok (ps_mem s0) (cursor_of s0) (tb (ps_env s0)) None" using z by (simp add: pstore_ok_def)
  have un: "g \<longrightarrow> undo_ok (ps_mem s0) (tb (ps_env s0)) D m"
    using undo_step [OF z'] regions_write [OF z' _ _ ag] cl i by (auto simp: base_inv_def)
  have "length m = length (ps_mem s)" by (rule agree_outside_length [OF ag])
  then have bi: "base_inv tb g s0 D (set_mem m s)"
    using i un by (auto simp: base_inv_def set_mem_def storage_ok_mem storage_cursor_def)
  have "st_inv tb g s0 D freed None (set_mem m s)"
    using bi lo(1) fr c by (simp add: st_inv_def) (simp add: set_mem_def storage_cursor_def)
  then show ?thesis using m(1) ls lo(2) by (simp add: runs_def ps_write_def st_memory_def set_mem_def)
qed

text \<open>State after a span has been reserved for a new image: only the freelist and the file length differ.\<close>

definition reserved :: "('t \<Rightarrow> tables) \<Rightarrow> bool \<Rightarrow> 't pstore \<Rightarrow> pubkey set \<Rightarrow> bool \<Rightarrow> nat \<Rightarrow> 't pstore \<Rightarrow> nat \<Rightarrow> 't pstore \<Rightarrow> bool" where
  "reserved tb g s0 D freed u s off s' \<longleftrightarrow> ps_txn s' \<noteq> None \<and> st_inv tb g s0 D freed (Some (off, u)) s' \<and>
     (g \<longrightarrow> clear_of (ps_mem s0) (tb (ps_env s0)) off u) \<and> tb_accounts (cur tb s') = tb_accounts (cur tb s) \<and>
     (\<exists>zs. ps_mem s' = ps_mem s @ zs)"

lemma reserve_runs:
  assumes L: "lmdb_ok L tb" and z: "pstore_ok tb s0" and i: "st_inv tb g s0 D freed None s" and f: "g \<longrightarrow> \<not> freed" and u: "0 < u"
    and k: "\<And>off s'. reserved tb g s0 D freed u s off s' \<Longrightarrow> runs (k off) s' P (base_inv tb g s0 D)"
  shows "runs (st_bind (write_txn L) (\<lambda>_. st_bind (on_txn (index_allocate L u)) (\<lambda>reused.
      st_bind (case reused of
                 Some off \<Rightarrow> st_bind (ps_count stats_realloc) (\<lambda>_. st_return off)
               | None \<Rightarrow> on_storage (storage_allocate os u)) k))) s P (base_inv tb g s0 D)"
proof (rule runs_bind)
  have b: "base_inv tb g s0 D s" using i by (simp add: st_inv_def)
  show "runs (write_txn L) s (\<lambda>_ s'. ps_txn s' \<noteq> None \<and> ps_storage s' = ps_storage s \<and> ps_env s' = ps_env s \<and> cur tb s' = cur tb s)
    (base_inv tb g s0 D)" by (rule write_txn_runs [OF L b])
  fix s1 :: "'a pstore" assume w: "ps_txn s1 \<noteq> None \<and> ps_storage s1 = ps_storage s \<and> ps_env s1 = ps_env s \<and> cur tb s1 = cur tb s"
  then have i1: "st_inv tb g s0 D freed None s1" and t1: "ps_txn s1 \<noteq> None" using i by (simp_all add: st_inv_def base_inv_def)
  show "runs (st_bind (on_txn (index_allocate L u)) (\<lambda>reused.
      st_bind (case reused of
                 Some off \<Rightarrow> st_bind (ps_count stats_realloc) (\<lambda>_. st_return off)
               | None \<Rightarrow> on_storage (storage_allocate os u)) k)) s1 P (base_inv tb g s0 D)"
  proof (rule runs_bind [OF allocate_phase [OF L z i1 t1 f]])
    fix r s2 assume a: "ps_txn s2 \<noteq> None \<and> ps_storage s2 = ps_storage s1 \<and> tb_accounts (cur tb s2) = tb_accounts (cur tb s1) \<and>
      (case r of None \<Rightarrow> st_inv tb g s0 D freed None s2
       | Some off \<Rightarrow> st_inv tb g s0 D freed (Some (off, u)) s2 \<and> (g \<longrightarrow> clear_of (ps_mem s0) (tb (ps_env s0)) off u))"
    show "runs (st_bind (case r of
                 Some off \<Rightarrow> st_bind (ps_count stats_realloc) (\<lambda>_. st_return off)
               | None \<Rightarrow> on_storage (storage_allocate os u)) k) s2 P (base_inv tb g s0 D)"
    proof (rule runs_bind [OF place_phase [OF z _ u]])
      show "ps_txn s2 \<noteq> None" "case r of None \<Rightarrow> st_inv tb g s0 D freed None s2
       | Some off \<Rightarrow> st_inv tb g s0 D freed (Some (off, u)) s2 \<and> (g \<longrightarrow> clear_of (ps_mem s0) (tb (ps_env s0)) off u)" using a by blast+
      show "runs (k off) s' P (base_inv tb g s0 D)" if "ps_txn s' \<noteq> None \<and> st_inv tb g s0 D freed (Some (off, u)) s' \<and>
        (g \<longrightarrow> clear_of (ps_mem s0) (tb (ps_env s0)) off u) \<and> cur tb s' = cur tb s2 \<and> (\<exists>zs. ps_mem s' = ps_mem s2 @ zs)" for off s'
        by (rule k) (use that a w in \<open>auto simp: reserved_def\<close>)
    qed
  qed
qed

lemma insert_runs:
  assumes L: "lmdb_ok L tb" and z: "pstore_ok tb s0" and i: "st_inv tb g s0 D freed None s" and f: "g \<longrightarrow> \<not> freed"
    and a: "owned_ok acc" "length pk = 32"
  shows "runs (persisted_insert L os pk acc) s
    (\<lambda>_. applied_to tb g s0 D (freed \<or> tb_accounts (cur tb s) pk \<noteq> None) pk (Some acc) s) (base_inv tb g s0 D)"
  unfolding persisted_insert_def Let_def
proof (rule reserve_runs [OF L z i f])
  let ?u = "unat (owned_units acc)" let ?fr = "freed \<or> tb_accounts (cur tb s) pk \<noteq> None"
  show "0 < ?u" using owned_allocation_bounds(3) [OF a(1)] by simp
  fix off s3 assume "reserved tb g s0 D freed ?u s off s3"
  then obtain zs where r: "ps_txn s3 \<noteq> None" "st_inv tb g s0 D freed (Some (off, ?u)) s3"
    "g \<longrightarrow> clear_of (ps_mem s0) (tb (ps_env s0)) off ?u" "tb_accounts (cur tb s3) = tb_accounts (cur tb s)" "ps_mem s3 = ps_mem s @ zs"
    by (auto simp: reserved_def)
  let ?e = "\<lparr>oo_owner = key_tail (ac_owner (oa_core acc)), oo_offset = off\<rparr>"
  show "runs (st_bind (on_txn (index_delete L pk)) (\<lambda>old. st_bind (case old of Some off \<Rightarrow> persisted_free L off | None \<Rightarrow> st_return ()) (\<lambda>_.
      st_bind (txn_update (index_insert L pk ?e)) (\<lambda>_. ps_write (\<lambda>m. owned_serialize m (storage_at off) acc pk))))) s3
      (\<lambda>_. applied_to tb g s0 D ?fr pk (Some acc) s) (base_inv tb g s0 D)"
  proof (rule runs_bind_assoc [OF release_phase [OF L r(2,1)]])
    fix x s4 assume r4: "released tb pk s3 s4"
    note i4 = released_inv [OF r4 r(2)]
    have t4: "ps_txn s4 \<noteq> None" and m4: "ps_mem s4 = ps_mem s3" using r4 by (simp_all add: released_def)
    let ?b = "cur tb s4"
    have b4: "base_inv tb g s0 D s4" and l4: "layout_ok (ps_mem s4) (cursor_of s4) ?b (Some (off, ?u))"
      and f4: "\<not> ?fr \<longrightarrow> tb_freelist ?b \<subseteq> tb_freelist (tb (ps_env s0))" using i4(1) r(4) by (auto simp: st_inv_def)
    let ?Q = "\<lambda>(_ :: unit) s5. ps_storage s5 = ps_storage s4 \<and> base_inv tb g s0 D s5 \<and>
      cur tb s5 = ?b\<lparr>tb_accounts := (tb_accounts ?b)(pk \<mapsto> ?e), tb_programs := insert (oo_owner ?e, oo_offset ?e) (tb_programs ?b)\<rparr>"
    show "runs (st_bind (txn_update (index_insert L pk ?e)) (\<lambda>_. ps_write (\<lambda>m. owned_serialize m (storage_at off) acc pk))) s4
      (\<lambda>_. applied_to tb g s0 D ?fr pk (Some acc) s) (base_inv tb g s0 D)"
    proof (rule runs_bind [where Q = ?Q], rule txn_update_runs [OF t4])
      show "case index_insert L pk ?e t of Inl e \<Rightarrow> base_inv tb g s0 D s4 | Inr t' \<Rightarrow> ?Q () (s4\<lparr>ps_txn := Some t'\<rparr>)" if "ps_txn s4 = Some t" for t
        using index_insert_ok [OF L, of pk ?e t] b4 cur_open [OF that, of tb] by (auto simp: cur_txn split: sum.split)
      fix y s5 assume q: "?Q y s5"
      have n: "tb_accounts ?b pk = None" using i4(2) by simp
      show "runs (ps_write (\<lambda>m. owned_serialize m (storage_at off) acc pk)) s5
        (\<lambda>_. applied_to tb g s0 D ?fr pk (Some acc) s) (base_inv tb g s0 D)"
      proof (rule runs_cons [OF serialize_runs [where E = "base_inv tb g s0 D", OF z _ r(3) _ n a refl f4]])
        show "base_inv tb g s0 D s5" "layout_ok (ps_mem s5) (cursor_of s5) ?b (Some (off, ?u))" using q l4 by simp_all
        show "cur tb s5 = ?b\<lparr>tb_accounts := (tb_accounts ?b)(pk \<mapsto> ?e), tb_programs := insert (key_tail (ac_owner (oa_core acc)), off) (tb_programs ?b)\<rparr>"
          using q by simp
        fix w s6 assume s6: "st_inv tb g s0 D ?fr None s6 \<and> cur tb s6 = cur tb s5 \<and> live_same ?b (ps_mem s5) (ps_mem s6) \<and>
          stored (ps_mem s6) (cur tb s6) = (stored (ps_mem s5) ?b)(pk \<mapsto> acc)"
        have m5: "ps_mem s5 = ps_mem s @ zs" using q m4 r(5) by simp
        have lay: "layout_ok (ps_mem s) (cursor_of s) (cur tb s) None" using i by (simp add: st_inv_def)
        note la = live_same_append [OF lay, of zs]
        have acc6: "tb_accounts (cur tb s6) = (tb_accounts (cur tb s))(pk \<mapsto> ?e)" using s6 q i4(2) r(4) by simp
        have "others_kept pk (cur tb s) (ps_mem s) (cur tb s6) (ps_mem s6)"
          unfolding others_kept_def
        proof (intro allI impI conjI)
          fix q' e' assume qp: "q' \<noteq> pk"
          show "tb_accounts (cur tb s6) q' = tb_accounts (cur tb s) q'" using acc6 qp by simp
          assume e': "tb_accounts (cur tb s) q' = Some e'"
          have r1: "same_region (8 * span_at (ps_mem s) (oo_offset e')) (storage_at (oo_offset e')) (ps_mem s) (storage_at (oo_offset e')) (ps_mem s @ zs)"
            using la e' unfolding live_same_def by blast
          have sp: "span_at (ps_mem s @ zs) (oo_offset e') = span_at (ps_mem s) (oo_offset e')"
            by (rule entry_frame(2) [OF layout_okD(1) [OF lay e'] r1])
          have "tb_accounts ?b q' = Some e'" using i4(2) r(4) e' qp by simp
          then have "same_region (8 * span_at (ps_mem s5) (oo_offset e')) (storage_at (oo_offset e')) (ps_mem s5) (storage_at (oo_offset e')) (ps_mem s6)"
            using s6 unfolding live_same_def by blast
          then show "same_region (8 * span_at (ps_mem s) (oo_offset e')) (storage_at (oo_offset e')) (ps_mem s) (storage_at (oo_offset e')) (ps_mem s6)"
            using same_region_trans [OF r1] sp m5 by simp
        qed
        moreover have "stored (ps_mem s5) ?b = (stored (ps_mem s) (cur tb s))(pk := None)"
          using i4(3) live_frame(2) [OF lay la] stored_cong [OF r(4)] m4 q r(5) by simp
        ultimately show "applied_to tb g s0 D ?fr pk (Some acc) s s6" using s6 by (auto simp: applied_to_def)
      qed simp
    qed
  qed
qed

section \<open>Publishing borrowed images\<close>

definition entry_view :: "memory \<Rightarrow> tables \<Rightarrow> account_entry \<Rightarrow> owned_account \<Rightarrow> bool" where
  "entry_view m b e acc \<longleftrightarrow> (case e of (pk, a) \<Rightarrow>
     (case sd_cow a of
        Owned ow \<Rightarrow> ow = acc \<and> owned_ok acc \<and> length pk = 32
      | Borrowed bw \<Rightarrow> \<exists>x space old. tb_accounts b pk = Some x \<and> bw_header bw = storage_at (oo_offset x) \<and>
          view_ok m bw space (\<not> shared_dirty a) \<and> borrowed_owned m bw = Some acc \<and> published m (bw_header bw) = Some old \<and>
          (flags_contain (sd_dirty a) DIRTY_OWNER \<or> ac_owner (oa_core acc) = ac_owner (oa_core old))))"

lemma dirty_owner: "flags_contain (sd_dirty a) DIRTY_OWNER \<Longrightarrow> shared_dirty a"
proof -
  assume "flags_contain (sd_dirty a) DIRTY_OWNER"
  then have "(sd_dirty a AND DIRTY_ALL) AND DIRTY_OWNER = DIRTY_OWNER"
    by (simp add: flags_contain_def and.assoc DIRTY_ALL_def DIRTY_OWNER_def)
  then show ?thesis by (auto simp: shared_dirty_def DIRTY_OWNER_def)
qed

lemma commit_effect:
  assumes v: "view_ok m b space (\<not> d)"
  shows "\<exists>m'. borrowed_commit m b = Some m' \<and> agree_outside (bw_header b) (bw_header b + 4) m m' \<and>
    (if d then buffer_ok m' (bw_header b) (bw_version b + 1) space \<and> published m' (bw_header b) = borrowed_owned m b else m' = m)"
proof (cases d)
  case False
  then show ?thesis using commit_clean v by simp
next
  case True
  then have v: "view_ok m b space False" using v by simp
  obtain m' where m': "borrowed_commit m b = Some m'" "buffer_ok m' (bw_header b) (bw_version b + 1) space" "published m' (bw_header b) = borrowed_owned m b"
    using commit_shadow [OF v] by blast
  have "agree_outside (bw_header b) (bw_header b + 4) m m'"
    using m'(1) u32_cell.store_agree [where m = m and p = "bw_header b" and m' = m' and lo = "bw_header b" and hi = "bw_header b + 4"]
    by (auto simp: borrowed_commit_def Let_def bind_eq_Some_conv split: if_splits)
  then show ?thesis using True m' by auto
qed

definition undo_at :: "memory \<Rightarrow> tables \<Rightarrow> pubkey set \<Rightarrow> memory \<Rightarrow> pubkey \<Rightarrow> owner_and_offset \<Rightarrow> bool" where
  "undo_at m0 b0 D m pk e \<longleftrightarrow>
     (let h = storage_at (oo_offset e); n = 8 * span_at m0 (oo_offset e) in
      if pk \<in> D then same_region (n - 4) (h + 4) m0 (h + 4) m \<and>
        (\<exists>v. hdr_sequence m0 h = Some v \<and> hdr_sequence m h = Some (v + 1))
      else same_region n h m0 h m)"

lemma undo_ok_at: "undo_ok m0 b0 D m \<longleftrightarrow> (\<forall>pk e. tb_accounts b0 pk = Some e \<longrightarrow> undo_at m0 b0 D m pk e)"
  by (simp add: undo_ok_def undo_at_def)

text \<open>A header write for one account does not touch what the others need.\<close>

lemma undo_other:
  assumes l: "layout_ok m0 c b0 None" and u: "undo_ok m0 b0 D m" and e: "tb_accounts b0 pk = Some e"
    and a: "agree_outside (storage_at (oo_offset e)) (storage_at (oo_offset e) + 4) m m'"
    and x: "tb_accounts b0 q = Some x" and n: "q \<noteq> pk"
  shows "undo_at m0 b0 D m' q x"
proof -
  let ?h = "storage_at (oo_offset x)" and ?n = "8 * span_at m0 (oo_offset x)"
  have n4: "4 \<le> ?n" using live_bounds(1) [OF l x] by simp
  have "apart (Live q, oo_offset x, span_at m0 (oo_offset x)) (Live pk, oo_offset e, span_at m0 (oo_offset e))"
    using all_apartD [OF layout_okD(3) [OF l] live_claim [OF x] live_claim [OF e]] n by blast
  then have ap: "?h + ?n \<le> storage_at (oo_offset e) \<or> storage_at (oo_offset e) + 4 \<le> ?h"
    using live_bounds(1) [OF l e] by (auto simp: apart_def storage_at_eq)
  have s: "same_region ?n ?h m ?h m'" by (rule same_region_agree [OF a ap undo_length [OF l u x]])
  have s4: "same_region (?n - 4) (?h + 4) m (?h + 4) m'" by (rule same_region_shift [OF s]) (use n4 in simp)
  show ?thesis
    using undo_okD [OF u x] same_region_trans [OF _ s4] same_region_trans [OF _ s] hdr_sequence_region [OF s n4]
    by (simp add: undo_at_def Let_def)
qed

lemma undo_commit:
  assumes l: "layout_ok m0 c b0 None" and u: "undo_ok m0 b0 D m" and e: "tb_accounts b0 pk = Some e" and d: "pk \<notin> D"
    and a: "agree_outside (storage_at (oo_offset e)) (storage_at (oo_offset e) + 4) m m'"
    and h: "hdr_sequence m (storage_at (oo_offset e)) = Some v" "hdr_sequence m' (storage_at (oo_offset e)) = Some (v + 1)"
  shows "undo_ok m0 b0 (insert pk D) m'"
  unfolding undo_ok_at
proof (intro allI impI)
  fix q x assume x: "tb_accounts b0 q = Some x"
  let ?h = "storage_at (oo_offset e)" and ?n = "8 * span_at m0 (oo_offset e)"
  show "undo_at m0 b0 (insert pk D) m' q x"
  proof (cases "q = pk")
    case True
    then have xe: "x = e" using x e by simp
    have n: "4 \<le> ?n" using live_bounds(1) [OF l e] by simp
    have r: "same_region ?n ?h m0 ?h m" using undo_okD(3) [OF u e] d by simp
    have "same_region (?n - 4) (?h + 4) m (?h + 4) m'" by (rule same_region_agree [OF a]) (use undo_length [OF l u e] n in auto)
    then have "same_region (?n - 4) (?h + 4) m0 (?h + 4) m'"
      using same_region_trans [OF same_region_shift [OF r, of 4 "?n - 4"]] n by simp
    moreover have "hdr_sequence m0 ?h = Some v" using hdr_sequence_region [OF r n] h(1) by simp
    ultimately show ?thesis using True h(2) xe by (simp add: undo_at_def Let_def)
  next
    case False
    then show ?thesis using undo_other [OF l u e a x] by (simp add: undo_at_def)
  qed
qed

lemma view_active_published: "view_ok m b space True \<Longrightarrow> borrowed_owned m b = published m (bw_header b)"
  using view_owned published_image by (fastforce simp: view_ok_def)

lemma view_span:
  assumes "layout_ok m c b res" "tb_accounts b pk = Some x" "view_ok m bw space active" "bw_header bw = storage_at (oo_offset x)"
  shows "span_at m (oo_offset x) = 5 + 2 * unat space" "5 + 2 * unat space < 2 ^ 32" "hdr_sequence m (bw_header bw) = Some (bw_version bw)"
proof -
  have h: "hdr_space m (storage_at (oo_offset x)) = Some space" using assms(3,4) by (simp add: view_ok_def buffer_ok_def)
  obtain sequence space' where e: "buffer_ok m (storage_at (oo_offset x)) sequence space'" "5 + 2 * unat space' < 2 ^ 32"
    by (rule entry_okE [OF layout_okD(1) [OF assms(1,2)]])
  then have "space' = space" using h by (simp add: buffer_ok_def)
  then show "5 + 2 * unat space < 2 ^ 32" using e(2) by simp
  then show "span_at m (oo_offset x) = 5 + 2 * unat space" by (rule span_space(2) [OF h])
  show "hdr_sequence m (bw_header bw) = Some (bw_version bw)" using assms(3) by (simp add: view_ok_def buffer_ok_def)
qed

text \<open>Publishing a dirty image of a live account, together with its owner tag.\<close>

lemma publish_layout:
  assumes l: "layout_ok m c b res" and x: "tb_accounts b pk = Some x" and v: "view_ok m bw space False"
    and h: "bw_header bw = storage_at (oo_offset x)" and ow: "borrowed_owned m bw = Some acc"
    and b': "b' = b\<lparr>tb_accounts := (tb_accounts b)(pk \<mapsto> \<lparr>oo_owner = key_tail (ac_owner (oa_core acc)), oo_offset = oo_offset x\<rparr>),
      tb_programs := insert (key_tail (ac_owner (oa_core acc)), oo_offset x) (tb_programs b - {(oo_owner x, oo_offset x)})\<rparr>"
  shows "\<exists>m'. borrowed_commit m bw = Some m' \<and> agree_outside (bw_header bw) (bw_header bw + 4) m m' \<and>
    layout_ok m' c b' res \<and> stored m' b' = (stored m b)(pk \<mapsto> acc) \<and> others_kept pk b m b' m' \<and>
    hdr_sequence m' (bw_header bw) = Some (bw_version bw + 1)"
proof -
  let ?x' = "\<lparr>oo_owner = key_tail (ac_owner (oa_core acc)), oo_offset = oo_offset x\<rparr>"
  obtain m' where m': "borrowed_commit m bw = Some m'" "agree_outside (bw_header bw) (bw_header bw + 4) m m'"
    "buffer_ok m' (bw_header bw) (bw_version bw + 1) space" "published m' (bw_header bw) = Some acc"
    using commit_effect [of m bw space True] v ow by auto
  note sp = view_span [OF l x v h]
  have sp': "span_at m' (oo_offset x) = span_at m (oo_offset x)"
    using span_space(2) [of m' "oo_offset x" space] m'(3) sp(1,2) h by (simp add: buffer_ok_def)
  have a: "agree_outside (storage_at (oo_offset x)) (storage_at (oo_offset x) + 8 * span_at m (oo_offset x)) m m'"
    using agree_outside_mono [OF m'(2)] h sp(1) by simp
  have "same_region 32 (bw_header bw + 8) m (bw_header bw + 8) m'"
    using same_region_agree [OF m'(2), of "bw_header bw + 8" 32] live_bounds(2) [OF l x] sp(1) h by simp
  then have "borrowed_pubkey m' (bw_header bw) = borrowed_pubkey m (bw_header bw)"
    using same_region_sub(1) [of 32 _ m _ m' 0 32] by (simp add: borrowed_pubkey_def STORAGE_UNIT_def KEY_SIZE_def)
  then have pk: "borrowed_pubkey m' (storage_at (oo_offset x)) = Some pk"
    using layout_okD(1) [OF l x] h by (auto elim: entry_okE)
  have eo: "entry_ok m' pk ?x'" unfolding entry_ok_def using m'(3,4) sp(2) pk h by auto
  note p = layout_publish [OF l x a sp' m'(4) [unfolded h] _ eo, of b']
  have lay: "layout_ok m' c b' res" "stored m' b' = (stored m b)(pk \<mapsto> acc)" using p b' by simp_all
  have "others_kept pk b m b' m'" unfolding others_kept_def
    using live_same_others [OF l x a] b' by simp
  then show ?thesis using m' lay by (auto simp: buffer_ok_def)
qed

lemma publish_runs:
  assumes z: "pstore_ok tb s0" and i: "base_inv tb g s0 D s" and l: "layout_ok (ps_mem s) (cursor_of s) b None"
    and fr: "\<not> freed \<longrightarrow> tb_freelist b \<subseteq> tb_freelist (tb (ps_env s0))"
    and x: "tb_accounts b pk = Some x" and x0: "tb_accounts (tb (ps_env s0)) pk = Some x" and d: "pk \<notin> D"
    and v: "view_ok (ps_mem s) bw space False" and h: "bw_header bw = storage_at (oo_offset x)"
    and ow: "borrowed_owned (ps_mem s) bw = Some acc"
    and c: "cur tb s = b\<lparr>tb_accounts := (tb_accounts b)(pk \<mapsto> \<lparr>oo_owner = key_tail (ac_owner (oa_core acc)), oo_offset = oo_offset x\<rparr>),
      tb_programs := insert (key_tail (ac_owner (oa_core acc)), oo_offset x) (tb_programs b - {(oo_owner x, oo_offset x)})\<rparr>"
  shows "runs (ps_write (\<lambda>m. borrowed_commit m bw)) s
    (\<lambda>_ s'. st_inv tb g s0 (insert pk D) freed None s' \<and> cur tb s' = cur tb s \<and> others_kept pk b (ps_mem s) (cur tb s') (ps_mem s') \<and>
      stored (ps_mem s') (cur tb s') = (stored (ps_mem s) b)(pk \<mapsto> acc)) E"
proof -
  obtain m where m: "borrowed_commit (ps_mem s) bw = Some m" "agree_outside (bw_header bw) (bw_header bw + 4) (ps_mem s) m"
    "layout_ok m (cursor_of s) (cur tb s) None" "stored m (cur tb s) = (stored (ps_mem s) b)(pk \<mapsto> acc)"
    "others_kept pk b (ps_mem s) (cur tb s) m" "hdr_sequence m (bw_header bw) = Some (bw_version bw + 1)"
    using publish_layout [OF l x v h ow c] by blast
  have "layout_ok (ps_mem s0) (cursor_of s0) (tb (ps_env s0)) None" using z by (simp add: pstore_ok_def)
  then have un: "g \<longrightarrow> undo_ok (ps_mem s0) (tb (ps_env s0)) (insert pk D) m"
    using undo_commit [OF _ _ x0 d m(2) [unfolded h]] i m(6) view_span(3) [OF l x v h] h by (auto simp: base_inv_def)
  have "length m = length (ps_mem s)" by (rule agree_outside_length [OF m(2)])
  then have "base_inv tb g s0 (insert pk D) (set_mem m s)"
    using i un by (auto simp: base_inv_def set_mem_def storage_ok_mem storage_cursor_def)
  then have "st_inv tb g s0 (insert pk D) freed None (set_mem m s)"
    using m(3) fr c by (simp add: st_inv_def) (simp add: set_mem_def storage_cursor_def)
  then show ?thesis using m(1,4,5) by (simp add: runs_def ps_write_def st_memory_def set_mem_def)
qed

definition dirty_keys :: "account_entry \<Rightarrow> pubkey set \<Rightarrow> pubkey set" where
  "dirty_keys e D = (case e of (pk, a) \<Rightarrow> if shared_dirty a \<and> (\<exists>bw. sd_cow a = Borrowed bw) then insert pk D else D)"

text \<open>What the loop knows about an entry that is still to come.\<close>

definition pending_ok :: "('t \<Rightarrow> tables) \<Rightarrow> 't pstore \<Rightarrow> pubkey set \<Rightarrow> 't pstore \<Rightarrow> account_entry \<Rightarrow> owned_account \<Rightarrow> bool" where
  "pending_ok tb s0 D s e acc \<longleftrightarrow> entry_view (ps_mem s) (cur tb s) e acc \<and> fst e \<notin> D \<and>
     tb_accounts (cur tb s) (fst e) = tb_accounts (tb (ps_env s0)) (fst e)"

lemma pending_borrowed:
  assumes p: "pending_ok tb s0 D s (pk, a) acc" and c: "sd_cow a = Borrowed bw"
  obtains x space old where "tb_accounts (cur tb s) pk = Some x" "tb_accounts (tb (ps_env s0)) pk = Some x" "pk \<notin> D"
    "bw_header bw = storage_at (oo_offset x)" "view_ok (ps_mem s) bw space (\<not> shared_dirty a)" "borrowed_owned (ps_mem s) bw = Some acc"
    "published (ps_mem s) (bw_header bw) = Some old"
    "flags_contain (sd_dirty a) DIRTY_OWNER \<or> ac_owner (oa_core acc) = ac_owner (oa_core old)"
proof -
  obtain x space old where "tb_accounts (cur tb s) pk = Some x" "bw_header bw = storage_at (oo_offset x)"
    "view_ok (ps_mem s) bw space (\<not> shared_dirty a)" "borrowed_owned (ps_mem s) bw = Some acc"
    "published (ps_mem s) (bw_header bw) = Some old" "flags_contain (sd_dirty a) DIRTY_OWNER \<or> ac_owner (oa_core acc) = ac_owner (oa_core old)"
    using p unfolding pending_ok_def entry_view_def prod.case c cow_account.case by blast
  moreover have "tb_accounts (tb (ps_env s0)) pk = tb_accounts (cur tb s) pk" "pk \<notin> D" using p by (simp_all add: pending_ok_def)
  ultimately show ?thesis using that by simp
qed

text \<open>The tables with the owner tag of an account brought up to date.\<close>

definition retagged :: "pubkey \<Rightarrow> owner_and_offset \<Rightarrow> owned_account \<Rightarrow> tables \<Rightarrow> tables" where
  "retagged pk x acc b = b\<lparr>tb_accounts := (tb_accounts b)(pk \<mapsto> \<lparr>oo_owner = key_tail (ac_owner (oa_core acc)), oo_offset = oo_offset x\<rparr>),
      tb_programs := insert (key_tail (ac_owner (oa_core acc)), oo_offset x) (tb_programs b - {(oo_owner x, oo_offset x)})\<rparr>"

lemma retagged_same:
  assumes l: "layout_ok m c b res" and x: "tb_accounts b pk = Some x" and p: "published m (storage_at (oo_offset x)) = Some old"
    and ow: "ac_owner (oa_core acc) = ac_owner (oa_core old)"
  shows "retagged pk x acc b = b"
proof -
  have k: "key_tail (ac_owner (oa_core acc)) = oo_owner x"
    using layout_okD(1) [OF l x] p ow by (auto simp: entry_ok_def)
  have "(oo_owner x, oo_offset x) \<in> tb_programs b"
    using layout_okD(4) [OF l] x by (auto simp: program_entries_def ran_def)
  then show ?thesis using x k by (simp add: retagged_def insert_absorb fun_upd_idem)
qed

lemma retag_runs:
  assumes L: "lmdb_ok L tb" and i: "st_inv tb g s0 D freed None s" and p: "pending_ok tb s0 D s (pk, a) acc"
    and c: "sd_cow a = Borrowed bw" and x: "tb_accounts (cur tb s) pk = Some x"
  shows "runs (if flags_contain (sd_dirty a) DIRTY_OWNER
              then st_bind (write_txn L) (\<lambda>_. st_bind (st_read (\<lambda>s. borrowed_owner (ps_mem s) bw)) (\<lambda>owner.
                   txn_update (index_update_owner L pk (key_tail owner))))
              else st_return ()) s
    (\<lambda>_ s'. ps_storage s' = ps_storage s \<and> base_inv tb g s0 D s' \<and> cur tb s' = retagged pk x acc (cur tb s)) (base_inv tb g s0 D)"
proof -
  obtain space old where e: "bw_header bw = storage_at (oo_offset x)" "borrowed_owned (ps_mem s) bw = Some acc"
    "published (ps_mem s) (bw_header bw) = Some old" "flags_contain (sd_dirty a) DIRTY_OWNER \<or> ac_owner (oa_core acc) = ac_owner (oa_core old)"
    using pending_borrowed [OF p c] x by (metis option.inject)
  have b: "base_inv tb g s0 D s" and l: "layout_ok (ps_mem s) (cursor_of s) (cur tb s) None" using i by (auto simp: st_inv_def)
  have ow: "borrowed_owner (ps_mem s) bw = Some (ac_owner (oa_core acc))"
    using e(2) by (auto simp: borrowed_owned_def borrowed_owner_def bind_eq_Some_conv)
  show ?thesis
  proof (cases "flags_contain (sd_dirty a) DIRTY_OWNER")
    case False
    then have "retagged pk x acc (cur tb s) = cur tb s" using retagged_same [OF l x] e by simp
    then show ?thesis using False b by simp
  next
    case True
    let ?R = "\<lambda>s'. ps_storage s' = ps_storage s \<and> base_inv tb g s0 D s' \<and> cur tb s' = retagged pk x acc (cur tb s)"
    have "runs (st_bind (write_txn L) (\<lambda>_. st_bind (st_read (\<lambda>s. borrowed_owner (ps_mem s) bw)) (\<lambda>owner.
                   txn_update (index_update_owner L pk (key_tail owner))))) s (\<lambda>_. ?R) (base_inv tb g s0 D)"
    proof (rule runs_bind [OF write_txn_runs [OF L b]])
      fix s1 :: "'a pstore" assume w: "ps_txn s1 \<noteq> None \<and> ps_storage s1 = ps_storage s \<and> ps_env s1 = ps_env s \<and> cur tb s1 = cur tb s"
      then have b1: "base_inv tb g s0 D s1" using b by (simp add: base_inv_def)
      show "runs (st_bind (st_read (\<lambda>s. borrowed_owner (ps_mem s) bw)) (\<lambda>owner. txn_update (index_update_owner L pk (key_tail owner)))) s1
        (\<lambda>_. ?R) (base_inv tb g s0 D)"
      proof (rule runs_bind [where Q = "\<lambda>y s2. y = ac_owner (oa_core acc) \<and> s2 = s1"])
        show "runs (st_read (\<lambda>s. borrowed_owner (ps_mem s) bw)) s1 (\<lambda>y s2. y = ac_owner (oa_core acc) \<and> s2 = s1) (base_inv tb g s0 D)"
          by (rule runs_read [where x = "ac_owner (oa_core acc)"]) (simp_all add: w ow)
        show "runs (txn_update (index_update_owner L pk (key_tail y))) s2 (\<lambda>_. ?R) (base_inv tb g s0 D)"
          if y: "y = ac_owner (oa_core acc) \<and> s2 = s1" for y s2
        proof (rule txn_update_runs)
          show "ps_txn s2 \<noteq> None" using y w by simp
          show "case index_update_owner L pk (key_tail y) t of Inl e \<Rightarrow> base_inv tb g s0 D s2 | Inr t' \<Rightarrow> ?R (s2\<lparr>ps_txn := Some t'\<rparr>)"
            if "ps_txn s2 = Some t" for t
            using index_update_owner_ok [OF L, of pk "key_tail y" t] y w that b1 x cur_open [of s2 t tb]
            by (auto simp: cur_txn retagged_def split: sum.split)
        qed
      qed
    qed
    then show ?thesis using True by simp
  qed
qed

lemma others_kept_refl: "layout_ok m c b res \<Longrightarrow> others_kept pk b m b m"
  by (rule others_keptI) (simp_all add: live_same_refl)

lemma update_runs:
  assumes L: "lmdb_ok L tb" and z: "pstore_ok tb s0" and i: "st_inv tb g s0 D freed None s" and p: "pending_ok tb s0 D s (pk, a) acc"
    and c: "sd_cow a = Borrowed bw"
  shows "runs (persisted_update L pk bw (sd_dirty a)) s
    (\<lambda>_. applied_to tb g s0 (dirty_keys (pk, a) D) freed pk (Some acc) s) (base_inv tb g s0 D)"
proof -
  obtain x space old where e: "tb_accounts (cur tb s) pk = Some x" "tb_accounts (tb (ps_env s0)) pk = Some x" "pk \<notin> D"
    "bw_header bw = storage_at (oo_offset x)" "view_ok (ps_mem s) bw space (\<not> shared_dirty a)" "borrowed_owned (ps_mem s) bw = Some acc"
    "published (ps_mem s) (bw_header bw) = Some old"
    "flags_contain (sd_dirty a) DIRTY_OWNER \<or> ac_owner (oa_core acc) = ac_owner (oa_core old)"
    by (rule pending_borrowed [OF p c])
  have l: "layout_ok (ps_mem s) (cursor_of s) (cur tb s) None" and fr: "\<not> freed \<longrightarrow> tb_freelist (cur tb s) \<subseteq> tb_freelist (tb (ps_env s0))"
    using i by (auto simp: st_inv_def)
  show ?thesis unfolding persisted_update_def
  proof (rule runs_bind [OF retag_runs [OF L i p c e(1)]])
    fix y s1 assume s1: "ps_storage s1 = ps_storage s \<and> base_inv tb g s0 D s1 \<and> cur tb s1 = retagged pk x acc (cur tb s)"
    show "runs (if sd_dirty a AND DIRTY_ALL = 0 then st_return ()
      else st_bind (ps_write (\<lambda>m. borrowed_commit m bw)) (\<lambda>_. ps_count stats_commit)) s1
      (\<lambda>_. applied_to tb g s0 (dirty_keys (pk, a) D) freed pk (Some acc) s) (base_inv tb g s0 D)"
    proof (cases "shared_dirty a")
      case False
      then have ao: "acc = old" using e(5,6,7) view_active_published by auto
      have "cur tb s1 = cur tb s" using s1 retagged_same [OF l e(1)] e(4,7) ao by simp
      moreover have "stored (ps_mem s) (cur tb s) pk = Some acc" using e(1,4,7) ao by (simp add: stored_def)
      ultimately have "applied_to tb g s0 D freed pk (Some acc) s s1"
        using s1 i others_kept_refl [OF l] by (simp add: applied_to_def st_inv_def fun_upd_idem)
      then show ?thesis using False by (simp add: shared_dirty_def dirty_keys_def)
    next
      case True
      have "runs (st_bind (ps_write (\<lambda>m. borrowed_commit m bw)) (\<lambda>_. ps_count stats_commit)) s1
        (\<lambda>_. applied_to tb g s0 (insert pk D) freed pk (Some acc) s) (base_inv tb g s0 D)"
      proof (rule runs_bind [OF publish_runs [OF z _ _ fr e(1-3) _ e(4)]])
        show "base_inv tb g s0 D s1" "layout_ok (ps_mem s1) (cursor_of s1) (cur tb s) None" "view_ok (ps_mem s1) bw space False"
          "borrowed_owned (ps_mem s1) bw = Some acc" using s1 l e(5,6) True by simp_all
        show "cur tb s1 = (cur tb s)\<lparr>tb_accounts := (tb_accounts (cur tb s))(pk \<mapsto> \<lparr>oo_owner = key_tail (ac_owner (oa_core acc)), oo_offset = oo_offset x\<rparr>),
          tb_programs := insert (key_tail (ac_owner (oa_core acc)), oo_offset x) (tb_programs (cur tb s) - {(oo_owner x, oo_offset x)})\<rparr>"
          using s1 by (simp add: retagged_def)
        fix w s2 assume "st_inv tb g s0 (insert pk D) freed None s2 \<and> cur tb s2 = cur tb s1 \<and>
          others_kept pk (cur tb s) (ps_mem s1) (cur tb s2) (ps_mem s2) \<and> stored (ps_mem s2) (cur tb s2) = (stored (ps_mem s1) (cur tb s))(pk \<mapsto> acc)"
        then show "runs (ps_count stats_commit) s2 (\<lambda>_. applied_to tb g s0 (insert pk D) freed pk (Some acc) s) (base_inv tb g s0 D)"
          using s1 by (intro runs_count) (auto simp: applied_to_def st_inv_def base_inv_def)
      qed
      then show ?thesis using True c by (simp add: shared_dirty_def dirty_keys_def)
    qed
  qed
qed

lemma released_live_same:
  assumes r: "released tb pk s s1" and x: "tb_accounts (cur tb s) pk = Some x" and l: "layout_ok (ps_mem s1) (cursor_of s1) (cur tb s1) None"
    and a: "agree_outside (storage_at (oo_offset x)) (storage_at (oo_offset x) + 4) (ps_mem s1) m"
  shows "live_same (cur tb s1) (ps_mem s1) m"
proof (rule live_same_claim [OF l])
  let ?u = "span_at (ps_mem s) (oo_offset x)"
  show fc: "(Free, oo_offset x, ?u) \<in> claims (ps_mem s1) (cur tb s1) None" using r x by (simp add: released_def claims_def)
  have "0 < ?u" using layout_okD(2) [OF l fc] by simp
  then show "agree_outside (8 * oo_offset x) (8 * (oo_offset x + ?u)) (ps_mem s1) m"
    using agree_outside_mono [OF a] by (simp add: storage_at_eq)
qed simp

lemma released_others:
  assumes r: "released tb pk s s1" and ls: "live_same (cur tb s1) (ps_mem s1) m" and a: "tb_accounts (cur tb s1) = (tb_accounts (cur tb s))(pk := None)"
  shows "others_kept pk (cur tb s) (ps_mem s) (cur tb s1) m"
proof -
  have m: "ps_mem s1 = ps_mem s" using r by (simp add: released_def)
  have "same_region (8 * span_at (ps_mem s) (oo_offset e)) (storage_at (oo_offset e)) (ps_mem s) (storage_at (oo_offset e)) m"
    if "q \<noteq> pk" "tb_accounts (cur tb s) q = Some e" for q e
    using ls [unfolded live_same_def m, rule_format, of q e] that a by simp
  then show ?thesis using a by (simp add: others_kept_def)
qed

lemma retire_runs:
  assumes z: "pstore_ok tb s0" and i: "st_inv tb g s0 D freed None s" and p: "pending_ok tb s0 D s (pk, a) acc"
    and c: "sd_cow a = Borrowed bw" and r: "released tb pk s s1"
  shows "runs (ps_write (\<lambda>m. borrowed_commit m bw)) s1 (\<lambda>_. applied_to tb g s0 (dirty_keys (pk, a) D) True pk None s) E"
proof -
  obtain x space old where e: "tb_accounts (cur tb s) pk = Some x" "tb_accounts (tb (ps_env s0)) pk = Some x" "pk \<notin> D"
    "bw_header bw = storage_at (oo_offset x)" "view_ok (ps_mem s) bw space (\<not> shared_dirty a)"
    by (rule pending_borrowed [OF p c])
  note ri = released_inv [OF r i]
  have l: "layout_ok (ps_mem s) (cursor_of s) (cur tb s) None" using i by (simp add: st_inv_def)
  have b1: "base_inv tb g s0 D s1" and l1: "layout_ok (ps_mem s1) (cursor_of s1) (cur tb s1) None" using ri(1) by (auto simp: st_inv_def)
  have m1: "ps_mem s1 = ps_mem s" using r by (simp add: released_def)
  obtain m where m: "borrowed_commit (ps_mem s1) bw = Some m" "agree_outside (bw_header bw) (bw_header bw + 4) (ps_mem s1) m"
    "if shared_dirty a then buffer_ok m (bw_header bw) (bw_version bw + 1) space else m = ps_mem s1"
    using commit_effect [OF e(5)] m1 by (auto split: if_splits)
  have ls: "live_same (cur tb s1) (ps_mem s1) m" by (rule released_live_same [OF r e(1) l1 m(2) [unfolded e(4)]])
  have len: "length m = length (ps_mem s1)" by (rule agree_outside_length [OF m(2)])
  have lay: "layout_ok m (cursor_of s1) (cur tb s1) None" by (rule layout_frame [OF l1 ls]) (use layout_okD(5) [OF l1] len in simp)
  have z': "layout_ok (ps_mem s0) (cursor_of s0) (tb (ps_env s0)) None" using z by (simp add: pstore_ok_def)
  have "undo_ok (ps_mem s0) (tb (ps_env s0)) (dirty_keys (pk, a) D) m" if g
  proof (cases "shared_dirty a")
    case True
    have u: "undo_ok (ps_mem s0) (tb (ps_env s0)) D (ps_mem s1)" using b1 that by (simp add: base_inv_def)
    have "undo_ok (ps_mem s0) (tb (ps_env s0)) (insert pk D) m"
      using undo_commit [OF z' u e(2,3) m(2) [unfolded e(4)]] m(3) True view_span(3) [OF l e(1,5,4)] m1 e(4) by (simp add: buffer_ok_def)
    then show ?thesis using True c by (simp add: dirty_keys_def)
  next
    case False
    then show ?thesis using b1 that m(3) by (simp add: dirty_keys_def base_inv_def)
  qed
  then have "base_inv tb g s0 (dirty_keys (pk, a) D) (set_mem m s1)"
    using b1 len by (auto simp: base_inv_def set_mem_def storage_ok_mem storage_cursor_def)
  then have si: "st_inv tb g s0 (dirty_keys (pk, a) D) True None (set_mem m s1)"
    using lay by (simp add: st_inv_def) (simp add: set_mem_def storage_cursor_def)
  have "others_kept pk (cur tb s) (ps_mem s) (cur tb s1) m" by (rule released_others [OF r ls ri(2)])
  then have "applied_to tb g s0 (dirty_keys (pk, a) D) True pk None s (set_mem m s1)"
    using si live_frame(2) [OF l1 ls] ri(3) by (simp add: applied_to_def) (simp add: set_mem_def)
  then show ?thesis using m(1) by (simp add: runs_def ps_write_def st_memory_def)
qed

definition persisted_entry :: "owned_account \<Rightarrow> owned_account option" where
  "persisted_entry acc = (if persistent_mode (ac_mode (oa_core acc)) then Some acc else None)"

text \<open>Entries that allocate a span, and entries that return one.\<close>

definition inserts :: "account_entry \<Rightarrow> owned_account \<Rightarrow> bool" where
  "inserts e acc \<longleftrightarrow> persistent_mode (ac_mode (oa_core acc)) \<and> (\<exists>ow. sd_cow (snd e) = Owned ow)"

definition frees :: "tables \<Rightarrow> account_entry \<Rightarrow> owned_account \<Rightarrow> bool" where
  "frees b e acc \<longleftrightarrow> tb_accounts b (fst e) \<noteq> None \<and>
     \<not> (persistent_mode (ac_mode (oa_core acc)) \<and> (\<exists>bw. sd_cow (snd e) = Borrowed bw))"

lemma entry_mode: "entry_view m b (pk, a) acc \<Longrightarrow> shared_mode m a = Some (ac_mode (oa_core acc))"
  by (cases "sd_cow a") (auto simp: entry_view_def shared_mode_def shared_core_def borrowed_owned_def bind_eq_Some_conv)

lemma applied_freed: "applied_to tb g s0 D freed pk v s s' \<Longrightarrow> freed \<longrightarrow> freed' \<Longrightarrow> applied_to tb g s0 D freed' pk v s s'"
  by (auto simp: applied_to_def st_inv_def)

lemma apply_runs:
  assumes L: "lmdb_ok L tb" and z: "pstore_ok tb s0" and i: "st_inv tb g s0 D freed None s" and p: "pending_ok tb s0 D s e acc"
    and f: "g \<longrightarrow> inserts e acc \<longrightarrow> \<not> freed"
  shows "runs (persisted_apply L os e) s
    (\<lambda>_. applied_to tb g s0 (dirty_keys e D) (freed \<or> frees (tb (ps_env s0)) e acc) (fst e) (persisted_entry acc) s) (base_inv tb g s0 D)"
proof -
  obtain pk a where e: "e = (pk, a)" by (cases e)
  have p': "pending_ok tb s0 D s (pk, a) acc" using p e by simp
  have a0: "tb_accounts (tb (ps_env s0)) pk = tb_accounts (cur tb s) pk" using p' by (simp add: pending_ok_def)
  let ?per = "persistent_mode (ac_mode (oa_core acc))" and ?fr = "freed \<or> frees (tb (ps_env s0)) e acc"
  let ?P = "\<lambda>(_ :: unit). applied_to tb g s0 (dirty_keys e D) ?fr (fst e) (persisted_entry acc) s"
  have md: "shared_mode (ps_mem s) a = Some (ac_mode (oa_core acc))" using p' entry_mode by (auto simp: pending_ok_def)
  have b: "base_inv tb g s0 D s" using i by (simp add: st_inv_def)
  show ?thesis unfolding persisted_apply_def e prod.case Let_def unfolding e [symmetric]
  proof (rule runs_bind [where Q = "\<lambda>y s1. y = ?per \<and> s1 = s"])
    show "runs (st_read (\<lambda>s. do { mode \<leftarrow> shared_mode (ps_mem s) a; requires_persistence mode })) s (\<lambda>y s1. y = ?per \<and> s1 = s) (base_inv tb g s0 D)"
      by (rule runs_read [where x = ?per]) (simp_all add: md requires_persistence_eq)
    fix y s1 assume "y = ?per \<and> s1 = s"
    then have y: "y = ?per" "s1 = s" by simp_all
    show "runs (if \<not> y then st_bind (persisted_delete L pk) (\<lambda>_. case sd_cow a of Borrowed acc \<Rightarrow> ps_write (\<lambda>m. borrowed_commit m acc) | Owned _ \<Rightarrow> st_return ())
      else case sd_cow a of Borrowed acc \<Rightarrow> persisted_update L pk acc (sd_dirty a) | Owned acc \<Rightarrow> persisted_insert L os pk acc) s1 ?P (base_inv tb g s0 D)"
    proof (cases ?per)
      case False
      have "runs (st_bind (persisted_delete L pk) (\<lambda>_. case sd_cow a of Borrowed acc \<Rightarrow> ps_write (\<lambda>m. borrowed_commit m acc) | Owned _ \<Rightarrow> st_return ())) s
        ?P (base_inv tb g s0 D)"
      proof (rule runs_bind [OF delete_runs [OF L i]])
        fix w s2 assume r: "released tb pk s s2"
        show "runs (case sd_cow a of Borrowed acc \<Rightarrow> ps_write (\<lambda>m. borrowed_commit m acc) | Owned _ \<Rightarrow> st_return ()) s2 ?P (base_inv tb g s0 D)"
        proof (cases "sd_cow a")
          case (Borrowed bw)
          have "?fr" using p' a0 Borrowed False e by (auto simp: pending_ok_def entry_view_def frees_def)
          then show ?thesis unfolding Borrowed cow_account.case
            using retire_runs [OF z i p' Borrowed r] False e by (simp add: persisted_entry_def)
        next
          case (Owned ow)
          note ri = released_inv [OF r i]
          have "live_same (cur tb s2) (ps_mem s2) (ps_mem s2)" using ri(1) live_same_refl by (auto simp: st_inv_def)
          then have ok: "others_kept pk (cur tb s) (ps_mem s) (cur tb s2) (ps_mem s2)" by (rule released_others [OF r _ ri(2)])
          have "applied_to tb g s0 D ?fr pk None s s2"
            using ri ok a0 False e by (simp add: applied_to_def frees_def st_inv_def)
          then show ?thesis using Owned False e by (simp add: dirty_keys_def persisted_entry_def)
        qed
      qed
      then show ?thesis using y False by simp
    next
      case True
      show ?thesis
      proof (cases "sd_cow a")
        case (Borrowed bw)
        have "runs (persisted_update L pk bw (sd_dirty a)) s ?P (base_inv tb g s0 D)"
          by (rule runs_cons [OF update_runs [OF L z i p' Borrowed]]) (use True e in \<open>auto simp: persisted_entry_def elim!: applied_freed\<close>)
        then show ?thesis using y True Borrowed by simp
      next
        case (Owned ow)
        then have ow: "ow = acc" "owned_ok acc" "length pk = 32" using p' by (auto simp: pending_ok_def entry_view_def)
        have ins: "inserts e acc" using True Owned e by (simp add: inserts_def)
        have "runs (persisted_insert L os pk acc) s ?P (base_inv tb g s0 D)"
          by (rule runs_cons [OF insert_runs [OF L z i _ ow(2,3)]])
            (use f ins True Owned e a0 in \<open>auto simp: persisted_entry_def dirty_keys_def frees_def elim!: applied_freed\<close>)
        then show ?thesis using y True Owned ow(1) by simp
      qed
    qed
  qed
qed

end
