(* ===== verification/Db_Memdb.thy ===== *)
theory Db_Memdb
  imports Db_Index
begin

text \<open>
  A database in memory that has the LMDB interface: three lists of entries. Every theorem about the store holds
  for any implementation of the interface; this one shows that the interface can be implemented and lets the store run on
  concrete inputs. The commit can be made to fail.
\<close>

record memdb =
  md_accounts :: "(pubkey \<times> owner_and_offset) list"
  md_programs :: "(key_tail \<times> nat) list"
  md_freelist :: "(nat \<times> nat) list"

definition memdb_tables :: "memdb \<Rightarrow> tables" where
  "memdb_tables t = \<lparr>tb_accounts = map_of (md_accounts t), tb_programs = set (md_programs t), tb_freelist = set (md_freelist t)\<rparr>"

definition duplicates :: "('k \<times> 'v) list \<Rightarrow> 'k \<Rightarrow> 'v list" where
  "duplicates ps k = remdups (map snd (filter (\<lambda>p. fst p = k) ps))"

definition memdb_lmdb :: "bool \<Rightarrow> memdb lmdb" where
  "memdb_lmdb commits =
     \<lparr>lm_begin = Inr,
      lm_commit = (\<lambda>t. if commits then Inr t else Inl IOError),
      lm_force_sync = (\<lambda>t. Inr ()),
      lm_acc_get = (\<lambda>t k. Inr (map_of (md_accounts t) k)),
      lm_acc_put = (\<lambda>k d t. Inr (t\<lparr>md_accounts := (k, d) # filter (\<lambda>p. fst p \<noteq> k) (md_accounts t)\<rparr>)),
      lm_acc_delete = (\<lambda>k t. Inr (t\<lparr>md_accounts := filter (\<lambda>p. fst p \<noteq> k) (md_accounts t)\<rparr>)),
      lm_acc_iter = (\<lambda>t. if distinct (map fst (md_accounts t)) then Inr (md_accounts t) else Inl Corruption),
      lm_prog_put = (\<lambda>k d t. Inr (t\<lparr>md_programs := (k, d) # md_programs t\<rparr>)),
      lm_prog_delete_one = (\<lambda>k d t. Inr (t\<lparr>md_programs := filter (\<lambda>p. p \<noteq> (k, d)) (md_programs t)\<rparr>)),
      lm_prog_duplicates = (\<lambda>t k. Inr (case duplicates (md_programs t) k of [] \<Rightarrow> None | d # ds \<Rightarrow> Some (d # ds))),
      lm_free_get = (\<lambda>t u. Inr (map_of (md_freelist t) u)),
      lm_free_put = (\<lambda>u d t. Inr (t\<lparr>md_freelist := (u, d) # md_freelist t\<rparr>)),
      lm_free_delete_one = (\<lambda>u d t. Inr (t\<lparr>md_freelist := filter (\<lambda>p. p \<noteq> (u, d)) (md_freelist t)\<rparr>)),
      lm_free_iter = (\<lambda>t. Inr (remdups (md_freelist t)))\<rparr>"

lemma duplicates_set: "set (duplicates ps k) = {d. (k, d) \<in> set ps}" "distinct (duplicates ps k)"
  by (force simp: duplicates_def)+

lemma map_of_without: "map_of (filter (\<lambda>p. fst p \<noteq> k) ps) = (map_of ps)(k := None)"
  by (induction ps) (auto simp: fun_eq_iff)

lemma duplicates_answer:
  "case (case duplicates ps k of [] \<Rightarrow> None | d # ds \<Rightarrow> Some (d # ds)) of
     None \<Rightarrow> {d. (k, d) \<in> set ps} = {}
   | Some ds \<Rightarrow> ds \<noteq> [] \<and> distinct ds \<and> set ds = {d. (k, d) \<in> set ps}"
  using duplicates_set [of ps k] by (cases "duplicates ps k") (simp_all only: list.case option.case, auto)

lemma memdb_ok: "lmdb_ok (memdb_lmdb commits) memdb_tables"
  unfolding lmdb_ok_def
proof (intro conjI allI)
  fix k
  show "answers (\<lambda>t. lm_prog_duplicates (memdb_lmdb commits) t k) memdb_tables
    (\<lambda>b x. case x of None \<Rightarrow> {d. (k, d) \<in> tb_programs b} = {} | Some ds \<Rightarrow> ds \<noteq> [] \<and> distinct ds \<and> set ds = {d. (k, d) \<in> tb_programs b})"
    unfolding answers_def memdb_lmdb_def memdb_tables_def lmdb.simps tables.simps sum.inject
    using duplicates_answer [where k = k] by blast
next
  fix u
  show "answers (\<lambda>t. lm_free_get (memdb_lmdb commits) t u) memdb_tables
    (\<lambda>b x. case x of None \<Rightarrow> \<forall>d. (u, d) \<notin> tb_freelist b | Some d \<Rightarrow> (u, d) \<in> tb_freelist b)"
    by (force simp: answers_def memdb_lmdb_def memdb_tables_def map_of_eq_None_iff split: option.split dest: map_of_SomeD)
qed (auto simp: updates_def answers_def memdb_lmdb_def memdb_tables_def map_of_without fun_eq_iff split: if_splits)

end
