(* ===== verification/Db_Upsert.thy ===== *)
theory Db_Upsert
  imports Db_Batch Db_Memdb "HOL-Library.Code_Target_Numeral"
begin

text \<open>
  The whole \<open>upsert\<close> of the persisted store: the loop over the batch, the commit of the index and the rollback of
  published headers after a failure. A successful batch is the pointwise update of the visible accounts; a failed batch
  that never allocates after it has freed a span leaves them as they were.
\<close>

section \<open>The loop over the batch\<close>

type_synonym planned = "account_entry \<times> owned_account"

definition batch_ok :: "('t \<Rightarrow> tables) \<Rightarrow> 't pstore \<Rightarrow> pubkey set \<Rightarrow> 't pstore \<Rightarrow> planned list \<Rightarrow> bool" where
  "batch_ok tb s0 D s xs \<longleftrightarrow> (\<forall>x \<in> set xs. pending_ok tb s0 D s (fst x) (snd x)) \<and> distinct (map (\<lambda>x. fst (fst x)) xs)"

text \<open>No span is allocated after one has been freed by the same batch.\<close>

fun reuse_safe :: "tables \<Rightarrow> bool \<Rightarrow> planned list \<Rightarrow> bool" where
  "reuse_safe b freed [] \<longleftrightarrow> True"
| "reuse_safe b freed ((e, acc) # xs) \<longleftrightarrow> (inserts e acc \<longrightarrow> \<not> freed) \<and> reuse_safe b (freed \<or> frees b e acc) xs"

text \<open>The accounts after the batch: every entry sets or removes its key.\<close>

fun batch_result :: "planned list \<Rightarrow> (pubkey \<Rightarrow> owned_account option) \<Rightarrow> pubkey \<Rightarrow> owned_account option" where
  "batch_result [] f = f"
| "batch_result ((e, acc) # xs) f = batch_result xs (f(fst e := persisted_entry acc))"

definition dirty_set :: "account_entry list \<Rightarrow> pubkey set" where
  "dirty_set es = {pk. \<exists>a bw. (pk, a) \<in> set es \<and> shared_dirty a \<and> sd_cow a = Borrowed bw}"

lemma dirty_set_simps: "dirty_set [] = {}" "dirty_set (e # es) \<union> D = dirty_set es \<union> dirty_keys e D"
  by (auto simp: dirty_set_def dirty_keys_def split: prod.splits)

lemma pending_kept:
  assumes i: "st_inv tb g s0 D freed None s" and p: "pending_ok tb s0 D s e acc"
    and a: "applied_to tb g s0 (dirty_keys x D) f (fst x) v s s'" and n: "fst e \<noteq> fst x"
  shows "pending_ok tb s0 (dirty_keys x D) s' e acc"
proof -
  obtain pk sd where e: "e = (pk, sd)" by (cases e)
  have ok: "tb_accounts (cur tb s') pk = tb_accounts (cur tb s) pk"
    "tb_accounts (cur tb s) pk = Some y \<Longrightarrow>
      same_region (8 * span_at (ps_mem s) (oo_offset y)) (storage_at (oo_offset y)) (ps_mem s) (storage_at (oo_offset y)) (ps_mem s')" for y
    using a n e by (auto simp: applied_to_def others_kept_def)
  have l: "layout_ok (ps_mem s) (cursor_of s) (cur tb s) None" using i by (simp add: st_inv_def)
  have "entry_view (ps_mem s') (cur tb s') (pk, sd) acc"
  proof (cases "sd_cow sd")
    case (Owned ow)
    then show ?thesis using p e by (simp add: pending_ok_def entry_view_def)
  next
    case (Borrowed bw)
    obtain y space old where y: "tb_accounts (cur tb s) pk = Some y" "bw_header bw = storage_at (oo_offset y)"
      "view_ok (ps_mem s) bw space (\<not> shared_dirty sd)" "borrowed_owned (ps_mem s) bw = Some acc" "published (ps_mem s) (bw_header bw) = Some old"
      "flags_contain (sd_dirty sd) DIRTY_OWNER \<or> ac_owner (oa_core acc) = ac_owner (oa_core old)"
      using pending_borrowed [OF p [unfolded e] Borrowed] by metis
    note r = ok(2) [OF y(1), folded y(2)] and sp = view_span(1) [OF l y(1,3,2)]
    have bb: "buffer_bytes space \<le> 8 * span_at (ps_mem s) (oo_offset y)" using sp by simp
    have bo: "buffer_ok (ps_mem s) (bw_header bw) (bw_version bw) space" using y(3) by (simp add: view_ok_def)
    note v = same_region_view(1,2) [OF r y(3) bb] same_region_buffer(2) [OF r bo bb]
    show ?thesis unfolding entry_view_def prod.case Borrowed cow_account.case
      using y v ok(1) by auto
  qed
  then show ?thesis using p n e ok(1) by (auto simp: pending_ok_def dirty_keys_def split: prod.splits)
qed

lemma apply_all_runs:
  assumes L: "lmdb_ok L tb" and z: "pstore_ok tb s0"
  shows "st_inv tb g s0 D freed None s \<Longrightarrow> batch_ok tb s0 D s xs \<Longrightarrow> g \<longrightarrow> reuse_safe (tb (ps_env s0)) freed xs \<Longrightarrow>
    \<exists>s' n r. apply_all L os (map fst xs) k s = Some (s', k + n, r) \<and> n \<le> length xs \<and>
      base_inv tb g s0 (dirty_set (take n (map fst xs)) \<union> D) s' \<and>
      (r = Inr () \<longrightarrow> n = length xs \<and> layout_ok (ps_mem s') (cursor_of s') (cur tb s') None \<and>
         stored (ps_mem s') (cur tb s') = batch_result xs (stored (ps_mem s) (cur tb s)))"
proof (induction xs arbitrary: D freed s k)
  case Nil
  then show ?case by (simp add: st_inv_def dirty_set_simps)
next
  case (Cons x xs)
  obtain e acc where x: "x = (e, acc)" by (cases x)
  have p: "pending_ok tb s0 D s e acc" using Cons.prems(2) x by (simp add: batch_ok_def)
  have f: "g \<longrightarrow> inserts e acc \<longrightarrow> \<not> freed" using Cons.prems(3) x by simp
  let ?D = "dirty_keys e D" and ?f = "freed \<or> frees (tb (ps_env s0)) e acc"
  obtain s1 r where r: "persisted_apply L os e s = Some (s1, r)"
    "case r of Inl _ \<Rightarrow> base_inv tb g s0 D s1 | Inr _ \<Rightarrow> applied_to tb g s0 ?D ?f (fst e) (persisted_entry acc) s s1"
    using apply_runs [OF L z Cons.prems(1) p f, of os] unfolding runs_def by blast
  show ?case
  proof (cases r)
    case (Inl err)
    then show ?thesis using r x by (intro exI [of _ s1] exI [of _ 0]) (simp add: dirty_set_simps)
  next
    case (Inr u)
    then have a: "applied_to tb g s0 ?D ?f (fst e) (persisted_entry acc) s s1" using r(2) by simp
    have i1: "st_inv tb g s0 ?D ?f None s1" using a by (simp add: applied_to_def)
    have "batch_ok tb s0 ?D s1 xs" unfolding batch_ok_def
    proof (intro conjI ballI)
      fix y assume y: "y \<in> set xs"
      have "fst (fst y) \<noteq> fst e" "pending_ok tb s0 D s (fst y) (snd y)"
        using Cons.prems(2) x y by (force simp: batch_ok_def)+
      then show "pending_ok tb s0 ?D s1 (fst y) (snd y)" using pending_kept [OF Cons.prems(1) _ a] by blast
    qed (use Cons.prems(2) in \<open>simp add: batch_ok_def\<close>)
    then obtain s2 n r2 where s2: "apply_all L os (map fst xs) (k + 1) s1 = Some (s2, k + 1 + n, r2)" "n \<le> length xs"
      "base_inv tb g s0 (dirty_set (take n (map fst xs)) \<union> ?D) s2"
      "r2 = Inr () \<longrightarrow> n = length xs \<and> layout_ok (ps_mem s2) (cursor_of s2) (cur tb s2) None \<and>
         stored (ps_mem s2) (cur tb s2) = batch_result xs (stored (ps_mem s1) (cur tb s1))"
      using Cons.IH [OF i1, of "k + 1"] Cons.prems(3) x by auto
    have "stored (ps_mem s1) (cur tb s1) = (stored (ps_mem s) (cur tb s))(fst e := persisted_entry acc)"
      using a by (simp add: applied_to_def)
    then show ?thesis using s2 r(1) Inr x
      by (intro exI [of _ s2] exI [of _ "Suc n"] exI [of _ r2]) (simp add: dirty_set_simps)
  qed
qed

section \<open>Rollback\<close>

lemma u32_bytes:
  assumes "mem_load 4 dec_u32 m p = Some w"
  shows "mem_read m p 4 = Some (enc_u32 w)"
proof -
  obtain bs where bs: "mem_read m p 4 = Some bs" "w = of_nat (le_nat bs)"
    using assms by (auto simp: mem_load_def dec_u32_def bind_eq_Some_conv)
  have n: "length bs = 4" by (rule mem_readD(1) [OF bs(1)])
  then have "unat w = le_nat bs" using bs(2) le_nat_bound [of bs] by (simp add: unat_of_nat)
  then have "enc_u32 w = bs" using nat_le_le_nat [of bs] n by (simp add: enc_u32_def)
  then show ?thesis using bs(1) by simp
qed

lemma undo_rollback:
  assumes l: "layout_ok m0 c b0 None" and u: "undo_ok m0 b0 D m" and e: "tb_accounts b0 pk = Some e" and d: "pk \<in> D"
    and h: "bw_header bw = storage_at (oo_offset e)"
  shows "\<exists>m'. borrowed_rollback m bw = Some m' \<and> length m' = length m \<and> undo_ok m0 b0 (D - {pk}) m'"
proof -
  let ?h = "storage_at (oo_offset e)" and ?n = "8 * span_at m0 (oo_offset e)"
  have n: "?n = 4 + (?n - 4)" using live_bounds(1) [OF l e] by simp
  obtain v where v: "hdr_sequence m0 ?h = Some v" "hdr_sequence m ?h = Some (v + 1)" using undo_okD(2) [OF u e d] by blast
  have len: "?h + 4 \<le> length m" using undo_length [OF l u e] n by simp
  obtain m' where m': "store_u32 m ?h v = Some m'" using u32_cell.store_Some [OF _ len] by auto
  have a: "agree_outside ?h (?h + 4) m m'" by (rule u32_cell.store_agree [OF _ m']) simp_all
  have "mem_read m' ?h 4 = Some (enc_u32 v)" by (rule u32_bytes) (simp add: u32_cell.load_store_same [OF _ m'])
  moreover have "mem_read m0 ?h 4 = Some (enc_u32 v)" using v(1) by (intro u32_bytes) (simp add: hdr_sequence_def)
  moreover have "same_region (?n - 4) (?h + 4) m (?h + 4) m'"
    by (rule same_region_agree [OF a]) (use undo_length [OF l u e] n in auto)
  then have "same_region (?n - 4) (?h + 4) m0 (?h + 4) m'" by (rule same_region_trans [OF undo_okD(1) [OF u e d]])
  ultimately have r: "same_region ?n ?h m0 ?h m'"
    by (subst n) (auto simp: same_region_def mem_read_split simp del: le_add_diff_inverse)
  have "undo_at m0 b0 (D - {pk}) m' q x" if x: "tb_accounts b0 q = Some x" for q x
    using undo_other [OF l u e a x] r x e by (cases "q = pk") (simp_all add: undo_at_def Let_def)
  then have "undo_ok m0 b0 (D - {pk}) m'" by (simp add: undo_ok_at)
  then show ?thesis using m' v(2) h agree_outside_length [OF a] by (simp add: borrowed_rollback_def)
qed

definition rollback_ok :: "tables \<Rightarrow> account_entry list \<Rightarrow> bool" where
  "rollback_ok b0 es \<longleftrightarrow> (\<forall>pk a bw. (pk, a) \<in> set es \<longrightarrow> sd_cow a = Borrowed bw \<longrightarrow>
     (\<exists>x. tb_accounts b0 pk = Some x \<and> bw_header bw = storage_at (oo_offset x))) \<and> distinct (map fst es)"

lemma rollback_restores:
  assumes l: "layout_ok m0 c b0 None"
  shows "undo_ok m0 b0 (dirty_set es) m \<Longrightarrow> rollback_ok b0 es \<Longrightarrow>
    \<exists>m'. persisted_rollback (map snd es) m = Some m' \<and> length m' = length m \<and> undo_ok m0 b0 {} m'"
proof (induction es arbitrary: m)
  case Nil
  then show ?case by (simp add: dirty_set_simps)
next
  case (Cons e es)
  obtain pk a where e: "e = (pk, a)" by (cases e)
  have ok: "rollback_ok b0 es" and new: "pk \<notin> fst ` set es" using Cons.prems(2) e by (auto simp: rollback_ok_def)
  have ds: "dirty_set (e # es) = dirty_keys e (dirty_set es)"
    by (auto simp: e dirty_set_def dirty_keys_def)
  show ?case
  proof (cases "\<exists>bw. shared_dirty a \<and> sd_cow a = Borrowed bw")
    case False
    then have "dirty_set (e # es) = dirty_set es" using ds e by (auto simp: dirty_keys_def)
    then show ?thesis using Cons.IH [of m] Cons.prems(1) ok False e by (cases "sd_cow a") auto
  next
    case True
    then obtain bw where bw: "shared_dirty a" "sd_cow a = Borrowed bw" by blast
    obtain x where x: "tb_accounts b0 pk = Some x" "bw_header bw = storage_at (oo_offset x)"
      using Cons.prems(2) [unfolded rollback_ok_def, THEN conjunct1, rule_format, OF _ bw(2), of pk] e by auto
    have d: "dirty_set (e # es) = insert pk (dirty_set es)" "pk \<notin> dirty_set es"
      using ds bw e new by (auto simp: dirty_keys_def) (force simp: dirty_set_def)
    obtain m1 where m1: "borrowed_rollback m bw = Some m1" "length m1 = length m" "undo_ok m0 b0 (dirty_set (e # es) - {pk}) m1"
      using undo_rollback [OF l Cons.prems(1) x(1) _ x(2)] d(1) by auto
    then show ?thesis using Cons.IH [of m1] ok bw e d by simp
  qed
qed

lemma undone:
  assumes z: "pstore_ok tb s0" and b: "base_inv tb g s0 D s" and u: "undo_ok (ps_mem s0) (tb (ps_env s0)) {} m" and n: "length m = length (ps_mem s)"
  shows "pstore_ok tb (set_mem m (s\<lparr>ps_txn := None\<rparr>))" "stored m (tb (ps_env s)) = stored (ps_mem s0) (tb (ps_env s0))"
proof -
  have l: "layout_ok (ps_mem s0) (cursor_of s0) (tb (ps_env s0)) None" using z by (simp add: pstore_ok_def)
  have env: "ps_env s = ps_env s0" and c: "cursor_of s0 \<le> cursor_of s" and ok: "storage_ok (ps_storage s)" using b by (simp_all add: base_inv_def)
  have ls: "live_same (tb (ps_env s0)) (ps_mem s0) m" using u by (simp add: undo_ok_def live_same_def Let_def)
  have c8: "8 * cursor_of s \<le> length m" using ok n by (simp add: storage_ok_mem)
  have "layout_ok m (cursor_of s0) (tb (ps_env s0)) None" by (rule layout_frame [OF l ls]) (use c8 c in simp)
  then have "layout_ok m (cursor_of s) (tb (ps_env s0)) None" using c c8 by (fastforce simp: layout_ok_def)
  moreover have "storage_ok (ps_storage (set_mem m (s\<lparr>ps_txn := None\<rparr>)))"
    using ok n by (simp add: set_mem_def storage_ok_mem storage_cursor_def)
  ultimately show "pstore_ok tb (set_mem m (s\<lparr>ps_txn := None\<rparr>))"
    using env by (simp add: pstore_ok_def) (simp add: set_mem_def storage_cursor_def)
  show "stored m (tb (ps_env s)) = stored (ps_mem s0) (tb (ps_env s0))" using live_frame(2) [OF l ls] env by simp
qed

section \<open>The whole batch\<close>

text \<open>What a caller hands over: distinct keys, and views taken from the committed state.\<close>

definition batch_ready :: "('t \<Rightarrow> tables) \<Rightarrow> 't pstore \<Rightarrow> planned list \<Rightarrow> bool" where
  "batch_ready tb s xs \<longleftrightarrow> (\<forall>x \<in> set xs. entry_view (ps_mem s) (tb (ps_env s)) (fst x) (snd x)) \<and> distinct (map (\<lambda>x. fst (fst x)) xs)"

abbreviation visible :: "('t \<Rightarrow> tables) \<Rightarrow> 't pstore \<Rightarrow> pubkey \<Rightarrow> owned_account option" where
  "visible tb s \<equiv> stored (ps_mem s) (tb (ps_env s))"

lemma start_inv:
  assumes z: "pstore_ok tb s"
  shows "st_inv tb g s {} False None (s\<lparr>ps_txn := None\<rparr>)"
  using z undo_refl [of "ps_mem s" "cursor_of s"] by (auto simp: st_inv_def base_inv_def pstore_ok_def cur_def)

lemma start_batch: "batch_ready tb s xs \<Longrightarrow> batch_ok tb s {} (s\<lparr>ps_txn := None\<rparr>) xs"
  by (auto simp: batch_ready_def batch_ok_def pending_ok_def cur_def)

lemma ready_rollback: "batch_ready tb s xs \<Longrightarrow> rollback_ok (tb (ps_env s)) (take n (map fst xs))"
proof -
  assume b: "batch_ready tb s xs"
  have "\<exists>x. tb_accounts (tb (ps_env s)) pk = Some x \<and> bw_header bw = storage_at (oo_offset x)"
    if i: "(pk, a) \<in> set (take n (map fst xs))" "sd_cow a = Borrowed bw" for pk a bw
  proof -
    from in_set_takeD [OF i(1)] obtain acc where "((pk, a), acc) \<in> set xs" by auto
    then have "entry_view (ps_mem s) (tb (ps_env s)) (pk, a) acc" using b by (force simp: batch_ready_def)
    then show ?thesis using i(2) by (auto simp: entry_view_def)
  qed
  moreover have "distinct (map fst (take n (map fst xs)))" using b by (simp add: batch_ready_def take_map [symmetric] comp_def)
  ultimately show ?thesis by (auto simp: rollback_ok_def)
qed

lemma upsert_runs:
  assumes L: "lmdb_ok L tb" and z: "pstore_ok tb s" and b: "batch_ready tb s xs" and g: "g \<longrightarrow> reuse_safe (tb (ps_env s)) False xs"
  shows "(\<exists>s'. persisted_upsert L os (map fst xs) s = Some (s', Inr ()) \<and> pstore_ok tb s' \<and> visible tb s' = batch_result xs (visible tb s) \<and>
       (g \<longrightarrow> undo_ok (ps_mem s) (tb (ps_env s)) (dirty_set (map fst xs)) (ps_mem s'))) \<or>
    (\<exists>s1 n e. persisted_upsert L os (map fst xs) s =
         do { m \<leftarrow> persisted_rollback (map snd (take n (map fst xs))) (ps_mem s1); Some (set_mem m (s1\<lparr>ps_txn := None\<rparr>), Inl e) } \<and>
       base_inv tb g s (dirty_set (take n (map fst xs))) s1)"
proof -
  obtain s1 n r where a: "apply_all L os (map fst xs) 0 (s\<lparr>ps_txn := None\<rparr>) = Some (s1, n, r)"
    "base_inv tb g s (dirty_set (take n (map fst xs))) s1"
    "r = Inr () \<longrightarrow> n = length xs \<and> layout_ok (ps_mem s1) (cursor_of s1) (cur tb s1) None \<and>
       stored (ps_mem s1) (cur tb s1) = batch_result xs (visible tb s)"
    using apply_all_runs [OF L z start_inv [OF z] start_batch [OF b] g, of os 0] by (auto simp: cur_def)
  show ?thesis
  proof (cases "finish_txn L r s1")
    case (Pair s2 r2)
    show ?thesis
    proof (cases r2)
      case (Inl e)
      then have "s2 = s1" using Pair by (auto simp: finish_txn_def split: option.splits sum.splits)
      then show ?thesis using a Pair Inl by (intro disjI2 exI [of _ s1] exI [of _ n] exI [of _ e]) (simp add: persisted_upsert_def)
    next
      case (Inr u)
      have r: "r = Inr ()" using Pair Inr by (auto simp: finish_txn_def split: option.splits sum.splits)
      have s2: "ps_storage s2 = ps_storage s1" "tb (ps_env s2) = cur tb s1"
        using Pair Inr r lmdb_txn(2) [OF L] by (auto simp: finish_txn_def cur_def split: option.splits sum.splits)
      have "persisted_upsert L os (map fst xs) s = Some (s2\<lparr>ps_txn := None\<rparr>, Inr ())" using a(1) Pair Inr by (simp add: persisted_upsert_def)
      moreover have "pstore_ok tb (s2\<lparr>ps_txn := None\<rparr>)" using a(2,3) r s2 by (simp add: pstore_ok_def base_inv_def)
      moreover have "g \<longrightarrow> undo_ok (ps_mem s) (tb (ps_env s)) (dirty_set (map fst xs)) (ps_mem s2)"
        using a(2,3) r s2 by (simp add: base_inv_def)
      ultimately show ?thesis using a(3) r s2 by auto
    qed
  qed
qed

lemma upsert_atomic:
  assumes "lmdb_ok L tb" "pstore_ok tb s" "batch_ready tb s xs" "reuse_safe (tb (ps_env s)) False xs"
  shows "\<exists>s' r. persisted_upsert L os (map fst xs) s = Some (s', r) \<and> pstore_ok tb s' \<and>
    visible tb s' = (case r of Inr _ \<Rightarrow> batch_result xs (visible tb s) | Inl _ \<Rightarrow> visible tb s) \<and>
    (r = Inr () \<longrightarrow> undo_ok (ps_mem s) (tb (ps_env s)) (dirty_set (map fst xs)) (ps_mem s'))"
proof -
  consider (ok) s' where "persisted_upsert L os (map fst xs) s = Some (s', Inr ())" "pstore_ok tb s'" "visible tb s' = batch_result xs (visible tb s)"
      "undo_ok (ps_mem s) (tb (ps_env s)) (dirty_set (map fst xs)) (ps_mem s')"
    | (failed) s1 n e where "persisted_upsert L os (map fst xs) s =
         do { m \<leftarrow> persisted_rollback (map snd (take n (map fst xs))) (ps_mem s1); Some (set_mem m (s1\<lparr>ps_txn := None\<rparr>), Inl e) }"
       "base_inv tb True s (dirty_set (take n (map fst xs))) s1"
    using upsert_runs [OF assms(1-3), of True os] assms(4) by blast
  then show ?thesis
  proof cases
    case ok
    then show ?thesis by (intro exI [of _ s'] exI [of _ "Inr ()"]) simp
  next
    case failed
    have "undo_ok (ps_mem s) (tb (ps_env s)) (dirty_set (take n (map fst xs))) (ps_mem s1)" using failed(2) by (simp add: base_inv_def)
    then obtain m where m: "persisted_rollback (map snd (take n (map fst xs))) (ps_mem s1) = Some m" "length m = length (ps_mem s1)"
      "undo_ok (ps_mem s) (tb (ps_env s)) {} m"
      using rollback_restores [OF _ _ ready_rollback [OF assms(3)]] assms(2) unfolding pstore_ok_def by blast
    note u = undone [OF assms(2) failed(2) m(3,2)]
    show ?thesis using failed(1) m(1) u
      by (intro exI [of _ "set_mem m (s1\<lparr>ps_txn := None\<rparr>)"] exI [of _ "Inl e"]) (simp, simp add: set_mem_def)
  qed
qed

section \<open>A sample store\<close>

definition good_os :: os where
  "good_os = \<lparr>os_set_len = \<lambda>_. Inr (), os_flush = \<lambda>_ _. Inr ()\<rparr>"

text \<open>A file with room for one account without data.\<close>

definition sample_store :: "memdb pstore" where
  "sample_store = \<lparr>ps_storage = \<lparr>ms_meta = fresh_meta\<lparr>dm_len := 168 + 256\<rparr>, ms_mem = replicate 168 0\<rparr>,
     ps_env = \<lparr>md_accounts = [], md_programs = [], md_freelist = []\<rparr>, ps_txn = None\<rparr>"

definition sample_persisted :: "u64 \<Rightarrow> owned_account" where
  "sample_persisted n = default_owned\<lparr>oa_core := default_core\<lparr>ac_lamports := n, ac_owner := replicate 32 1, ac_mode := Delegated\<rparr>\<rparr>"

abbreviation sample_entry :: "u8 \<Rightarrow> owned_account \<Rightarrow> planned" where
  "sample_entry k acc \<equiv> ((replicate 32 k, shared_from_owned acc), acc)"

lemma sample_persistent: "persistent_mode (ac_mode (oa_core (sample_persisted n)))"
  by (simp add: sample_persisted_def persistent_mode_def)

lemma sample_store_ok: "pstore_ok memdb_tables sample_store"
  by (simp add: pstore_ok_def sample_store_def storage_ok_mem storage_cursor_def fresh_meta_def layout_ok_def memdb_tables_def
      claims_def all_apart_def program_entries_def)

lemma owned_ready:
  assumes "\<And>x. x \<in> set xs \<Longrightarrow> sd_cow (snd (fst x)) = Owned (snd x) \<and> owned_ok (snd x) \<and> length (fst (fst x)) = 32"
    and "distinct (map (\<lambda>x. fst (fst x)) xs)"
  shows "batch_ready tb s xs"
  using assms by (force simp: batch_ready_def entry_view_def)

lemma sample_ok: "owned_ok (sample_persisted n)" "owned_ok (sample_owned n (replicate 32 1))"
  by (simp_all add: owned_ok_def sample_persisted_def sample_owned_def core_ok_def default_owned_def)

lemma sample_insert:
  "case persisted_upsert (memdb_lmdb True) good_os [(replicate 32 7, shared_from_owned (sample_persisted 5))] sample_store of
     Some (_, Inr _) \<Rightarrow> True | _ \<Rightarrow> False"
  by code_simp

text \<open>The sample file after one account has been stored.\<close>

definition filled_store :: "memdb pstore" where
  "filled_store = (case persisted_upsert (memdb_lmdb True) good_os [(replicate 32 7, shared_from_owned (sample_persisted 5))] sample_store of
     Some (s, _) \<Rightarrow> s | None \<Rightarrow> sample_store)"

lemma filled_upsert:
  "persisted_upsert (memdb_lmdb True) good_os [(replicate 32 7, shared_from_owned (sample_persisted 5))] sample_store = Some (filled_store, Inr ())"
  using sample_insert by (auto simp: filled_store_def split: option.splits prod.splits sum.splits)

lemma filled_ok: "pstore_ok memdb_tables filled_store"
  "visible memdb_tables filled_store = (visible memdb_tables sample_store)(replicate 32 7 \<mapsto> sample_persisted 5)"
proof -
  have b: "batch_ready memdb_tables sample_store [sample_entry 7 (sample_persisted 5)]"
    by (rule owned_ready) (simp_all add: shared_from_owned_def sample_ok)
  show "pstore_ok memdb_tables filled_store"
    "visible memdb_tables filled_store = (visible memdb_tables sample_store)(replicate 32 7 \<mapsto> sample_persisted 5)"
    using upsert_runs [OF memdb_ok sample_store_ok b, of False True good_os] filled_upsert
    by (auto simp: persisted_entry_def sample_persistent split: Option.bind_splits)
qed

text \<open>
  C25. A batch that \<open>upsert\<close> reports as stored turns the visible accounts into the result of the batch: every entry with a
  persistent mode is found under its key with exactly its fields and data, every other entry is removed, all other keys keep
  their account; and the new store satisfies the layout invariant again (live, free and reserved spans disjoint, the owner
  table in step). This holds for any LMDB and operating system that may fail at any call.
\<close>

theorem upsert_stores_batch:
  assumes "lmdb_ok L tb" "pstore_ok tb s" "batch_ready tb s xs" "persisted_upsert L os (map fst xs) s = Some (s', Inr ())"
  shows "pstore_ok tb s' \<and> visible tb s' = batch_result xs (visible tb s)"
  using upsert_runs [OF assms(1-3), of False os] assms(4) by (auto split: Option.bind_splits)

theorem upsert_stores_batch_witness:
  "\<exists>s'. persisted_upsert (memdb_lmdb True) good_os [(replicate 32 7, shared_from_owned (sample_persisted 5))] sample_store = Some (s', Inr ()) \<and>
     visible memdb_tables s' (replicate 32 7) = Some (sample_persisted 5)"
proof -
  let ?xs = "[sample_entry 7 (sample_persisted 5)]"
  have u: "persisted_upsert (memdb_lmdb True) good_os (map fst ?xs) sample_store = Some (filled_store, Inr ())" using filled_upsert by simp
  have "batch_ready memdb_tables sample_store ?xs" by (rule owned_ready) (simp_all add: shared_from_owned_def sample_ok)
  from upsert_stores_batch [OF memdb_ok sample_store_ok this u] show ?thesis
    using u by (simp add: persisted_entry_def sample_persistent)
qed

text \<open>
  C26. All or nothing: \<open>upsert\<close> of a batch that allocates no span after freeing one always returns, with a valid store. On
  success it shows the result of the batch. On any error of the index, the commit or the file growth, after the headers
  published by the batch are rolled back, every key shows exactly the account it showed before.
\<close>

theorem upsert_all_or_nothing:
  assumes "lmdb_ok L tb" "pstore_ok tb s" "batch_ready tb s xs" "reuse_safe (tb (ps_env s)) False xs"
  shows "\<exists>s' r. persisted_upsert L os (map fst xs) s = Some (s', r) \<and> pstore_ok tb s' \<and>
    visible tb s' = (case r of Inr _ \<Rightarrow> batch_result xs (visible tb s) | Inl _ \<Rightarrow> visible tb s)"
  using upsert_atomic [OF assms, of os] by blast

theorem upsert_all_or_nothing_witness:
  "\<exists>s' r. persisted_upsert (memdb_lmdb False) good_os [(replicate 32 7, shared_from_owned (sample_persisted 5))] sample_store = Some (s', r) \<and>
     pstore_ok memdb_tables s' \<and> r \<noteq> Inr () \<and> visible memdb_tables s' (replicate 32 7) = None"
proof -
  let ?xs = "[sample_entry 7 (sample_persisted 5)]"
  have b: "batch_ready memdb_tables sample_store ?xs" by (rule owned_ready) (simp_all add: shared_from_owned_def sample_ok)
  have v: "visible memdb_tables sample_store (replicate 32 7) = None" by (simp add: stored_def sample_store_def memdb_tables_def)
  have f: "case persisted_upsert (memdb_lmdb False) good_os [(replicate 32 7, shared_from_owned (sample_persisted 5))] sample_store of
      Some (_, Inl _) \<Rightarrow> True | _ \<Rightarrow> False" by code_simp
  obtain s' r where r: "persisted_upsert (memdb_lmdb False) good_os (map fst ?xs) sample_store = Some (s', r)" "pstore_ok memdb_tables s'"
    "visible memdb_tables s' = (case r of Inr _ \<Rightarrow> batch_result ?xs (visible memdb_tables sample_store) | Inl _ \<Rightarrow> visible memdb_tables sample_store)"
    using upsert_all_or_nothing [OF memdb_ok [of False] sample_store_ok b, of good_os] by auto
  then show ?thesis using v f by (cases r) auto
qed

lemma sample_reuse:
  "case persisted_upsert (memdb_lmdb False) good_os
      [(replicate 32 7, shared_from_owned (sample_owned 1 (replicate 32 1))), (replicate 32 8, shared_from_owned (sample_persisted 9))] filled_store of
     Some (s', Inl _) \<Rightarrow> visible memdb_tables s' (replicate 32 7) = Some (sample_persisted 9)
   | _ \<Rightarrow> False"
  by code_simp

text \<open>
  C27. The condition on reuse in the previous property cannot be dropped. A batch may remove one account and then insert
  another of the same size, which takes over the span just freed; when the commit fails, the index still points the
  removed account at that span, and no header is rolled back because both entries are owned. So from a valid store a failed
  \<open>upsert\<close> can leave another account's image under a key, and the account it showed before is gone.
\<close>

theorem failed_upsert_can_lose_account:
  "\<exists>s s' xs e pk acc other. pstore_ok memdb_tables s \<and> batch_ready memdb_tables s xs \<and>
     persisted_upsert (memdb_lmdb False) good_os (map fst xs) s = Some (s', Inl e) \<and>
     visible memdb_tables s pk = Some acc \<and> visible memdb_tables s' pk = Some other \<and> other \<noteq> acc"
proof -
  let ?xs = "[sample_entry 7 (sample_owned 1 (replicate 32 1)), sample_entry 8 (sample_persisted 9)]"
  have "batch_ready memdb_tables filled_store ?xs" by (rule owned_ready) (auto simp: shared_from_owned_def sample_ok)
  moreover obtain s' e where "persisted_upsert (memdb_lmdb False) good_os (map fst ?xs) filled_store = Some (s', Inl e)"
    "visible memdb_tables s' (replicate 32 7) = Some (sample_persisted 9)"
    using sample_reuse by (auto split: option.splits prod.splits sum.splits)
  moreover have "visible memdb_tables filled_store (replicate 32 7) = Some (sample_persisted 5)" by (simp add: filled_ok)
  moreover have "sample_persisted 9 \<noteq> sample_persisted 5" by (simp add: sample_persisted_def default_owned_def default_core_def)
  ultimately show ?thesis using filled_ok(1) by blast
qed

end
