(* ===== verification/Db_Query.thy ===== *)
theory Db_Query
  imports Db_Upsert
begin

text \<open>
  Reading the persisted store: lookup, iteration over the accounts of a program, and the checksum that a synchronous flush
  records and validation compares.
\<close>

section \<open>Lookup\<close>

text \<open>A transaction that shows the committed tables: a fresh one does, and so does a cached one while nobody commits.\<close>

definition current_txn :: "'t lmdb \<Rightarrow> ('t \<Rightarrow> tables) \<Rightarrow> 't option \<Rightarrow> 't pstore \<Rightarrow> bool" where
  "current_txn L tb txn s \<longleftrightarrow> (\<forall>t. read_txn L txn s = Inr t \<longrightarrow> tb t = tb (ps_env s))"

lemma current_None: "lmdb_ok L tb \<Longrightarrow> current_txn L tb None s"
  using lmdb_txn(1) by (auto simp: current_txn_def read_txn_def)

lemma index_lookup:
  assumes L: "lmdb_ok L tb" and c: "current_txn L tb txn s" and t: "read_txn L txn s = Inr t" and i: "index_offset L pk t = Inr x"
  shows "x = map_option oo_offset (tb_accounts (tb (ps_env s)) pk)"
  using index_offset_ok [OF L i] c t by (simp add: current_txn_def)

lemma clean_entry:
  assumes "entry_ok m pk x" "tb_accounts b pk = Some x"
  shows "\<exists>bw acc. borrowed_init m (storage_at (oo_offset x)) = Some bw \<and> published m (storage_at (oo_offset x)) = Some acc \<and>
    entry_view m b (pk, shared_from_borrowed bw) acc"
proof -
  obtain sequence space acc where e: "buffer_ok m (storage_at (oo_offset x)) sequence space" "published m (storage_at (oo_offset x)) = Some acc"
    by (rule entry_okE [OF assms(1)])
  obtain bw where b: "borrowed_init m (storage_at (oo_offset x)) = Some bw" "bw_header bw = storage_at (oo_offset x)"
    "view_ok m bw space True" "borrowed_owned m bw = Some acc"
    using init_view [OF e(1)] e(2) by auto
  then show ?thesis using e(2) assms(2)
    by (auto simp: entry_view_def shared_from_borrowed_def shared_dirty_def)
qed

lemma clean_view: "entry_view m b (pk, shared_from_borrowed bw) acc \<Longrightarrow> borrowed_owned m bw = Some acc"
  by (auto simp: entry_view_def shared_from_borrowed_def)

lemma load_runs:
  assumes L: "lmdb_ok L tb" and z: "pstore_ok tb s" and c: "current_txn L tb txn s"
  shows "runs (persisted_load L txn pk) s
    (\<lambda>x s'. ps_mem s' = ps_mem s \<and> ps_env s' = ps_env s \<and> cursor_of s' = cursor_of s \<and> storage_ok (ps_storage s') \<and>
      (case snd x of None \<Rightarrow> visible tb s pk = None
       | Some bw \<Rightarrow> \<exists>acc. visible tb s pk = Some acc \<and> entry_view (ps_mem s) (tb (ps_env s)) (pk, shared_from_borrowed bw) acc))
    (\<lambda>s'. s' = s)"
  unfolding persisted_load_def runs_simps
proof (rule runs_bind [where Q = "\<lambda>t s'. s' = s \<and> read_txn L txn s = Inr t"])
  show "runs (st_result (read_txn L txn s)) s (\<lambda>t s'. s' = s \<and> read_txn L txn s = Inr t) (\<lambda>s'. s' = s)"
    by (cases "read_txn L txn s") (simp_all add: runs_def st_defs)
  fix t s1 assume "s1 = s \<and> read_txn L txn s = Inr t"
  then have t: "s1 = s" "read_txn L txn s = Inr t" by simp_all
  show "runs (st_bind (st_result (index_offset L pk t)) (\<lambda>offset. case offset of None \<Rightarrow> st_return (t, None)
     | Some off \<Rightarrow> st_bind (ps_count stats_read) (\<lambda>_. st_bind (st_read (\<lambda>s. borrowed_init (ps_mem s) (storage_at off))) (\<lambda>b. st_return (t, Some b)))))
     s1 (\<lambda>x s'. ps_mem s' = ps_mem s \<and> ps_env s' = ps_env s \<and> cursor_of s' = cursor_of s \<and> storage_ok (ps_storage s') \<and>
      (case snd x of None \<Rightarrow> visible tb s pk = None
       | Some bw \<Rightarrow> \<exists>acc. visible tb s pk = Some acc \<and> entry_view (ps_mem s) (tb (ps_env s)) (pk, shared_from_borrowed bw) acc))
    (\<lambda>s'. s' = s)" (is "runs _ _ ?P _")
  proof (cases "index_offset L pk t")
    case (Inl e)
    then show ?thesis using t by (simp add: runs_def st_defs st_bind_def)
  next
    case (Inr x)
    note xo = index_lookup [OF L c t(2) Inr]
    show ?thesis
    proof (cases "tb_accounts (tb (ps_env s)) pk")
      case None
      then show ?thesis using t Inr xo z by (simp add: runs_def st_defs st_bind_def stored_def pstore_ok_def)
    next
      case (Some y)
      have "entry_ok (ps_mem s) pk y" using z Some layout_okD(1) unfolding pstore_ok_def by blast
      from clean_entry [OF this Some] obtain bw acc where b: "borrowed_init (ps_mem s) (storage_at (oo_offset y)) = Some bw"
        "published (ps_mem s) (storage_at (oo_offset y)) = Some acc" "entry_view (ps_mem s) (tb (ps_env s)) (pk, shared_from_borrowed bw) acc" by blast
      have v: "visible tb s pk = Some acc" using Some b(2) by (simp add: stored_def)
      let ?s = "s\<lparr>ps_storage := ms_count stats_read (ps_storage s)\<rparr>"
      have "?P (t, Some bw) ?s" using v b(3) z by (auto simp: pstore_ok_def)
      then show ?thesis using t Inr xo Some b(1) by (simp add: runs_def st_defs st_bind_def ps_count_def)
    qed
  qed
qed

section \<open>Iteration over a program\<close>

text \<open>The items a consumer draws from the iterator over the given offsets.\<close>

fun program_drain :: "nat list \<Rightarrow> ('t pstore, (pubkey \<times> borrowed_account) list) st" where
  "program_drain [] = st_return []"
| "program_drain (off # offs) =
     st_bind (persisted_program_next off) (\<lambda>x. st_bind (program_drain offs) (\<lambda>xs. st_return (x # xs)))"

definition program_item :: "memory \<Rightarrow> nat \<Rightarrow> (pubkey \<times> borrowed_account) option" where
  "program_item m off = do {
     pk \<leftarrow> borrowed_pubkey m (storage_at off);
     bw \<leftarrow> borrowed_init m (storage_at off);
     Some (pk, bw)
   }"

lemma drain_items:
  "\<forall>off \<in> set offs. program_item (ps_mem s) off \<noteq> None \<Longrightarrow>
    \<exists>s' es. program_drain offs s = Some (s', Inr es) \<and> ps_mem s' = ps_mem s \<and> map Some es = map (program_item (ps_mem s)) offs"
proof (induction offs arbitrary: s)
  case Nil
  then show ?case by (simp add: st_defs)
next
  case (Cons off offs)
  let ?s = "s\<lparr>ps_storage := ms_count stats_read (ps_storage s)\<rparr>"
  obtain pk bw where i: "program_item (ps_mem s) off = Some (pk, bw)" using Cons.prems by auto
  then have n: "persisted_program_next off s = Some (?s, Inr (pk, bw))"
    by (auto simp: program_item_def persisted_program_next_def st_defs st_bind_def ps_count_def bind_eq_Some_conv)
  obtain s' es where r: "program_drain offs ?s = Some (s', Inr es)" "ps_mem s' = ps_mem s" "map Some es = map (program_item (ps_mem s)) offs"
    using Cons.IH [of ?s] Cons.prems by auto
  then show ?case using n i by (simp add: st_defs st_bind_def)
qed

lemma program_offsets:
  assumes L: "lmdb_ok L tb" and z: "pstore_ok tb s" and p: "persisted_program L owner s = Inr r"
  shows "set (case r of None \<Rightarrow> [] | Some ds \<Rightarrow> ds) =
      {oo_offset x | pk x. tb_accounts (tb (ps_env s)) pk = Some x \<and> oo_owner x = key_tail owner}"
    and "distinct (case r of None \<Rightarrow> [] | Some ds \<Rightarrow> ds)"
proof -
  obtain t where t: "lm_begin L (ps_env s) = Inr t" "lm_prog_duplicates L t (key_tail owner) = Inr r"
    using p by (auto simp: persisted_program_def index_program_def unfold_ok)
  have pr: "tb_programs (tb t) = program_entries (tb (ps_env s))"
    using z layout_okD(4) lmdb_txn(1) [OF L t(1)] by (auto simp: pstore_ok_def)
  have "{d. (key_tail owner, d) \<in> program_entries (tb (ps_env s))} =
    {oo_offset x | pk x. tb_accounts (tb (ps_env s)) pk = Some x \<and> oo_owner x = key_tail owner}"
    unfolding program_entries_def ran_def image_def by (auto simp: eq_commute [of "key_tail owner"])
  then show "set (case r of None \<Rightarrow> [] | Some ds \<Rightarrow> ds) =
      {oo_offset x | pk x. tb_accounts (tb (ps_env s)) pk = Some x \<and> oo_owner x = key_tail owner}"
    and "distinct (case r of None \<Rightarrow> [] | Some ds \<Rightarrow> ds)"
    using lmdb_programs(3) [OF L t(2)] pr by (auto split: option.splits)
qed

lemma item_of_entry:
  assumes z: "pstore_ok tb s" and x: "tb_accounts (tb (ps_env s)) pk = Some x"
  shows "\<exists>bw acc. program_item (ps_mem s) (oo_offset x) = Some (pk, bw) \<and> borrowed_owned (ps_mem s) bw = Some acc \<and>
    visible tb s pk = Some acc \<and> oo_owner x = key_tail (ac_owner (oa_core acc))"
proof -
  have e: "entry_ok (ps_mem s) pk x" using z x layout_okD(1) unfolding pstore_ok_def by blast
  obtain acc where a: "borrowed_pubkey (ps_mem s) (storage_at (oo_offset x)) = Some pk" "published (ps_mem s) (storage_at (oo_offset x)) = Some acc"
    "oo_owner x = key_tail (ac_owner (oa_core acc))" by (rule entry_okE [OF e])
  obtain bw acc' where b: "borrowed_init (ps_mem s) (storage_at (oo_offset x)) = Some bw" "published (ps_mem s) (storage_at (oo_offset x)) = Some acc'"
    "entry_view (ps_mem s) (tb (ps_env s)) (pk, shared_from_borrowed bw) acc'" using clean_entry [OF e x] by blast
  have "borrowed_owned (ps_mem s) bw = Some acc'" by (rule clean_view [OF b(3)])
  then show ?thesis using a b(1,2) x by (simp add: program_item_def stored_def)
qed

lemma program_item_iff:
  assumes z: "pstore_ok tb s"
  shows "(\<exists>bw. (\<exists>off \<in> {oo_offset x | pk x. tb_accounts (tb (ps_env s)) pk = Some x \<and> oo_owner x = key_tail owner}.
      program_item (ps_mem s) off = Some (pk, bw)) \<and> borrowed_owned (ps_mem s) bw = Some acc) \<longleftrightarrow>
    visible tb s pk = Some acc \<and> key_tail (ac_owner (oa_core acc)) = key_tail owner" (is "?l \<longleftrightarrow> ?r")
proof
  assume ?l
  then obtain bw q x where x: "tb_accounts (tb (ps_env s)) q = Some x" "oo_owner x = key_tail owner"
    "program_item (ps_mem s) (oo_offset x) = Some (pk, bw)" "borrowed_owned (ps_mem s) bw = Some acc" by blast
  then show ?r using item_of_entry [OF z x(1)] by auto
next
  assume r: ?r
  then obtain x where x: "tb_accounts (tb (ps_env s)) pk = Some x" by (auto simp: stored_def split: option.splits)
  obtain bw acc' where b: "program_item (ps_mem s) (oo_offset x) = Some (pk, bw)" "borrowed_owned (ps_mem s) bw = Some acc'"
    "visible tb s pk = Some acc'" "oo_owner x = key_tail (ac_owner (oa_core acc'))" using item_of_entry [OF z x] by blast
  then have "acc' = acc" using r by simp
  then show ?l using b r x by auto
qed

lemma drained_distinct:
  assumes z: "pstore_ok tb s" and i: "\<And>off. off \<in> set offs \<Longrightarrow> \<exists>pk x. tb_accounts (tb (ps_env s)) pk = Some x \<and> off = oo_offset x"
    and e: "map Some es = map (program_item (ps_mem s)) offs" and d: "distinct offs"
  shows "distinct (map fst es)"
proof -
  have k: "\<exists>x. tb_accounts (tb (ps_env s)) (fst (es ! j)) = Some x \<and> offs ! j = oo_offset x" if j: "j < length offs" for j
  proof -
    obtain q x where x: "tb_accounts (tb (ps_env s)) q = Some x" "offs ! j = oo_offset x" using i [of "offs ! j"] j by auto
    have l: "length es = length offs" using arg_cong [OF e, of length] by simp
    have "Some (es ! j) = program_item (ps_mem s) (oo_offset x)" using arg_cong [OF e, of "\<lambda>l. l ! j"] j l x(2) by simp
    then show ?thesis using item_of_entry [OF z x(1)] x by auto
  qed
  have l: "length es = length offs" using arg_cong [OF e, of length] by simp
  show ?thesis unfolding distinct_conv_nth
  proof (intro allI impI)
    fix a b assume ab: "a < length (map fst es)" "b < length (map fst es)" "a \<noteq> b"
    then have "offs ! a \<noteq> offs ! b" using d l by (simp add: nth_eq_iff_index_eq)
    then show "map fst es ! a \<noteq> map fst es ! b" using k [of a] k [of b] ab l by auto
  qed
qed

section \<open>Checksum\<close>

lemma view_storage: "view_ok m bw space active \<Longrightarrow> \<exists>bs. borrowed_storage m bw = Some bs"
proof -
  assume v: "view_ok m bw space active"
  obtain c len cap where i: "load_u32 m (bw_core bw + 56) = Some len" "load_u32 m (bw_core bw + 60) = Some cap"
    "64 + unat cap = 8 * unat space" "bw_core bw + 8 * unat space \<le> length m"
    using v by (auto simp: view_ok_def image_ok_def)
  have "unat (min len cap) \<le> unat cap" by (simp add: min_def word_le_nat_alt)
  then have "bw_core bw + (64 + unat (min len cap)) \<le> length m" using i(3,4) by simp
  then obtain bs where bs: "mem_read m (bw_core bw) (64 + unat (min len cap)) = Some bs" using mem_read_Some by blast
  have d: "bw_data bw = data_slice_init (bw_core bw + 56)" using v by (simp add: view_ok_def)
  have "ds_len m (bw_data bw) = Some (unat (min len cap))" unfolding d using i(1,2) by (simp add: ds_len_def add.assoc)
  then show ?thesis using bs by (simp add: borrowed_storage_def STATIC_SIZE_def CORE_SIZE_def DATA_HEADER_SIZE_def)
qed

lemma checksum_Some: "\<forall>(pk, x) \<in> set es. entry_ok m pk x \<Longrightarrow> \<exists>bs. checksum_accounts m es = Some bs"
proof (induction es)
  case (Cons e es)
  obtain pk x where e: "e = (pk, x)" by (cases e)
  have ok: "entry_ok m pk x" using Cons.prems e by simp
  obtain sequence space where b: "buffer_ok m (storage_at (oo_offset x)) sequence space" by (rule entry_okE [OF ok])
  obtain bw where bw: "borrowed_init m (storage_at (oo_offset x)) = Some bw" "view_ok m bw space True" using init_view [OF b] by blast
  then show ?case using Cons e view_storage [OF bw(2)] by auto
qed simp

lemma checksum_runs:
  assumes L: "lmdb_ok L tb" and z: "pstore_ok tb s"
  shows "\<exists>r. persisted_checksum hash L s = Some (s, r)"
proof (cases "index_accounts L (ps_env s)")
  case (Inl e)
  then show ?thesis by (simp add: persisted_checksum_def st_defs st_bind_def)
next
  case (Inr es)
  then obtain t where t: "lm_begin L (ps_env s) = Inr t" "lm_acc_iter L t = Inr es" by (auto simp: index_accounts_def unfold_ok)
  have m: "map_of es = tb_accounts (tb (ps_env s))" "distinct (map fst es)"
    using lmdb_accounts(4) [OF L t(2)] lmdb_txn(1) [OF L t(1)] by simp_all
  have "entry_ok (ps_mem s) pk x" if "(pk, x) \<in> set es" for pk x
    using that m z layout_okD(1) map_of_is_SomeI [OF m(2) that] unfolding pstore_ok_def by (metis (no_types))
  then obtain bs where "checksum_accounts (ps_mem s) es = Some bs" using checksum_Some [of es "ps_mem s"] by blast
  then show ?thesis using Inr by (simp add: persisted_checksum_def st_defs st_bind_def)
qed

lemma checksum_meta:
  "persisted_checksum hash L (on_meta (\<lambda>d. d\<lparr>dm_checksum := c\<rparr>) s) =
     map_option (\<lambda>(_, r). (on_meta (\<lambda>d. d\<lparr>dm_checksum := c\<rparr>) s, r)) (persisted_checksum hash L s)"
  by (cases "index_accounts L (ps_env s)") (auto simp: persisted_checksum_def st_defs st_bind_def on_meta_def split: option.splits)

lemma flush_validate:
  assumes L: "lmdb_ok L tb" and z: "pstore_ok tb s"
  shows "\<exists>s' r. persisted_flush hash L os True s = Some (s', r) \<and> pstore_ok tb s' \<and> visible tb s' = visible tb s \<and>
    (r = Inr () \<longrightarrow> dm_version (ms_meta (ps_storage s)) = VERSION \<longrightarrow> persisted_validate hash L s' = Some (s', Inr ()))"
proof (cases "lm_force_sync L (ps_env s)")
  case (Inl e)
  then show ?thesis using z by (simp add: persisted_flush_def st_defs st_bind_def)
next
  case (Inr u)
  obtain r where r: "persisted_checksum hash L s = Some (s, r)" using checksum_runs [OF L z] by blast
  show ?thesis
  proof (cases r)
    case Inl': (Inl e)
    then show ?thesis using z Inr r by (simp add: persisted_flush_def st_defs st_bind_def)
  next
    case Inr': (Inr c)
    let ?s = "on_meta (\<lambda>d. d\<lparr>dm_checksum := c\<rparr>) s"
    have ok: "storage_ok (ps_storage s)" using z by (simp add: pstore_ok_def)
    have "persisted_flush hash L os True s = Some (?s, os_flush os (storage_bytes (cursor_of s)) True)"
      using Inr Inr' r by (simp add: persisted_flush_def st_defs st_bind_def on_storage_def storage_flush_def on_meta_def storage_cursor_def)
    moreover have "pstore_ok tb ?s" "visible tb ?s = visible tb s"
      using z by (simp_all add: pstore_ok_def on_meta_def storage_ok_mem storage_cursor_def)
    moreover have "persisted_checksum hash L ?s = Some (?s, Inr c)" using r Inr' by (simp add: checksum_meta)
    then have "persisted_validate hash L ?s = Some (?s, Inr ())" if "dm_version (ms_meta (ps_storage s)) = VERSION"
      using that ok by (simp add: persisted_validate_def st_defs st_bind_def storage_validate_def Let_def on_meta_def
          storage_cursor_def storage_ok_def)
    ultimately show ?thesis by blast
  qed
qed

section \<open>Properties\<close>

text \<open>
  C28. Lookup agrees with what batches store: on a valid store, \<open>load\<close> returns without undefined behaviour, leaves the
  store valid with the same accounts, and finds a view exactly when the key has an account; the view then reads
  that account and may be handed back to \<open>upsert\<close> as a borrowed entry.
\<close>

theorem load_finds_stored:
  assumes "lmdb_ok L tb" "pstore_ok tb s"
  shows "\<exists>s' r. persisted_load L None pk s = Some (s', r) \<and> pstore_ok tb s' \<and> visible tb s' = visible tb s \<and>
    (\<forall>t v. r = Inr (t, v) \<longrightarrow>
       (case v of None \<Rightarrow> visible tb s pk = None
        | Some bw \<Rightarrow> visible tb s pk \<noteq> None \<and> borrowed_owned (ps_mem s') bw = visible tb s pk \<and>
            (\<forall>acc. visible tb s pk = Some acc \<longrightarrow> batch_ready tb s' [((pk, shared_from_borrowed bw), acc)])))"
proof -
  obtain s' r where r: "persisted_load L None pk s = Some (s', r)"
    "case r of Inl _ \<Rightarrow> s' = s | Inr x \<Rightarrow> ps_mem s' = ps_mem s \<and> ps_env s' = ps_env s \<and> cursor_of s' = cursor_of s \<and> storage_ok (ps_storage s') \<and>
      (case snd x of None \<Rightarrow> visible tb s pk = None
       | Some bw \<Rightarrow> \<exists>acc. visible tb s pk = Some acc \<and> entry_view (ps_mem s) (tb (ps_env s)) (pk, shared_from_borrowed bw) acc)"
    using load_runs [OF assms current_None [OF assms(1)], of pk] unfolding runs_def by blast
  have "pstore_ok tb s' \<and> visible tb s' = visible tb s" using r(2) assms(2) by (cases r) (auto simp: pstore_ok_def)
  then show ?thesis using r
    by (intro exI [of _ s'] exI [of _ r]) (auto simp: batch_ready_def clean_view split: option.splits)
qed

theorem load_finds_stored_witness:
  "\<exists>s' t bw. persisted_load (memdb_lmdb True) None (replicate 32 7) filled_store = Some (s', Inr (t, Some bw)) \<and>
     borrowed_owned (ps_mem s') bw = Some (sample_persisted 5)"
proof -
  have v: "visible memdb_tables filled_store (replicate 32 7) = Some (sample_persisted 5)" by (simp add: filled_ok)
  let ?l = "persisted_load (memdb_lmdb True) None (replicate 32 7) filled_store"
  obtain s' r where r: "?l = Some (s', r)"
    "\<And>t v. r = Inr (t, v) \<Longrightarrow> (case v of None \<Rightarrow> visible memdb_tables filled_store (replicate 32 7) = None
        | Some bw \<Rightarrow> visible memdb_tables filled_store (replicate 32 7) \<noteq> None \<and>
            borrowed_owned (ps_mem s') bw = visible memdb_tables filled_store (replicate 32 7) \<and>
            (\<forall>acc. visible memdb_tables filled_store (replicate 32 7) = Some acc \<longrightarrow>
               batch_ready memdb_tables s' [((replicate 32 7, shared_from_borrowed bw), acc)]))"
    using load_finds_stored [OF memdb_ok [of True] filled_ok(1), of "replicate 32 7"] by blast
  have "case ?l of Some (_, Inr _) \<Rightarrow> True | _ \<Rightarrow> False" by code_simp
  then obtain t w where t: "r = Inr (t, w)" using r(1) by (cases r) auto
  obtain bw where "w = Some bw" using r(2) [OF t] v by (cases w) simp_all
  then show ?thesis using r(1) r(2) [OF t] v t by simp
qed

text \<open>
  C29. Iterating a program enumerates exactly its accounts: when the index answers, drawing all items succeeds, yields no
  key twice, and a key is yielded with an account if and only if the store shows that account under the key and the last
  sixteen bytes of its owner are those of the program (the owner table is keyed by that tail).
\<close>

theorem program_items_exact:
  assumes "lmdb_ok L tb" "pstore_ok tb s" "persisted_program L owner s = Inr r"
  shows "\<exists>s' es. program_drain (case r of None \<Rightarrow> [] | Some ds \<Rightarrow> ds) s = Some (s', Inr es) \<and> ps_mem s' = ps_mem s \<and>
    distinct (map fst es) \<and>
    (\<forall>pk acc. (\<exists>bw. (pk, bw) \<in> set es \<and> borrowed_owned (ps_mem s) bw = Some acc) \<longleftrightarrow>
       visible tb s pk = Some acc \<and> key_tail (ac_owner (oa_core acc)) = key_tail owner)"
proof -
  let ?offs = "case r of None \<Rightarrow> [] | Some ds \<Rightarrow> ds"
  note off = program_offsets [OF assms]
  have i: "\<exists>pk x. tb_accounts (tb (ps_env s)) pk = Some x \<and> f = oo_offset x" if "f \<in> set ?offs" for f
    using that unfolding off(1) by blast
  have "program_item (ps_mem s) f \<noteq> None" if f: "f \<in> set ?offs" for f
  proof -
    obtain pk x where x: "tb_accounts (tb (ps_env s)) pk = Some x" "f = oo_offset x" using i [OF f] by blast
    then show ?thesis using item_of_entry [OF assms(2) x(1)] by auto
  qed
  then obtain s' es where d: "program_drain ?offs s = Some (s', Inr es)" "ps_mem s' = ps_mem s" "map Some es = map (program_item (ps_mem s)) ?offs"
    using drain_items [of ?offs s] by blast
  have mem: "(pk, bw) \<in> set es \<longleftrightarrow> (\<exists>off \<in> set ?offs. program_item (ps_mem s) off = Some (pk, bw))" for pk bw
  proof -
    have "(pk, bw) \<in> set es \<longleftrightarrow> Some (pk, bw) \<in> set (map Some es)" by auto
    also have "\<dots> \<longleftrightarrow> (\<exists>off \<in> set ?offs. program_item (ps_mem s) off = Some (pk, bw))" unfolding d(3) by (simp only: set_map image_iff) (metis (no_types, lifting))
    finally show ?thesis .
  qed
  have "distinct (map fst es)" by (rule drained_distinct [OF assms(2) i d(3) off(2)])
  moreover have "(\<exists>bw. (pk, bw) \<in> set es \<and> borrowed_owned (ps_mem s) bw = Some acc) \<longleftrightarrow>
       visible tb s pk = Some acc \<and> key_tail (ac_owner (oa_core acc)) = key_tail owner" for pk acc
    using program_item_iff [OF assms(2), where pk = pk and acc = acc and owner = owner] unfolding mem off(1) by blast
  ultimately show ?thesis using d(1,2) by blast
qed

theorem program_items_exact_witness:
  "\<exists>s' es. program_drain [0] filled_store = Some (s', Inr es) \<and> replicate 32 7 \<in> fst ` set es"
proof -
  have p: "persisted_program (memdb_lmdb True) (replicate 32 1) filled_store = Inr (Some [0])" by code_simp
  obtain s' es where d: "program_drain [0] filled_store = Some (s', Inr es)"
    "\<And>pk acc. (\<exists>bw. (pk, bw) \<in> set es \<and> borrowed_owned (ps_mem filled_store) bw = Some acc) \<longleftrightarrow>
       visible memdb_tables filled_store pk = Some acc \<and> key_tail (ac_owner (oa_core acc)) = key_tail (replicate 32 1)"
    using program_items_exact [OF memdb_ok filled_ok(1) p] unfolding option.case by blast
  have "visible memdb_tables filled_store (replicate 32 7) = Some (sample_persisted 5)"
    "key_tail (ac_owner (oa_core (sample_persisted 5))) = key_tail (replicate 32 1)" by (simp_all add: filled_ok sample_persisted_def)
  then have "replicate 32 7 \<in> fst ` set es" using d(2) [of "replicate 32 7" "sample_persisted 5"] by force
  then show ?thesis using d(1) by blast
qed

text \<open>
  C30. A synchronous flush makes the store pass validation: on a valid store of the current version it returns, keeps every
  account, and when it succeeds a later \<open>validate\<close> recomputes the recorded checksum and succeeds. This holds for
  every hash function.
\<close>

theorem flush_then_validate:
  assumes "lmdb_ok L tb" "pstore_ok tb s" "dm_version (ms_meta (ps_storage s)) = VERSION"
  shows "\<exists>s' r. persisted_flush hash L os True s = Some (s', r) \<and> pstore_ok tb s' \<and> visible tb s' = visible tb s \<and>
    (r = Inr () \<longrightarrow> persisted_validate hash L s' = Some (s', Inr ()))"
  using flush_validate [OF assms(1,2), of hash os] assms(3) by blast

theorem flush_then_validate_witness:
  "\<exists>s'. persisted_flush (\<lambda>bs. of_nat (length bs)) (memdb_lmdb True) good_os True filled_store = Some (s', Inr ()) \<and>
     persisted_validate (\<lambda>bs. of_nat (length bs)) (memdb_lmdb True) s' = Some (s', Inr ())"
proof -
  let ?h = "\<lambda>bs. of_nat (length bs)"
  have "dm_version (ms_meta (ps_storage filled_store)) = VERSION" by code_simp
  from flush_then_validate [OF memdb_ok [of True] filled_ok(1) this, of ?h good_os]
  obtain s' r where "persisted_flush ?h (memdb_lmdb True) good_os True filled_store = Some (s', r)"
    "r = Inr () \<longrightarrow> persisted_validate ?h (memdb_lmdb True) s' = Some (s', Inr ())" by blast
  moreover have "case persisted_flush ?h (memdb_lmdb True) good_os True filled_store of Some (_, Inr _) \<Rightarrow> True | _ \<Rightarrow> False"
    by code_simp
  ultimately show ?thesis by (auto split: sum.splits)
qed

end
