(* ===== verification/Db_Accounts.thy ===== *)
theory Db_Accounts
  imports Db_Query
begin

text \<open>
  The account database: \<^verbatim>\<open>accountsdb/src/lib.rs\<close>. It routes entries to the persisted and the volatile
  store by their lifecycle mode, counts committed transactions, keeps the metadata, and reads through loaders that give volatile
  accounts precedence. Reader admission is modelled separately (\<open>Db_Readers\<close>).
\<close>

section \<open>Operations\<close>

record 't accounts_db =
  db_persisted :: "'t pstore"
  db_volatile :: volatile_store

definition on_persisted :: "('t pstore, 'a) st \<Rightarrow> ('t accounts_db, 'a) st" where
  "on_persisted f db = map_option (\<lambda>(p, r). (db\<lparr>db_persisted := p\<rparr>, r)) (f (db_persisted db))"

abbreviation db_meta_of :: "'t accounts_db \<Rightarrow> db_meta" where
  "db_meta_of db \<equiv> ms_meta (ps_storage (db_persisted db))"

abbreviation db_mem :: "'t accounts_db \<Rightarrow> memory" where
  "db_mem db \<equiv> ps_mem (db_persisted db)"

definition db_is_new :: "'t accounts_db \<Rightarrow> bool" where
  "db_is_new db \<longleftrightarrow> storage_cursor (ps_storage (db_persisted db)) = 0"

text \<open>The two routing predicates; the mode of a borrowed entry is read from memory.\<close>

definition persisted_filter :: "account_entry \<Rightarrow> bool option" where
  "persisted_filter e =
     (case sd_cow (snd e) of
        Borrowed _ \<Rightarrow> Some True
      | Owned acc \<Rightarrow> do {
          let mode = ac_mode (oa_core acc);
          persistent \<leftarrow> requires_persistence mode;
          Some (persistent \<or> mode = Closed \<or> flags_contain (sd_dirty (snd e)) DIRTY_MODE)
        })"

definition volatile_filter :: "memory \<Rightarrow> account_entry \<Rightarrow> bool option" where
  "volatile_filter m e =
     (case sd_cow (snd e) of
        Owned _ \<Rightarrow> Some True
      | Borrowed _ \<Rightarrow> do {
          mode \<leftarrow> shared_mode m (snd e);
          persistent \<leftarrow> requires_persistence mode;
          Some (\<not> persistent)
        })"

fun filter_opt :: "('a \<Rightarrow> bool option) \<Rightarrow> 'a list \<Rightarrow> 'a list option" where
  "filter_opt p [] = Some []"
| "filter_opt p (x # xs) = do { keep \<leftarrow> p x; ys \<leftarrow> filter_opt p xs; Some (if keep then x # ys else ys) }"

definition db_store :: "'t lmdb \<Rightarrow> os \<Rightarrow> account_entry list \<Rightarrow> ('t accounts_db, unit) st" where
  "db_store L os accounts db = do {
     iter \<leftarrow> filter_opt persisted_filter accounts;
     (db, r) \<leftarrow> on_persisted (persisted_upsert L os iter) db;
     case r of
       Inl e \<Rightarrow> Some (db, Inl e)
     | Inr _ \<Rightarrow> do {
         iter \<leftarrow> filter_opt (volatile_filter (db_mem db)) accounts;
         v \<leftarrow> volatile_upsert (db_mem db) iter (db_volatile db);
         Some (db\<lparr>db_volatile := v\<rparr>, Inr ())
       }
   }"

definition db_commit :: "'t lmdb \<Rightarrow> os \<Rightarrow> account_entry list \<Rightarrow> ('t accounts_db, unit) st" where
  "db_commit L os accounts =
     st_bind (db_store L os accounts) (\<lambda>_.
     on_persisted (st_modify (on_meta (\<lambda>meta. meta\<lparr>dm_transactions := dm_transactions meta + 1\<rparr>))))"

definition db_flush :: "(bytes \<Rightarrow> u64) \<Rightarrow> 't lmdb \<Rightarrow> os \<Rightarrow> bool \<Rightarrow> ('t accounts_db, unit) st" where
  "db_flush hash L os force = on_persisted (persisted_flush hash L os force)"

definition db_validate :: "(bytes \<Rightarrow> u64) \<Rightarrow> 't lmdb \<Rightarrow> ('t accounts_db, unit) st" where
  "db_validate hash L = on_persisted (persisted_validate hash L)"

definition db_slot :: "'t accounts_db \<Rightarrow> u64" where
  "db_slot db = dm_slot (db_meta_of db)"

definition db_set_slot :: "(bytes \<Rightarrow> u64) \<Rightarrow> 't lmdb \<Rightarrow> os \<Rightarrow> u64 \<Rightarrow> ('t accounts_db, unit) st" where
  "db_set_slot hash L os slot =
     st_bind (on_persisted (st_modify (on_meta (\<lambda>meta. meta\<lparr>dm_slot := slot\<rparr>)))) (\<lambda>_. db_flush hash L os False)"

definition db_chain_slot :: "'t accounts_db \<Rightarrow> u64" where
  "db_chain_slot db = dm_chain_slot (db_meta_of db)"

definition db_advance_chain_slot :: "u64 \<Rightarrow> ('t accounts_db, unit) st" where
  "db_advance_chain_slot slot = on_persisted (st_modify (on_meta (\<lambda>meta. meta\<lparr>dm_chain_slot := max (dm_chain_slot meta) slot\<rparr>)))"

definition db_superblock :: "'t accounts_db \<Rightarrow> u64" where
  "db_superblock db = dm_superblock (db_meta_of db)"

definition db_transactions :: "'t accounts_db \<Rightarrow> u64" where
  "db_transactions db = dm_transactions (db_meta_of db)"

definition db_set_superblock :: "u64 \<Rightarrow> ('t accounts_db, unit) st" where
  "db_set_superblock superblock = on_persisted (st_modify (on_meta (\<lambda>meta. meta\<lparr>dm_superblock := superblock\<rparr>)))"

definition db_checksum :: "'t accounts_db \<Rightarrow> u64" where
  "db_checksum db = dm_checksum (db_meta_of db)"

definition db_compute_checksum :: "(bytes \<Rightarrow> u64) \<Rightarrow> 't lmdb \<Rightarrow> ('t accounts_db, u64) st" where
  "db_compute_checksum hash L = on_persisted (persisted_checksum hash L)"

definition db_reset :: "'t accounts_db \<Rightarrow> 't accounts_db" where
  "db_reset db = db\<lparr>db_volatile := volatile_reset (db_volatile db)\<rparr>"

section \<open>Loaders\<close>

text \<open>A loader caches the index transaction of its first persisted lookup.\<close>

record 't loader =
  ld_db :: "'t accounts_db"
  ld_txn :: "'t option"

definition loader_new :: "'t accounts_db \<Rightarrow> 't loader" where
  "loader_new db = \<lparr>ld_db = db, ld_txn = None\<rparr>"

definition on_loader :: "('t \<Rightarrow> ('t pstore, 'a) st) \<Rightarrow> 't lmdb \<Rightarrow> ('t loader, 'a) st" where
  "on_loader f L = st_state (\<lambda>ld.
     st_bind (st_result (read_txn L (ld_txn ld) (db_persisted (ld_db ld)))) (\<lambda>t.
     st_bind (st_modify (\<lambda>ld. ld\<lparr>ld_txn := Some t\<rparr>)) (\<lambda>_ ld.
     map_option (\<lambda>(db, r). (ld\<lparr>ld_db := db\<rparr>, r)) (on_persisted (f t) (ld_db ld)))))"

definition loader_persisted :: "'t lmdb \<Rightarrow> pubkey \<Rightarrow> ('t loader, shared_data option) st" where
  "loader_persisted L pubkey =
     st_bind (on_loader (\<lambda>t. persisted_load L (Some t) pubkey) L) (\<lambda>r. st_return (map_option shared_from_borrowed (snd r)))"

definition loader_load :: "'t lmdb \<Rightarrow> pubkey \<Rightarrow> ('t loader, shared_data option) st" where
  "loader_load L pubkey = st_state (\<lambda>ld.
     case volatile_load (db_volatile (ld_db ld)) pubkey of
       Some account \<Rightarrow> st_return (Some (shared_from_owned account))
     | None \<Rightarrow> loader_persisted L pubkey)"

text \<open>Without a concurrent publish the callback runs once, on the current image; \<open>Account_SeqLock\<close> has the retries.\<close>

definition loader_read :: "'t lmdb \<Rightarrow> (memory \<Rightarrow> shared_data \<Rightarrow> 'r option) \<Rightarrow> pubkey \<Rightarrow> ('t loader, 'r option) st" where
  "loader_read L reader pubkey =
     st_bind (loader_load L pubkey) (\<lambda>account.
     case account of
       None \<Rightarrow> st_return None
     | Some a \<Rightarrow> st_bind (st_read (\<lambda>ld. reader (db_mem (ld_db ld)) a)) (\<lambda>r. st_return (Some r)))"

definition loader_lifecycle :: "'t lmdb \<Rightarrow> pubkey \<Rightarrow> ('t loader, (account_mode \<times> u64) option) st" where
  "loader_lifecycle L pubkey = st_state (\<lambda>ld.
     case volatile_lifecycle (db_volatile (ld_db ld)) pubkey of
       Some lifecycle \<Rightarrow> st_return (Some lifecycle)
     | None \<Rightarrow>
         st_bind (loader_persisted L pubkey) (\<lambda>account.
         case account of
           None \<Rightarrow> st_return None
         | Some a \<Rightarrow> st_bind (st_read (\<lambda>ld. do {
               mode \<leftarrow> shared_mode (db_mem (ld_db ld)) a;
               slot \<leftarrow> shared_slot (db_mem (ld_db ld)) a;
               Some (mode, slot)
             })) (\<lambda>r. st_return (Some r))))"

definition loader_contains :: "'t lmdb \<Rightarrow> pubkey \<Rightarrow> ('t loader, bool) st" where
  "loader_contains L pubkey =
     st_bind (on_loader (\<lambda>t. persisted_contains L (Some t) pubkey) L) (\<lambda>r.
     if snd r then st_return True
     else st_state (\<lambda>ld. st_return (volatile_contains (db_volatile (ld_db ld)) pubkey)))"

section \<open>What the database shows\<close>

definition db_shows :: "('t \<Rightarrow> tables) \<Rightarrow> 't accounts_db \<Rightarrow> pubkey \<Rightarrow> owned_account option" where
  "db_shows tb db pk = (case vs_accounts (db_volatile db) pk of Some acc \<Rightarrow> Some acc | None \<Rightarrow> visible tb (db_persisted db) pk)"

text \<open>Every account is in the store its mode requires; so no key is in both.\<close>

definition routed :: "('t \<Rightarrow> tables) \<Rightarrow> 't pstore \<Rightarrow> volatile_store \<Rightarrow> bool" where
  "routed tb p v \<longleftrightarrow>
     (\<forall>pk acc. vs_accounts v pk = Some acc \<longrightarrow> \<not> persistent_mode (ac_mode (oa_core acc)) \<and> ac_mode (oa_core acc) \<noteq> Closed \<and> visible tb p pk = None) \<and>
     (\<forall>pk acc. visible tb p pk = Some acc \<longrightarrow> persistent_mode (ac_mode (oa_core acc)))"

definition db_ok :: "('t \<Rightarrow> tables) \<Rightarrow> 't accounts_db \<Rightarrow> bool" where
  "db_ok tb db \<longleftrightarrow> pstore_ok tb (db_persisted db) \<and> vol_ok (db_volatile db) \<and> routed tb (db_persisted db) (db_volatile db)"

lemma routedD:
  assumes "routed tb p v"
  shows "vs_accounts v pk = Some acc \<Longrightarrow> \<not> persistent_mode (ac_mode (oa_core acc)) \<and> ac_mode (oa_core acc) \<noteq> Closed \<and> visible tb p pk = None"
    and "visible tb p pk = Some acc \<Longrightarrow> persistent_mode (ac_mode (oa_core acc)) \<and> vs_accounts v pk = None"
proof -
  show v: "vs_accounts v pk = Some acc \<Longrightarrow> \<not> persistent_mode (ac_mode (oa_core acc)) \<and> ac_mode (oa_core acc) \<noteq> Closed \<and> visible tb p pk = None" for acc
    using assms unfolding routed_def by blast
  assume a: "visible tb p pk = Some acc"
  have "vs_accounts v pk = None" using v a by (cases "vs_accounts v pk") auto
  then show "persistent_mode (ac_mode (oa_core acc)) \<and> vs_accounts v pk = None" using assms a unfolding routed_def by blast
qed

lemma routed_cong: "visible tb p' = visible tb p \<Longrightarrow> routed tb p' v = routed tb p v"
  by (simp add: routed_def)

definition touches_persisted :: "planned \<Rightarrow> bool" where
  "touches_persisted x \<longleftrightarrow> (\<exists>bw. sd_cow (snd (fst x)) = Borrowed bw) \<or> persistent_mode (ac_mode (oa_core (snd x))) \<or>
     ac_mode (oa_core (snd x)) = Closed \<or> flags_contain (sd_dirty (snd (fst x))) DIRTY_MODE"

definition touches_volatile :: "planned \<Rightarrow> bool" where
  "touches_volatile x \<longleftrightarrow> (\<exists>ow. sd_cow (snd (fst x)) = Owned ow) \<or> \<not> persistent_mode (ac_mode (oa_core (snd x)))"

text \<open>
  What the callers of \<open>store\<close> provide: distinct keys, views of the current state, and an entry that skips the
  persisted store (owned, not persistent, mode untouched) has no persisted copy.
\<close>

definition store_ready :: "('t \<Rightarrow> tables) \<Rightarrow> 't accounts_db \<Rightarrow> planned list \<Rightarrow> bool" where
  "store_ready tb db xs \<longleftrightarrow> batch_ready tb (db_persisted db) xs \<and>
     (\<forall>x \<in> set xs. \<not> touches_persisted x \<longrightarrow> tb_accounts (tb (ps_env (db_persisted db))) (fst (fst x)) = None)"

definition plan :: "planned list \<Rightarrow> (pubkey \<times> owned_account) list" where
  "plan xs = map (\<lambda>x. (fst (fst x), snd x)) xs"

definition db_entry :: "owned_account \<Rightarrow> owned_account option" where
  "db_entry acc = (if ac_mode (oa_core acc) = Closed then None else Some acc)"

text \<open>The specification of a batch: closed accounts disappear, all others are shown as written.\<close>

definition store_spec :: "planned list \<Rightarrow> (pubkey \<Rightarrow> owned_account option) \<Rightarrow> pubkey \<Rightarrow> owned_account option" where
  "store_spec xs f pk = (case map_of (plan xs) pk of None \<Rightarrow> f pk | Some acc \<Rightarrow> db_entry acc)"

section \<open>Routing\<close>

lemma filter_opt_Some: "(\<And>x. x \<in> set xs \<Longrightarrow> p x = Some (q x)) \<Longrightarrow> filter_opt p xs = Some (filter q xs)"
  by (induction xs) auto

lemma map_fst_filter: "(\<And>x. x \<in> set xs \<Longrightarrow> p (fst x) = Some (q x)) \<Longrightarrow> filter_opt p (map fst xs) = Some (map fst (filter q xs))"
  by (induction xs) auto

lemma persisted_route:
  assumes "entry_view m b e acc"
  shows "persisted_filter e = Some (touches_persisted (e, acc))"
  using assms by (cases e; cases "sd_cow (snd e)")
    (auto simp: persisted_filter_def touches_persisted_def entry_view_def requires_persistence_eq Let_def)

lemma volatile_route:
  assumes "shared_owned m (snd e) = Some acc"
  shows "volatile_filter m e = Some (touches_volatile (e, acc))"
  using shared_owned_mode [OF assms]
  by (cases "sd_cow (snd e)") (auto simp: volatile_filter_def touches_volatile_def requires_persistence_eq)

lemma plan_filter:
  assumes "distinct (map fst (plan xs))" "x \<in> set xs"
  shows "map_of (plan (filter P xs)) (fst (fst x)) = (if P x then Some (snd x) else None)"
  using assms
proof (induction xs)
  case (Cons y xs)
  have n: "fst (fst z) \<noteq> fst (fst y)" if "z \<in> set xs" for z using Cons.prems(1) that by (auto simp: plan_def image_iff)
  have none: "map_of (plan (filter P xs)) (fst (fst y)) = None"
    unfolding map_of_eq_None_iff using n by (force simp: plan_def)
  show ?case
  proof (cases "x = y")
    case True
    then show ?thesis using none by (simp add: plan_def)
  next
    case False
    then have x: "x \<in> set xs" using Cons.prems(2) by simp
    then show ?thesis using Cons.IH [OF _ x] Cons.prems(1) n [OF x] by (auto simp: plan_def)
  qed
qed simp

lemma plan_None: "(\<And>x. x \<in> set xs \<Longrightarrow> fst (fst x) \<noteq> pk) \<Longrightarrow> map_of (plan xs) pk = None"
  unfolding map_of_eq_None_iff by (force simp: plan_def)

lemma plan_Cons: "plan (x # xs) = (fst (fst x), snd x) # plan xs"
  by (simp add: plan_def)

lemma batch_result_plan:
  "distinct (map fst (plan xs)) \<Longrightarrow> batch_result xs f pk = (case map_of (plan xs) pk of None \<Rightarrow> f pk | Some acc \<Rightarrow> persisted_entry acc)"
proof (induction xs arbitrary: f)
  case (Cons x xs)
  obtain e acc where x: "x = (e, acc)" by (cases x)
  have n: "map_of (plan xs) (fst e) = None" using Cons.prems x by (simp add: plan_Cons map_of_eq_None_iff)
  have "batch_result xs (f(fst e := persisted_entry acc)) pk =
    (case map_of (plan xs) pk of None \<Rightarrow> (f(fst e := persisted_entry acc)) pk | Some acc \<Rightarrow> persisted_entry acc)"
    using Cons.prems x by (intro Cons.IH) (simp add: plan_Cons)
  then show ?case using n x by (simp add: plan_Cons split: option.splits)
qed (simp add: plan_def)

lemma volatile_spec_map:
  "distinct (map fst ps) \<Longrightarrow> volatile_spec ps f pk = (case map_of ps pk of None \<Rightarrow> f pk | Some acc \<Rightarrow> volatile_entry acc)"
proof (induction ps arbitrary: f)
  case (Cons p ps)
  obtain k acc where p: "p = (k, acc)" by (cases p)
  have n: "map_of ps k = None" using Cons.prems p by (simp add: map_of_eq_None_iff)
  have "volatile_spec ps (f(k := volatile_entry acc)) pk =
    (case map_of ps pk of None \<Rightarrow> (f(k := volatile_entry acc)) pk | Some acc \<Rightarrow> volatile_entry acc)"
    using Cons.prems by (intro Cons.IH) simp
  then show ?case using n p by (simp split: option.splits)
qed simp

text \<open>A batch that allocates nothing after freeing leaves every committed image readable through the views taken before it.\<close>

lemma undo_image:
  assumes l: "layout_ok m0 c b0 None" and u: "undo_ok m0 b0 D m" and x: "tb_accounts b0 pk = Some x"
    and v: "view_ok m0 bw space active" and h: "bw_header bw = storage_at (oo_offset x)"
  shows "borrowed_owned m bw = borrowed_owned m0 bw"
proof -
  let ?h = "storage_at (oo_offset x)" and ?n = "8 * span_at m0 (oo_offset x)" and ?p = "image_ptr 0 space (bw_version bw) active"
  note sp = view_span(1) [OF l x v h]
  have "same_region (?n - 4) (?h + 4) m0 (?h + 4) m"
    using undo_okD(1) [OF u x] same_region_shift [OF undo_okD(3) [OF u x], of 4 "?n - 4"] sp by (cases "pk \<in> D") auto
  moreover have c: "bw_core bw = ?h + 4 + (?p - 4)" and p: "40 \<le> ?p" "?p + 8 * unat space \<le> ?n"
    using v h image_ptr_shift [of ?h space "bw_version bw" active] image_ptr_bounds [of 0 space "bw_version bw" active] sp
    by (auto simp: view_ok_def)
  moreover have "image_ok m0 (bw_core bw) (8 * unat space)" using v unfolding view_ok_def by blast
  ultimately have "image_account m (bw_core bw) = image_account m0 (bw_core bw)"
    using same_region_image [of "?n - 4" "?h + 4" m0 "?h + 4" m "?p - 4" "8 * unat space"] by simp
  then show ?thesis using v by (simp add: view_ok_def borrowed_owned_image)
qed

lemma ready_filter: "batch_ready tb s xs \<Longrightarrow> batch_ready tb s (filter P xs)"
  by (auto simp: batch_ready_def distinct_map_filter)

lemma ready_plan: "batch_ready tb s xs \<Longrightarrow> distinct (map fst (plan (filter P xs)))"
  by (auto simp: batch_ready_def plan_def comp_def distinct_map_filter)

lemma borrowed_visible:
  assumes "pstore_ok tb s" "entry_view (ps_mem s) (tb (ps_env s)) (pk, a) acc" "sd_cow a = Borrowed bw"
  shows "visible tb s pk \<noteq> None"
  using assms by (auto simp: entry_view_def stored_def)

text \<open>The effect of the two updates on one key.\<close>

lemma store_key:
  assumes ok: "db_ok tb db" and r: "store_ready tb db xs" and x: "x \<in> set xs" "fst (fst x) = pk"
    and p: "visible tb p' = batch_result (filter touches_persisted xs) (visible tb (db_persisted db))"
    and v: "vs_accounts v' = volatile_spec (plan (filter touches_volatile xs)) (vs_accounts (db_volatile db))"
  shows "vs_accounts v' pk = (if persistent_mode (ac_mode (oa_core (snd x))) then None else db_entry (snd x))"
    and "visible tb p' pk = persisted_entry (snd x)"
proof -
  let ?acc = "snd x" and ?s = "db_persisted db"
  have b: "batch_ready tb ?s xs" using r by (simp add: store_ready_def)
  have e: "entry_view (ps_mem ?s) (tb (ps_env ?s)) (pk, snd (fst x)) ?acc" using b x by (force simp: batch_ready_def)
  have pv: "vs_accounts v' pk = (if touches_volatile x then volatile_entry ?acc else vs_accounts (db_volatile db) pk)"
    using volatile_spec_map [OF ready_plan [OF b, of touches_volatile]] plan_filter [OF ready_plan [OF b, of "\<lambda>_. True", simplified] x(1)] x(2) v by simp
  have pp: "visible tb p' pk = (if touches_persisted x then persisted_entry ?acc else visible tb ?s pk)"
    using batch_result_plan [OF ready_plan [OF b, of touches_persisted]] plan_filter [OF ready_plan [OF b, of "\<lambda>_. True", simplified] x(1)] x(2) p by simp
  have bor: "vs_accounts (db_volatile db) pk = None" if c: "sd_cow (snd (fst x)) = Borrowed bw" for bw
  proof -
    have k: "pstore_ok tb ?s" "routed tb ?s (db_volatile db)" using ok by (simp_all add: db_ok_def)
    obtain acc where "visible tb ?s pk = Some acc" using borrowed_visible [where tb = tb and s = ?s, OF k(1) e c] by blast
    then show ?thesis using routedD(2) [OF k(2)] by blast
  qed
  show "vs_accounts v' pk = (if persistent_mode (ac_mode (oa_core ?acc)) then None else db_entry ?acc)"
    using bor unfolding pv by (cases "sd_cow (snd (fst x))") (auto simp: touches_volatile_def volatile_entry_def db_entry_def)
  have "visible tb ?s pk = None" if "\<not> touches_persisted x"
    using r x that by (auto simp: store_ready_def stored_def)
  then show "visible tb p' pk = persisted_entry ?acc"
    unfolding pp by (auto simp: touches_persisted_def persisted_entry_def)
qed

lemma store_other:
  assumes r: "store_ready tb db xs" and x: "\<And>x. x \<in> set xs \<Longrightarrow> fst (fst x) \<noteq> pk"
    and p: "visible tb p' = batch_result (filter touches_persisted xs) (visible tb (db_persisted db))"
    and v: "vs_accounts v' = volatile_spec (plan (filter touches_volatile xs)) (vs_accounts (db_volatile db))"
  shows "vs_accounts v' pk = vs_accounts (db_volatile db) pk" and "visible tb p' pk = visible tb (db_persisted db) pk"
proof -
  have b: "batch_ready tb (db_persisted db) xs" using r by (simp add: store_ready_def)
  have n: "map_of (plan (filter P xs)) pk = None" for P by (rule plan_None) (use x in auto)
  show "vs_accounts v' pk = vs_accounts (db_volatile db) pk"
    using volatile_spec_map [OF ready_plan [OF b, of touches_volatile]] n v by simp
  show "visible tb p' pk = visible tb (db_persisted db) pk"
    using batch_result_plan [OF ready_plan [OF b, of touches_persisted]] n p by simp
qed

lemma store_shows:
  assumes ok: "db_ok tb db" and r: "store_ready tb db xs"
    and p: "visible tb p' = batch_result (filter touches_persisted xs) (visible tb (db_persisted db))"
    and v: "vs_accounts v' = volatile_spec (plan (filter touches_volatile xs)) (vs_accounts (db_volatile db))"
  shows "db_shows tb (db\<lparr>db_persisted := p', db_volatile := v'\<rparr>) = store_spec xs (db_shows tb db)"
    and "routed tb p' v'"
proof -
  have d: "distinct (map fst (plan xs))" using ready_plan [of tb "db_persisted db" xs "\<lambda>_. True"] r by (simp add: store_ready_def)
  have rt: "routed tb (db_persisted db) (db_volatile db)" using ok by (simp add: db_ok_def)
  have at: "db_shows tb (db\<lparr>db_persisted := p', db_volatile := v'\<rparr>) pk = store_spec xs (db_shows tb db) pk \<and>
    (\<forall>acc. vs_accounts v' pk = Some acc \<longrightarrow> \<not> persistent_mode (ac_mode (oa_core acc)) \<and> ac_mode (oa_core acc) \<noteq> Closed \<and> visible tb p' pk = None) \<and>
    (\<forall>acc. visible tb p' pk = Some acc \<longrightarrow> persistent_mode (ac_mode (oa_core acc)))" for pk
  proof (cases "\<exists>x \<in> set xs. fst (fst x) = pk")
    case True
    then obtain x where x: "x \<in> set xs" "fst (fst x) = pk" by blast
    have "map_of (plan xs) pk = Some (snd x)" using plan_filter [OF d x(1), of "\<lambda>_. True"] x(2) by simp
    then show ?thesis using store_key [OF ok r x p v]
      by (auto simp: db_shows_def store_spec_def db_entry_def persisted_entry_def persistent_mode_def split: if_splits)
  next
    case False
    then have n: "\<And>x. x \<in> set xs \<Longrightarrow> fst (fst x) \<noteq> pk" by blast
    note o = store_other [OF r n p v]
    have "db_shows tb (db\<lparr>db_persisted := p', db_volatile := v'\<rparr>) pk = store_spec xs (db_shows tb db) pk"
      using o plan_None [OF n] by (simp add: db_shows_def store_spec_def split: option.split)
    then show ?thesis using o routedD [OF rt, of pk] by simp
  qed
  show "db_shows tb (db\<lparr>db_persisted := p', db_volatile := v'\<rparr>) = store_spec xs (db_shows tb db)" using at by blast
  show "routed tb p' v'" unfolding routed_def using at by blast
qed

lemma images_kept:
  assumes z: "pstore_ok tb s" and b: "batch_ready tb s xs" and u: "undo_ok (ps_mem s) (tb (ps_env s)) D m" and x: "x \<in> set xs"
  shows "shared_owned m (snd (fst x)) = Some (snd x)"
proof -
  obtain pk a acc where xx: "x = ((pk, a), acc)" by (cases x) auto
  have e: "entry_view (ps_mem s) (tb (ps_env s)) (pk, a) acc" using b x xx by (force simp: batch_ready_def)
  show ?thesis
  proof (cases "sd_cow a")
    case (Owned ow)
    then show ?thesis using e xx by (simp add: entry_view_def shared_owned_def)
  next
    case (Borrowed bw)
    then obtain y space where y: "tb_accounts (tb (ps_env s)) pk = Some y" "bw_header bw = storage_at (oo_offset y)"
      "view_ok (ps_mem s) bw space (\<not> shared_dirty a)" "borrowed_owned (ps_mem s) bw = Some acc"
      using e unfolding entry_view_def prod.case Borrowed cow_account.case by blast
    then show ?thesis using undo_image [OF _ u y(1,3,2)] z Borrowed xx by (auto simp: shared_owned_def pstore_ok_def)
  qed
qed

lemma store_runs:
  assumes L: "lmdb_ok L tb" and ok: "db_ok tb db" and r: "store_ready tb db xs"
    and g: "reuse_safe (tb (ps_env (db_persisted db))) False (filter touches_persisted xs)"
  shows "\<exists>db' r. db_store L os (map fst xs) db = Some (db', r) \<and> db_ok tb db' \<and>
    db_shows tb db' = (case r of Inr _ \<Rightarrow> store_spec xs (db_shows tb db) | Inl _ \<Rightarrow> db_shows tb db)"
proof -
  let ?s = "db_persisted db" and ?ps = "filter touches_persisted xs" and ?vs = "filter touches_volatile xs"
  have z: "pstore_ok tb ?s" "vol_ok (db_volatile db)" and b: "batch_ready tb ?s xs" using ok r by (simp_all add: db_ok_def store_ready_def)
  have f: "filter_opt persisted_filter (map fst xs) = Some (map fst ?ps)"
    by (rule map_fst_filter) (use b persisted_route in \<open>force simp: batch_ready_def\<close>)
  obtain p' q where p: "persisted_upsert L os (map fst ?ps) ?s = Some (p', q)" "pstore_ok tb p'"
    "visible tb p' = (case q of Inr _ \<Rightarrow> batch_result ?ps (visible tb ?s) | Inl _ \<Rightarrow> visible tb ?s)"
    "q = Inr () \<longrightarrow> undo_ok (ps_mem ?s) (tb (ps_env ?s)) (dirty_set (map fst ?ps)) (ps_mem p')"
    using upsert_atomic [OF L z(1) ready_filter [OF b] g, of os] by blast
  show ?thesis
  proof (cases q)
    case (Inl e)
    then have "db_store L os (map fst xs) db = Some (db\<lparr>db_persisted := p'\<rparr>, Inl e)"
      using f p(1) by (simp add: db_store_def on_persisted_def)
    moreover have sh: "visible tb p' = visible tb ?s" using p(3) Inl by simp
    then have "db_ok tb (db\<lparr>db_persisted := p'\<rparr>)" using p(2) ok routed_cong [OF sh] by (simp add: db_ok_def)
    moreover have "db_shows tb (db\<lparr>db_persisted := p'\<rparr>) = db_shows tb db" using sh by (simp add: db_shows_def fun_eq_iff split: option.split)
    ultimately show ?thesis by simp
  next
    case (Inr w)
    have o: "shared_owned (ps_mem p') (snd (fst x)) = Some (snd x)" if "x \<in> set xs" for x
      using images_kept [OF z(1) b _ that] p(4) Inr by simp
    have fv: "filter_opt (volatile_filter (ps_mem p')) (map fst xs) = Some (map fst ?vs)"
      by (rule map_fst_filter) (use o volatile_route in fastforce)
    obtain v' where v: "volatile_upsert (ps_mem p') (map fst ?vs) (db_volatile db) = Some v'"
      "volatile_step\<^sup>*\<^sup>* (db_volatile db, \<lambda>_. None) (v', \<lambda>_. None)" "vs_accounts v' = volatile_spec (plan ?vs) (vs_accounts (db_volatile db))"
      using upsert_planned [of ?vs "ps_mem p'" "db_volatile db"] o unfolding plan_def by auto
    have vo: "vol_ok v'" using volatile_run_inv [OF v(2)] z(2) by (simp add: vol_ok_def)
    have "db_store L os (map fst xs) db = Some (db\<lparr>db_persisted := p', db_volatile := v'\<rparr>, Inr ())"
      using f p(1) Inr fv v(1) by (simp add: db_store_def on_persisted_def)
    moreover have "visible tb p' = batch_result ?ps (visible tb ?s)" using p(3) Inr by simp
    note sh = store_shows [OF ok r this v(3)]
    then have "db_ok tb (db\<lparr>db_persisted := p', db_volatile := v'\<rparr>)" using p(2) vo by (simp add: db_ok_def)
    ultimately show ?thesis using sh(1) by auto
  qed
qed

section \<open>Properties\<close>

definition sample_db :: "memdb accounts_db" where
  "sample_db = \<lparr>db_persisted = sample_store, db_volatile = empty_volatile\<rparr>"

lemma sample_visible: "visible memdb_tables sample_store pk = None"
  by (simp add: stored_def sample_store_def memdb_tables_def)

lemma sample_db_ok: "db_ok memdb_tables sample_db"
  using sample_store_ok empty_volatile_ok
  by (simp add: db_ok_def sample_db_def routed_def empty_volatile_def sample_visible)

text \<open>
  C31. Storing a batch of accounts updates what the database shows, all or nothing: for distinct keys and no
  allocation after a free, \<open>store\<close> returns without undefined behaviour and keeps every account in the backend its
  mode requires, never in both. On success a closed account disappears and every other entry is shown exactly as
  written, whichever backend it was in before and whether its data is borrowed or owned; other keys are untouched. On an
  error the database shows what it showed before.
\<close>

theorem store_updates_database:
  assumes "lmdb_ok L tb" "db_ok tb db" "store_ready tb db xs"
    "reuse_safe (tb (ps_env (db_persisted db))) False (filter touches_persisted xs)"
  shows "\<exists>db' r. db_store L os (map fst xs) db = Some (db', r) \<and> db_ok tb db' \<and>
    db_shows tb db' = (case r of Inr _ \<Rightarrow> store_spec xs (db_shows tb db) | Inl _ \<Rightarrow> db_shows tb db)"
  by (rule store_runs [OF assms])

theorem store_updates_database_witness:
  "\<exists>db'. db_store (memdb_lmdb True) good_os
      [(replicate 32 7, shared_from_owned (sample_persisted 5)), (replicate 32 8, shared_from_owned (sample_owned 3 (replicate 32 1)))] sample_db
      = Some (db', Inr ()) \<and>
     db_shows memdb_tables db' (replicate 32 7) = Some (sample_persisted 5) \<and>
     db_shows memdb_tables db' (replicate 32 8) = Some (sample_owned 3 (replicate 32 1))"
proof -
  let ?xs = "[sample_entry 7 (sample_persisted 5), sample_entry 8 (sample_owned 3 (replicate 32 1))]"
  have b: "batch_ready memdb_tables sample_store ?xs" by (rule owned_ready) (auto simp: shared_from_owned_def sample_ok)
  have r: "store_ready memdb_tables sample_db ?xs"
    using b by (simp add: store_ready_def sample_db_def) (simp add: sample_store_def memdb_tables_def)
  have f: "filter touches_persisted ?xs = [sample_entry 7 (sample_persisted 5)]"
    by (simp add: touches_persisted_def sample_persistent)
      (simp add: shared_from_owned_def sample_owned_def persistent_mode_def flags_contain_def DIRTY_MODE_def)
  obtain db' r where d: "db_store (memdb_lmdb True) good_os (map fst ?xs) sample_db = Some (db', r)"
    "db_shows memdb_tables db' = (case r of Inr _ \<Rightarrow> store_spec ?xs (db_shows memdb_tables sample_db) | Inl _ \<Rightarrow> db_shows memdb_tables sample_db)"
    using store_updates_database [OF memdb_ok [of True] sample_db_ok r, of good_os] f by auto
  have "case db_store (memdb_lmdb True) good_os (map fst ?xs) sample_db of Some (_, Inr _) \<Rightarrow> True | _ \<Rightarrow> False" by code_simp
  then obtain w where w: "r = Inr w" using d(1) by (cases r) auto
  have "store_spec ?xs (db_shows memdb_tables sample_db) (replicate 32 7) = Some (sample_persisted 5)"
    "store_spec ?xs (db_shows memdb_tables sample_db) (replicate 32 8) = Some (sample_owned 3 (replicate 32 1))"
    by (simp_all add: store_spec_def plan_def db_entry_def sample_persisted_def sample_owned_def)
  then show ?thesis using d w by simp
qed

end
