(* ===== verification/Db_Execute.thy ===== *)
theory Db_Execute
  imports Db_Accounts Account_Patch
begin

text \<open>
  Accounts through their whole life in the database: loaded as a zero-copy view, changed by a sequence of patches on the
  shadow image or on the heap, and committed back. Combines the refinement of copy-on-write accounts with the store.
\<close>

section \<open>Dirty markers\<close>

definition marked :: "owned_account \<times> u8 \<Rightarrow> owned_account \<times> u8 \<Rightarrow> bool" where
  "marked s s' \<longleftrightarrow> (\<forall>f. flags_contain (snd s) f \<longrightarrow> flags_contain (snd s') f) \<and>
     (ac_owner (oa_core (fst s')) = ac_owner (oa_core (fst s)) \<or> flags_contain (snd s') DIRTY_OWNER) \<and>
     (ac_mode (oa_core (fst s')) = ac_mode (oa_core (fst s)) \<or> flags_contain (snd s') DIRTY_MODE)"

lemma flags_or: "flags_contain d f \<Longrightarrow> flags_contain (d OR e) f" "flags_contain (d OR f) f"
proof -
  show "flags_contain (d OR f) f" by (simp add: flags_contain_def bit_eq_iff bit_simps)
  assume "flags_contain d f"
  then have "\<And>n. bit f n \<Longrightarrow> bit d n" unfolding flags_contain_def by (metis bit_and_iff)
  then show "flags_contain (d OR e) f" by (auto simp: flags_contain_def bit_eq_iff bit_simps)
qed

lemma marked_trans: "marked s s' \<Longrightarrow> marked s' s'' \<Longrightarrow> marked s s''"
  unfolding marked_def by metis

lemma marked_data: "marked s (spec_data f s)"
  by (cases s) (auto simp: marked_def spec_data_def flags_or)

lemma marked_core:
  assumes "ac_owner (f (oa_core (fst s))) = ac_owner (oa_core (fst s)) \<or> d = DIRTY_OWNER" "ac_mode (f (oa_core (fst s))) = ac_mode (oa_core (fst s))"
  shows "marked s (spec_core f d s)"
  using assms by (cases s) (auto simp: marked_def spec_core_def flags_or)

lemma marked_lifecycle: "marked s (spec_lifecycle mode slot s)"
  by (cases s) (auto simp: marked_def spec_lifecycle_def flags_or)

lemma marked_op: "spec_op x s = Inr s' \<Longrightarrow> marked s s'"
proof (induction x s rule: spec_op.induct)
  case (6 mode slot s)
  then show ?case using marked_lifecycle [of s mode slot] by (auto simp: unfold_ok)
qed (auto simp: marked_data intro!: marked_core)

lemma marked_run: "spec_run xs s = Inr s' \<Longrightarrow> marked s s'"
proof (induction xs arbitrary: s)
  case Nil
  then show ?case by (simp add: marked_def)
next
  case (Cons x xs)
  then obtain t where t: "spec_op x s = Inr t" "spec_run xs t = Inr s'" by (auto simp: unfold_ok)
  show ?case by (rule marked_trans [OF marked_op [OF t(1)] Cons.IH [OF t(2)]])
qed

section \<open>Writing to the shadow image\<close>

lemma shadow_kept:
  assumes z: "pstore_ok tb s" and x: "tb_accounts (tb (ps_env s)) pk = Some x" and h: "h = storage_at (oo_offset x)"
    and b: "buffer_ok (ps_mem s) h q space"
    and a: "agree_outside (image_ptr h space q False) (image_ptr h space q False + 8 * unat space) (ps_mem s) m"
  shows "pstore_ok tb (set_mem m s)" "visible tb (set_mem m s) = visible tb s"
proof -
  let ?b = "tb (ps_env s)"
  have l: "layout_ok (ps_mem s) (cursor_of s) ?b None" and ok: "storage_ok (ps_storage s)" using z by (simp_all add: pstore_ok_def)
  note w = buffer_shadow_write [OF b a]
  obtain sequence space' acc where e: "buffer_ok (ps_mem s) h sequence space'" "5 + 2 * unat space' < 2 ^ 32"
    "borrowed_pubkey (ps_mem s) h = Some pk" "published (ps_mem s) h = Some acc" "oo_owner x = key_tail (ac_owner (oa_core acc))"
    "span_at (ps_mem s) (oo_offset x) = 5 + 2 * unat space'" "buffer_bytes space' = 8 * span_at (ps_mem s) (oo_offset x)"
    using entry_okE [OF layout_okD(1) [OF l x]] h by metis
  have sp: "space' = space" using b e(1) by (simp add: buffer_ok_def)
  have ag: "agree_outside h (h + 8 * span_at (ps_mem s) (oo_offset x)) (ps_mem s) m"
    by (rule agree_outside_mono [OF a]) (use image_ptr_bounds [of h space q False] e(6) sp in auto)
  have span: "span_at m (oo_offset x) = span_at (ps_mem s) (oo_offset x)"
    using span_space(2) [of m "oo_offset x" space] w e(2,6) sp h by (simp add: buffer_ok_def)
  have "same_region 32 (h + 8) (ps_mem s) (h + 8) m"
    by (rule same_region_agree [OF a]) (use image_ptr_bounds [of h space q False] live_bounds(2) [OF l x] e(6) h in auto)
  then have pk: "borrowed_pubkey m h = Some pk"
    using same_region_sub(1) [of 32 _ _ _ m 0 32] e(3) by (simp add: borrowed_pubkey_def STORAGE_UNIT_def KEY_SIZE_def)
  have eo: "entry_ok m pk x" unfolding entry_ok_def using w e sp pk h by auto
  have b': "?b = ?b\<lparr>tb_accounts := (tb_accounts ?b)(pk \<mapsto> x), tb_programs := insert (oo_owner x, oo_offset x) (tb_programs ?b - {(oo_owner x, oo_offset x)})\<rparr>"
  proof -
    have "(oo_owner x, oo_offset x) \<in> tb_programs ?b" using layout_okD(4) [OF l] x by (auto simp: program_entries_def ran_def)
    then have "insert (oo_owner x, oo_offset x) (tb_programs ?b - {(oo_owner x, oo_offset x)}) = tb_programs ?b" by blast
    moreover have "(tb_accounts ?b)(pk \<mapsto> x) = tb_accounts ?b" using x by (simp add: fun_upd_idem)
    ultimately show ?thesis by simp
  qed
  have p: "published m h = Some acc" using w e(4) by simp
  note lp = layout_publish [OF l x ag [unfolded h] span p [unfolded h] refl eo b']
  have "storage_ok (ps_storage (set_mem m s))" using ok agree_outside_length [OF a] by (simp add: set_mem_def storage_ok_mem storage_cursor_def)
  then show "pstore_ok tb (set_mem m s)" using lp(1) by (simp add: pstore_ok_def) (simp add: set_mem_def storage_cursor_def)
  have "visible tb s pk = Some acc" using x e(4) h by (simp add: stored_def)
  then show "visible tb (set_mem m s) = visible tb s" using lp(2) by (simp add: fun_upd_idem set_mem_def)
qed

section \<open>Running patches on a loaded account\<close>

lemma entry_key:
  assumes "pstore_ok tb s" "tb_accounts (tb (ps_env s)) pk = Some x"
  shows "length pk = 32"
proof -
  have "entry_ok (ps_mem s) pk x" using assms layout_okD(1) unfolding pstore_ok_def by blast
  then obtain bs where "borrowed_pubkey (ps_mem s) (storage_at (oo_offset x)) = Some pk" by (auto elim: entry_okE)
  then show ?thesis using mem_readD(1) by (auto simp: borrowed_pubkey_def KEY_SIZE_def)
qed

lemma run_borrowed:
  assumes z: "pstore_ok tb s" and e: "entry_view (ps_mem s) (tb (ps_env s)) (pk, shared_from_borrowed bw) acc"
    and k: "list_all op_ok xs" and r: "spec_run xs (acc, 0) = Inr (acc', d)" and d: "d AND DIRTY_ALL \<noteq> 0" and ow: "owned_ok acc'"
  shows "\<exists>m' a'. account_run xs (ps_mem s) (shared_from_borrowed bw) = Some (Inr (m', a')) \<and> pstore_ok tb (set_mem m' s) \<and>
    visible tb (set_mem m' s) = visible tb s \<and> entry_view m' (tb (ps_env s)) (pk, a') acc' \<and> sd_dirty a' = d"
proof -
  let ?a = "shared_from_borrowed bw"
  have nd: "\<not> shared_dirty ?a" "sd_cow ?a = Borrowed bw" "sd_dirty ?a = 0" by (simp_all add: shared_dirty_def shared_from_borrowed_def)
  obtain x space where x: "tb_accounts (tb (ps_env s)) pk = Some x" "bw_header bw = storage_at (oo_offset x)"
    "view_ok (ps_mem s) bw space True" "borrowed_owned (ps_mem s) bw = Some acc"
    using e nd unfolding entry_view_def prod.case nd(2) cow_account.case by auto
  have ok: "shared_ok (ps_mem s) ?a" "shared_owned (ps_mem s) ?a = Some acc"
    using x(3,4) nd by (auto simp: shared_ok_def shared_owned_def)
  obtain m' a' where run: "account_run xs (ps_mem s) ?a = Some (Inr (m', a'))" "update_ok (ps_mem s) ?a (Some (m', a')) (acc', d)"
    using account_run_refines [OF ok k] r nd(3) by auto
  then have u: "shared_ok m' a'" "shared_owned m' a' = Some acc'" "sd_dirty a' = d" "shared_frame (ps_mem s) ?a m' a'"
    by (auto simp: update_ok_def)
  have bo: "buffer_ok (ps_mem s) (bw_header bw) (bw_version bw) space" using x(3) by (simp add: view_ok_def)
  then have ag: "shadow_agree bw space (ps_mem s) m'" using u(4) nd(2) by (auto simp: shared_frame_def buffer_ok_def)
  note sk = shadow_kept [OF z x(1,2) bo ag]
  have pub: "published m' (bw_header bw) = Some acc"
    using frame_published [OF ok(1) nd(2) u(4)] view_active_published [OF x(3)] x(4) by simp
  have own: "flags_contain d DIRTY_OWNER \<or> ac_owner (oa_core acc') = ac_owner (oa_core acc)"
    using marked_run [OF r] by (auto simp: marked_def)
  have dt: "shared_dirty a'" using d u(3) by (simp add: shared_dirty_def)
  have "entry_view m' (tb (ps_env s)) (pk, a') acc'"
  proof (cases "sd_cow a'")
    case (Owned o')
    then show ?thesis using u(2) ow entry_key [OF z x(1)] by (simp add: entry_view_def shared_owned_def)
  next
    case (Borrowed b')
    then have h: "bw_header b' = bw_header bw" using u(4) nd(2) by (simp add: shared_frame_def)
    obtain space' where "view_ok m' b' space' False" using u(1) dt Borrowed by (auto simp: shared_ok_def)
    then show ?thesis unfolding entry_view_def prod.case Borrowed cow_account.case
      using x(1,2) h u(2,3) dt pub own Borrowed by (auto simp: shared_owned_def)
  qed
  then show ?thesis using run(1) sk u(3) by blast
qed

lemma run_owned:
  assumes k: "list_all op_ok xs" and r: "spec_run xs (acc, 0) = Inr (acc', d)" and c: "core_ok (oa_core acc)"
  shows "\<exists>a'. account_run xs m (shared_from_owned acc) = Some (Inr (m, a')) \<and> sd_cow a' = Owned acc' \<and> sd_dirty a' = d"
proof -
  let ?a = "shared_from_owned acc"
  have ok: "shared_ok m ?a" "shared_owned m ?a = Some acc" "sd_dirty ?a = 0" "sd_cow ?a = Owned acc"
    using c by (simp_all add: shared_ok_def shared_owned_def shared_from_owned_def)
  obtain m' a' where run: "account_run xs m ?a = Some (Inr (m', a'))" "update_ok m ?a (Some (m', a')) (acc', d)"
    using account_run_refines [OF ok(1,2) k] r ok(3) by auto
  then have u: "shared_owned m' a' = Some acc'" "sd_dirty a' = d" "shared_frame m ?a m' a'" by (auto simp: update_ok_def)
  then obtain o' where "m' = m" "sd_cow a' = Owned o'" using ok(4) by (auto simp: shared_frame_def)
  then show ?thesis using run(1) u by (simp add: shared_owned_def)
qed

section \<open>Loaders\<close>

definition quiet :: "'t pstore \<Rightarrow> 't pstore \<Rightarrow> bool" where
  "quiet s s' \<longleftrightarrow> ps_mem s' = ps_mem s \<and> ps_env s' = ps_env s \<and> cursor_of s' = cursor_of s \<and> storage_ok (ps_storage s')"

lemma quiet_db:
  assumes "db_ok tb db" "quiet (db_persisted db) p"
  shows "db_ok tb (db\<lparr>db_persisted := p\<rparr>)" "db_shows tb (db\<lparr>db_persisted := p\<rparr>) = db_shows tb db"
proof -
  have v: "visible tb p = visible tb (db_persisted db)" using assms(2) by (simp add: quiet_def)
  then show "db_ok tb (db\<lparr>db_persisted := p\<rparr>)" using assms routed_cong [OF v] by (simp add: db_ok_def pstore_ok_def quiet_def)
  show "db_shows tb (db\<lparr>db_persisted := p\<rparr>) = db_shows tb db" using v by (simp add: db_shows_def fun_eq_iff split: option.split)
qed

lemma on_loader_runs:
  assumes L: "lmdb_ok L tb" and f: "\<And>t. tb t = tb (ps_env (db_persisted db)) \<Longrightarrow> runs (f t) (db_persisted db) P E" and e: "E (db_persisted db)"
  shows "runs (on_loader f L) (loader_new db) (\<lambda>x ld. \<exists>p. ld_db ld = db\<lparr>db_persisted := p\<rparr> \<and> P x p)
    (\<lambda>ld. \<exists>p. ld_db ld = db\<lparr>db_persisted := p\<rparr> \<and> E p)"
proof (cases "lm_begin L (ps_env (db_persisted db))")
  case (Inl err)
  then have "on_loader f L (loader_new db) = Some (loader_new db, Inl err)"
    by (simp add: on_loader_def loader_new_def read_txn_def st_defs st_bind_def)
  then show ?thesis using e by (auto simp: runs_def loader_new_def intro!: exI [of _ "db_persisted db"])
next
  case (Inr t)
  obtain p r where r: "f t (db_persisted db) = Some (p, r)" "case r of Inl _ \<Rightarrow> E p | Inr x \<Rightarrow> P x p"
    using f [OF lmdb_txn(1) [OF L Inr]] unfolding runs_def by blast
  then have "on_loader f L (loader_new db) = Some (\<lparr>ld_db = db\<lparr>db_persisted := p\<rparr>, ld_txn = Some t\<rparr>, r)"
    using Inr by (simp add: on_loader_def loader_new_def read_txn_def st_defs st_bind_def on_persisted_def)
  then show ?thesis using r(2) by (cases r) (auto simp: runs_def)
qed

definition loaded :: "('t \<Rightarrow> tables) \<Rightarrow> 't accounts_db \<Rightarrow> pubkey \<Rightarrow> shared_data \<Rightarrow> owned_account \<Rightarrow> bool" where
  "loaded tb db pk a acc \<longleftrightarrow>
     (\<exists>bw. a = shared_from_borrowed bw \<and> entry_view (db_mem db) (tb (ps_env (db_persisted db))) (pk, a) acc \<and>
        visible tb (db_persisted db) pk = Some acc) \<or>
     a = shared_from_owned acc \<and> vs_accounts (db_volatile db) pk = Some acc"

lemma loader_persisted_runs:
  assumes L: "lmdb_ok L tb" and ok: "db_ok tb db"
  shows "runs (loader_persisted L pk) (loader_new db)
    (\<lambda>r ld. (\<exists>p. ld_db ld = db\<lparr>db_persisted := p\<rparr> \<and> quiet (db_persisted db) p) \<and>
       (case r of None \<Rightarrow> visible tb (db_persisted db) pk = None
        | Some a \<Rightarrow> \<exists>acc bw. visible tb (db_persisted db) pk = Some acc \<and> a = shared_from_borrowed bw \<and>
            entry_view (db_mem db) (tb (ps_env (db_persisted db))) (pk, a) acc))
    (\<lambda>ld. \<exists>p. ld_db ld = db\<lparr>db_persisted := p\<rparr> \<and> quiet (db_persisted db) p)"
  unfolding loader_persisted_def
proof (rule runs_bind)
  let ?s = "db_persisted db"
  let ?P = "\<lambda>x p. quiet ?s p \<and> (case snd x of None \<Rightarrow> visible tb ?s pk = None
     | Some bw \<Rightarrow> \<exists>acc. visible tb ?s pk = Some acc \<and> entry_view (ps_mem ?s) (tb (ps_env ?s)) (pk, shared_from_borrowed bw) acc)"
  have z: "pstore_ok tb ?s" using ok by (simp add: db_ok_def)
  have q: "quiet ?s ?s" using z by (simp add: quiet_def pstore_ok_def)
  have "runs (persisted_load L (Some t) pk) ?s ?P (quiet ?s)" if t: "tb t = tb (ps_env ?s)" for t
    by (rule runs_cons [OF load_runs [OF L z, of "Some t"]]) (use t q in \<open>auto simp: current_txn_def read_txn_def quiet_def\<close>)
  from on_loader_runs [OF L this q]
  show "runs (on_loader (\<lambda>t. persisted_load L (Some t) pk) L) (loader_new db) (\<lambda>x ld. \<exists>p. ld_db ld = db\<lparr>db_persisted := p\<rparr> \<and> ?P x p)
    (\<lambda>ld. \<exists>p. ld_db ld = db\<lparr>db_persisted := p\<rparr> \<and> quiet ?s p)" .
qed (auto split: option.splits)

lemma loader_db: "ld_db (loader_new db) = db"
  by (simp add: loader_new_def)

lemma loader_load_runs:
  assumes L: "lmdb_ok L tb" and ok: "db_ok tb db"
  shows "runs (loader_load L pk) (loader_new db)
    (\<lambda>r ld. (\<exists>p. ld_db ld = db\<lparr>db_persisted := p\<rparr> \<and> quiet (db_persisted db) p) \<and>
       (case r of None \<Rightarrow> db_shows tb db pk = None | Some a \<Rightarrow> \<exists>acc. db_shows tb db pk = Some acc \<and> loaded tb db pk a acc))
    (\<lambda>ld. \<exists>p. ld_db ld = db\<lparr>db_persisted := p\<rparr> \<and> quiet (db_persisted db) p)"
proof (cases "vs_accounts (db_volatile db) pk")
  case None
  have l: "loader_load L pk = st_state (\<lambda>ld. case volatile_load (db_volatile (ld_db ld)) pk of
       Some account \<Rightarrow> st_return (Some (shared_from_owned account)) | None \<Rightarrow> loader_persisted L pk)" by (simp add: loader_load_def)
  have "runs (loader_persisted L pk) (loader_new db)
    (\<lambda>r ld. (\<exists>p. ld_db ld = db\<lparr>db_persisted := p\<rparr> \<and> quiet (db_persisted db) p) \<and>
       (case r of None \<Rightarrow> db_shows tb db pk = None | Some a \<Rightarrow> \<exists>acc. db_shows tb db pk = Some acc \<and> loaded tb db pk a acc))
    (\<lambda>ld. \<exists>p. ld_db ld = db\<lparr>db_persisted := p\<rparr> \<and> quiet (db_persisted db) p)"
    by (rule runs_cons [OF loader_persisted_runs [OF L ok]])
      (use None in \<open>auto simp: db_shows_def loaded_def split: option.splits\<close>)
  then show ?thesis unfolding l runs_simps(4) using None by (simp add: volatile_load_def loader_db)
next
  case (Some acc)
  have q: "quiet (db_persisted db) (db_persisted db)" using ok by (simp add: db_ok_def pstore_ok_def quiet_def)
  have "loader_load L pk (loader_new db) = Some (loader_new db, Inr (Some (shared_from_owned acc)))"
    using Some by (simp add: loader_load_def st_defs volatile_load_def loader_db)
  moreover have "db_shows tb db pk = Some acc" "loaded tb db pk (shared_from_owned acc) acc"
    using Some by (simp_all add: db_shows_def loaded_def)
  moreover have "ld_db (loader_new db) = db\<lparr>db_persisted := db_persisted db\<rparr>" by (simp add: loader_db)
  ultimately show ?thesis using q unfolding runs_def
    by (intro exI [of _ "loader_new db"] exI [of _ "Inr (Some (shared_from_owned acc))"]) (simp, rule exI [of _ "db_persisted db"], simp)
qed

section \<open>Metadata\<close>

text \<open>The counters and slots that batches leave alone.\<close>

abbreviation meta_fields :: "db_meta \<Rightarrow> u64 \<times> u64 \<times> u64 \<times> u64 \<times> u64 \<times> u64" where
  "meta_fields d \<equiv> (dm_version d, dm_checksum d, dm_slot d, dm_superblock d, dm_transactions d, dm_chain_slot d)"

definition meta_core :: "'t pstore \<Rightarrow> u64 \<times> u64 \<times> u64 \<times> u64 \<times> u64 \<times> u64" where
  "meta_core s = meta_fields (ms_meta (ps_storage s))"

definition keeps :: "('t pstore, 'a) st \<Rightarrow> bool" where
  "keeps f \<longleftrightarrow> (\<forall>s s' r. f s = Some (s', r) \<longrightarrow> meta_core s' = meta_core s)"

named_theorems keeping

lemma keepsD: "keeps f \<Longrightarrow> f s = Some (s', r) \<Longrightarrow> meta_core s' = meta_core s"
  by (simp add: keeps_def)

lemma keeps_bind [keeping]:
  assumes "keeps f" "\<And>x. keeps (g x)"
  shows "keeps (st_bind f g)"
  unfolding keeps_def
proof (intro allI impI)
  fix s s' r assume b: "st_bind f g s = Some (s', r)"
  then obtain s1 q where f: "f s = Some (s1, q)" by (cases "f s") (auto simp: st_bind_def)
  note k = keepsD [OF assms(1) f]
  show "meta_core s' = meta_core s"
  proof (cases q)
    case (Inl e)
    then show ?thesis using b f k by (simp add: st_bind_def)
  next
    case (Inr x)
    then have "g x s1 = Some (s', r)" using b f by (simp add: st_bind_def)
    then show ?thesis using keepsD [OF assms(2)] k by metis
  qed
qed

lemma keeps_basic [keeping]: "keeps (st_return x)" "keeps (st_fail e)" "keeps (st_result q)"
  by (simp_all add: keeps_def st_defs)

lemma keeps_state [keeping]: "(\<And>s. keeps (h s)) \<Longrightarrow> keeps (st_state h)"
  by (auto simp: keeps_def st_defs)

lemma keeps_read [keeping]: "keeps (st_read h)"
  by (auto simp: keeps_def st_read_def split: option.splits)

lemma keeps_txn [keeping]: "keeps (on_txn f)" "keeps (txn_update h)" "keeps (st_modify (\<lambda>s. s\<lparr>ps_txn := t\<rparr>))"
  by (auto simp: keeps_def on_txn_def txn_update_def st_defs meta_core_def split: option.splits sum.splits prod.splits)

lemma keeps_count [keeping]: "keeps (ps_count f)"
  by (auto simp: keeps_def ps_count_def st_defs meta_core_def ms_count_def)

lemma keeps_write [keeping]: "keeps (ps_write f)"
  by (auto simp: keeps_def ps_write_def st_memory_def meta_core_def set_mem_def split: option.splits)

lemma keeps_option: "(\<And>x. keeps (g x)) \<Longrightarrow> keeps f \<Longrightarrow> keeps (case y of None \<Rightarrow> f | Some x \<Rightarrow> g x)"
  by (cases y) simp_all

lemma keeps_if: "keeps f \<Longrightarrow> keeps g \<Longrightarrow> keeps (if b then f else g)"
  by simp

lemma keeps_write_txn [keeping]: "keeps (write_txn L)"
  unfolding write_txn_def by (intro keeping keeps_option)

lemma allocate_meta:
  "storage_allocate os u s = Some (s', r) \<Longrightarrow> meta_core (p\<lparr>ps_storage := s'\<rparr>) = meta_core (p\<lparr>ps_storage := s\<rparr>)"
  by (auto simp: storage_allocate_def storage_grow_def storage_resize_def st_defs st_bind_def Let_def meta_core_def ms_count_def publish_len_def
      set_file_len_def split: option.splits if_splits sum.splits)

lemma keeps_allocate [keeping]: "keeps (on_storage (storage_allocate os u))"
  unfolding keeps_def
proof (intro allI impI)
  fix s s' r assume "on_storage (storage_allocate os u) s = Some (s', r)"
  then obtain x where x: "storage_allocate os u (ps_storage s) = Some (x, r)" "s' = s\<lparr>ps_storage := x\<rparr>" by (auto simp: on_storage_def)
  then show "meta_core s' = meta_core s" using allocate_meta [OF x(1), of s] by simp
qed

lemma keeps_free [keeping]: "keeps (persisted_free L off)"
  unfolding persisted_free_def by (intro keeping)

lemma keeps_delete [keeping]: "keeps (persisted_delete L pk)"
  unfolding persisted_delete_def by (intro keeping keeps_option)

lemma keeps_insert [keeping]: "keeps (persisted_insert L os pk acc)"
  unfolding persisted_insert_def Let_def by (intro keeping keeps_option)

lemma keeps_update [keeping]: "keeps (persisted_update L pk acc markers)"
  unfolding persisted_update_def by (intro keeping keeps_if)

lemma keeps_cow: "(\<And>x. keeps (f x)) \<Longrightarrow> (\<And>x. keeps (g x)) \<Longrightarrow> keeps (case c of Borrowed acc \<Rightarrow> f acc | Owned ow \<Rightarrow> g ow)"
  by (cases c) simp_all

lemma keeps_apply [keeping]: "keeps (persisted_apply L os e)"
proof -
  obtain pk a where e: "e = (pk, a)" by (cases e)
  show ?thesis unfolding persisted_apply_def Let_def e prod.case by (intro keeping keeps_if keeps_cow)
qed

lemma apply_all_meta: "apply_all L os es n s = Some (s', k, r) \<Longrightarrow> meta_core s' = meta_core s"
proof (induction es arbitrary: n s)
  case (Cons e es)
  then obtain s1 q where q: "persisted_apply L os e s = Some (s1, q)" by (auto split: option.splits prod.splits)
  then have "meta_core s1 = meta_core s" by (rule keepsD [OF keeps_apply])
  then show ?case using Cons q by (cases q) auto
qed simp

lemma upsert_meta:
  assumes "persisted_upsert L os es s = Some (s', r)"
  shows "meta_core s' = meta_core s"
proof -
  obtain s1 k q where a: "apply_all L os es 0 (s\<lparr>ps_txn := None\<rparr>) = Some (s1, k, q)"
    using assms by (auto simp: persisted_upsert_def split: option.splits)
  have m: "meta_core s1 = meta_core s" using apply_all_meta [OF a] by (simp add: meta_core_def)
  obtain s2 q2 where f: "finish_txn L q s1 = (s2, q2)" by (cases "finish_txn L q s1")
  then have "meta_core s2 = meta_core s1"
    by (auto simp: finish_txn_def meta_core_def split: option.splits sum.splits)
  then show ?thesis using assms a f m
    by (cases q2) (auto simp: persisted_upsert_def meta_core_def set_mem_def bind_eq_Some_conv)
qed

lemma store_meta:
  assumes "db_store L os es db = Some (db', r)"
  shows "meta_core (db_persisted db') = meta_core (db_persisted db)"
proof -
  obtain iter p q where u: "filter_opt persisted_filter es = Some iter" "persisted_upsert L os iter (db_persisted db) = Some (p, q)"
    using assms by (auto simp: db_store_def on_persisted_def bind_eq_Some_conv)
  have "meta_core (db_persisted db') = meta_core p" using assms u
    by (cases q) (auto simp: db_store_def on_persisted_def bind_eq_Some_conv)
  then show ?thesis using upsert_meta [OF u(2)] by simp
qed

section \<open>Committing an executed account\<close>

lemma commit_runs:
  assumes L: "lmdb_ok L tb" and ok: "db_ok tb db" and r: "store_ready tb db xs"
    and g: "reuse_safe (tb (ps_env (db_persisted db))) False (filter touches_persisted xs)"
  shows "\<exists>db' r. db_commit L os (map fst xs) db = Some (db', r) \<and> db_ok tb db' \<and>
    db_shows tb db' = (case r of Inr _ \<Rightarrow> store_spec xs (db_shows tb db) | Inl _ \<Rightarrow> db_shows tb db) \<and>
    db_transactions db' = (case r of Inr _ \<Rightarrow> db_transactions db + 1 | Inl _ \<Rightarrow> db_transactions db)"
proof -
  obtain db1 q where s: "db_store L os (map fst xs) db = Some (db1, q)" "db_ok tb db1"
    "db_shows tb db1 = (case q of Inr _ \<Rightarrow> store_spec xs (db_shows tb db) | Inl _ \<Rightarrow> db_shows tb db)"
    using store_runs [OF L ok r g, of os] by blast
  have t: "db_transactions db1 = db_transactions db" using store_meta [OF s(1)] by (simp add: meta_core_def db_transactions_def)
  show ?thesis
  proof (cases q)
    case (Inl e)
    then show ?thesis using s t by (intro exI [of _ db1] exI [of _ "Inl e"]) (simp add: db_commit_def st_bind_def)
  next
    case (Inr w)
    let ?p = "on_meta (\<lambda>meta. meta\<lparr>dm_transactions := dm_transactions meta + 1\<rparr>) (db_persisted db1)"
    let ?db = "db1\<lparr>db_persisted := ?p\<rparr>"
    have c: "db_commit L os (map fst xs) db = Some (?db, Inr ())"
      using s(1) Inr by (simp add: db_commit_def st_bind_def on_persisted_def st_defs)
    have "quiet (db_persisted db1) ?p"
      using s(2) by (simp add: quiet_def on_meta_def db_ok_def pstore_ok_def storage_ok_mem storage_cursor_def)
    note qd = quiet_db [OF s(2) this]
    have "db_transactions ?db = db_transactions db + 1" using t by (simp add: db_transactions_def on_meta_def)
    then show ?thesis using c qd s(3) Inr by (intro exI [of _ ?db] exI [of _ "Inr ()"]) simp
  qed
qed

lemma shadow_db:
  assumes ok: "db_ok tb db" and p: "pstore_ok tb p" "visible tb p = visible tb (db_persisted db)"
  shows "db_ok tb (db\<lparr>db_persisted := p\<rparr>)" "db_shows tb (db\<lparr>db_persisted := p\<rparr>) = db_shows tb db"
  using ok p routed_cong [OF p(2)] by (simp_all add: db_ok_def db_shows_def fun_eq_iff split: option.split)

lemma hidden_entry:
  assumes "pstore_ok tb s" "visible tb s pk = None"
  shows "tb_accounts (tb (ps_env s)) pk = None"
proof (cases "tb_accounts (tb (ps_env s)) pk")
  case (Some x)
  then have "entry_ok (ps_mem s) pk x" using assms(1) layout_okD(1) unfolding pstore_ok_def by blast
  then show ?thesis using assms(2) Some by (auto simp: stored_def elim: entry_okE)
qed simp

lemma run_loaded:
  assumes ok: "db_ok tb db" and l: "loaded tb db pk a acc" and k: "list_all op_ok xs" and r: "spec_run xs (acc, 0) = Inr (acc', d)"
    and d: "d AND DIRTY_ALL \<noteq> 0" and ow: "owned_ok acc'" and c: "core_ok (oa_core acc)" "length pk = 32"
  shows "\<exists>m' a'. account_run xs (db_mem db) a = Some (Inr (m', a')) \<and>
    db_ok tb (db\<lparr>db_persisted := set_mem m' (db_persisted db)\<rparr>) \<and>
    db_shows tb (db\<lparr>db_persisted := set_mem m' (db_persisted db)\<rparr>) = db_shows tb db \<and>
    store_ready tb (db\<lparr>db_persisted := set_mem m' (db_persisted db)\<rparr>) [((pk, a'), acc')]"
proof -
  let ?s = "db_persisted db"
  have z: "pstore_ok tb ?s" "routed tb ?s (db_volatile db)" using ok by (simp_all add: db_ok_def)
  consider (borrowed) bw where "a = shared_from_borrowed bw" "entry_view (ps_mem ?s) (tb (ps_env ?s)) (pk, a) acc" "visible tb ?s pk = Some acc"
    | (owned) "a = shared_from_owned acc" "vs_accounts (db_volatile db) pk = Some acc" using l unfolding loaded_def by blast
  then show ?thesis
  proof cases
    case borrowed
    obtain m' a' where m: "account_run xs (ps_mem ?s) a = Some (Inr (m', a'))" "pstore_ok tb (set_mem m' ?s)"
      "visible tb (set_mem m' ?s) = visible tb ?s" "entry_view m' (tb (ps_env ?s)) (pk, a') acc'" "sd_dirty a' = d"
      using run_borrowed [OF z(1) borrowed(2) [unfolded borrowed(1)] k r d ow] borrowed(1) by blast
    have "touches_persisted ((pk, a'), acc')"
      using marked_run [OF r] routedD(2) [OF z(2) borrowed(3)] m(5) by (auto simp: touches_persisted_def marked_def)
    then have "store_ready tb (db\<lparr>db_persisted := set_mem m' ?s\<rparr>) [((pk, a'), acc')]"
      using m(4) by (simp add: store_ready_def batch_ready_def) (simp add: set_mem_def)
    then show ?thesis using m(1) shadow_db [OF ok m(2,3)] by blast
  next
    case owned
    obtain a' where m: "account_run xs (ps_mem ?s) a = Some (Inr (ps_mem ?s, a'))" "sd_cow a' = Owned acc'"
      using run_owned [OF k r c(1), of "ps_mem ?s"] owned(1) by blast
    have same: "set_mem (ps_mem ?s) ?s = ?s" by (simp add: set_mem_def)
    have "tb_accounts (tb (ps_env ?s)) pk = None" using hidden_entry [OF z(1)] routedD(1) [OF z(2) owned(2)] by blast
    then have "store_ready tb db [((pk, a'), acc')]" using m(2) ow c(2) by (simp add: store_ready_def batch_ready_def entry_view_def)
    then show ?thesis using m(1) ok same by (intro exI [of _ "ps_mem ?s"] exI [of _ a']) simp
  qed
qed

lemma loaded_quiet: "loaded tb db pk a acc \<Longrightarrow> quiet (db_persisted db) p \<Longrightarrow> loaded tb (db\<lparr>db_persisted := p\<rparr>) pk a acc"
  by (simp add: loaded_def quiet_def)

lemma single_safe: "reuse_safe b False (filter P [x])"
  by (cases x) simp

lemma single_spec: "store_spec [((pk, a), acc)] f = f(pk := db_entry acc)"
  by (simp add: store_spec_def plan_def fun_eq_iff)

lemma execute_runs:
  assumes "lmdb_ok L tb" "db_ok tb db" "db_shows tb db pk = Some acc" "list_all op_ok xs" "spec_run xs (acc, 0) = Inr (acc', d)"
    "d AND DIRTY_ALL \<noteq> 0" "owned_ok acc'" "core_ok (oa_core acc)" "length pk = 32"
  shows "\<exists>ld q. loader_load L pk (loader_new db) = Some (ld, q) \<and> db_ok tb (ld_db ld) \<and> db_shows tb (ld_db ld) = db_shows tb db \<and>
    (\<forall>v. q = Inr v \<longrightarrow> (\<exists>a m a' db' r. v = Some a \<and> account_run xs (db_mem (ld_db ld)) a = Some (Inr (m, a')) \<and>
       (let db1 = (ld_db ld)\<lparr>db_persisted := set_mem m (db_persisted (ld_db ld))\<rparr> in
        db_shows tb db1 = db_shows tb db \<and> db_commit L os [(pk, a')] db1 = Some (db', r) \<and> db_ok tb db' \<and>
        (case r of
           Inr _ \<Rightarrow> db_shows tb db' = (db_shows tb db)(pk := db_entry acc') \<and> db_transactions db' = db_transactions db1 + 1
         | Inl _ \<Rightarrow> db_shows tb db' = db_shows tb db \<and> db_transactions db' = db_transactions db1))))"
proof -
  obtain ld q where l: "loader_load L pk (loader_new db) = Some (ld, q)"
    "case q of Inl _ \<Rightarrow> \<exists>p. ld_db ld = db\<lparr>db_persisted := p\<rparr> \<and> quiet (db_persisted db) p
     | Inr v \<Rightarrow> (\<exists>p. ld_db ld = db\<lparr>db_persisted := p\<rparr> \<and> quiet (db_persisted db) p) \<and>
         (case v of None \<Rightarrow> db_shows tb db pk = None | Some a \<Rightarrow> \<exists>acc. db_shows tb db pk = Some acc \<and> loaded tb db pk a acc)"
    using loader_load_runs [OF assms(1,2), of pk] unfolding runs_def by blast
  obtain p where p: "ld_db ld = db\<lparr>db_persisted := p\<rparr>" "quiet (db_persisted db) p" using l(2) by (cases q) auto
  note qd = quiet_db [OF assms(2) p(2), folded p(1)]
  have "\<exists>a m a' db' r. v = Some a \<and> account_run xs (db_mem (ld_db ld)) a = Some (Inr (m, a')) \<and>
       (let db1 = (ld_db ld)\<lparr>db_persisted := set_mem m (db_persisted (ld_db ld))\<rparr> in
        db_shows tb db1 = db_shows tb db \<and> db_commit L os [(pk, a')] db1 = Some (db', r) \<and> db_ok tb db' \<and>
        (case r of
           Inr _ \<Rightarrow> db_shows tb db' = (db_shows tb db)(pk := db_entry acc') \<and> db_transactions db' = db_transactions db1 + 1
         | Inl _ \<Rightarrow> db_shows tb db' = db_shows tb db \<and> db_transactions db' = db_transactions db1))" if q: "q = Inr v" for v
  proof -
    obtain a where a: "v = Some a" "loaded tb db pk a acc" using l(2) q assms(3) by (cases v) auto
    have la: "loaded tb (ld_db ld) pk a acc" unfolding p(1) by (rule loaded_quiet [OF a(2) p(2)])
    obtain m a' where m: "account_run xs (db_mem (ld_db ld)) a = Some (Inr (m, a'))"
      "db_ok tb ((ld_db ld)\<lparr>db_persisted := set_mem m (db_persisted (ld_db ld))\<rparr>)"
      "db_shows tb ((ld_db ld)\<lparr>db_persisted := set_mem m (db_persisted (ld_db ld))\<rparr>) = db_shows tb (ld_db ld)"
      "store_ready tb ((ld_db ld)\<lparr>db_persisted := set_mem m (db_persisted (ld_db ld))\<rparr>) [((pk, a'), acc')]"
      using run_loaded [OF qd(1) la assms(4-9)] by blast
    show ?thesis using commit_runs [OF assms(1) m(2,4) single_safe, of os] a(1) m(1,3) qd(2)
      by (fastforce simp: single_spec Let_def split: sum.splits)
  qed
  then show ?thesis using l(1) qd by blast
qed

section \<open>Properties\<close>

text \<open>
  C32. The life of an account in one transaction: an account the database shows can be loaded; running any sequence of
  valid patches on the loaded view never faults, computes exactly the pure result and changes nothing that others see;
  committing the changed account makes the database show that result under its key, drop it if it was closed, and counts one
  transaction. If loading or committing fails, the database shows and counts what it did before.
\<close>

theorem execute_and_commit:
  assumes "lmdb_ok L tb" "db_ok tb db" "db_shows tb db pk = Some acc" "list_all op_ok xs" "spec_run xs (acc, 0) = Inr (acc', d)"
    "d AND DIRTY_ALL \<noteq> 0" "owned_ok acc'" "core_ok (oa_core acc)" "length pk = 32"
  shows "\<exists>ld q. loader_load L pk (loader_new db) = Some (ld, q) \<and> db_ok tb (ld_db ld) \<and> db_shows tb (ld_db ld) = db_shows tb db \<and>
    (\<forall>v. q = Inr v \<longrightarrow> (\<exists>a m a' db' r. v = Some a \<and> account_run xs (db_mem (ld_db ld)) a = Some (Inr (m, a')) \<and>
       (let db1 = (ld_db ld)\<lparr>db_persisted := set_mem m (db_persisted (ld_db ld))\<rparr> in
        db_shows tb db1 = db_shows tb db \<and> db_commit L os [(pk, a')] db1 = Some (db', r) \<and> db_ok tb db' \<and>
        (case r of
           Inr _ \<Rightarrow> db_shows tb db' = (db_shows tb db)(pk := db_entry acc') \<and> db_transactions db' = db_transactions db1 + 1
         | Inl _ \<Rightarrow> db_shows tb db' = db_shows tb db \<and> db_transactions db' = db_transactions db1))))"
  by (rule execute_runs [OF assms])

section \<open>A sample run\<close>

text \<open>Loading an account and running patches on it, as one step.\<close>

definition load_and_run :: "'t lmdb \<Rightarrow> pubkey \<Rightarrow> account_op list \<Rightarrow> 't accounts_db \<Rightarrow> ('t accounts_db \<times> shared_data) option" where
  "load_and_run L pk xs db =
     (case loader_load L pk (loader_new db) of
        Some (ld, Inr (Some a)) \<Rightarrow>
          (case account_run xs (db_mem (ld_db ld)) a of
             Some (Inr (m, a')) \<Rightarrow> Some ((ld_db ld)\<lparr>db_persisted := set_mem m (db_persisted (ld_db ld))\<rparr>, a')
           | _ \<Rightarrow> None)
      | _ \<Rightarrow> None)"

lemma load_and_run_ok:
  assumes "lmdb_ok L tb" "db_ok tb db" "db_shows tb db pk = Some acc" "list_all op_ok xs" "spec_run xs (acc, 0) = Inr (acc', d)"
    "d AND DIRTY_ALL \<noteq> 0" "owned_ok acc'" "core_ok (oa_core acc)" "length pk = 32" "load_and_run L pk xs db = Some (db1, a1)"
  shows "db_ok tb db1" "db_shows tb db1 = db_shows tb db" "store_ready tb db1 [((pk, a1), acc')]"
proof -
  obtain ld a where l: "loader_load L pk (loader_new db) = Some (ld, Inr (Some a))"
    using assms(10) by (auto simp: load_and_run_def split: option.splits prod.splits sum.splits)
  obtain p where p: "ld_db ld = db\<lparr>db_persisted := p\<rparr>" "quiet (db_persisted db) p" and a: "loaded tb db pk a acc"
    using loader_load_runs [OF assms(1,2), of pk] l assms(3) by (auto simp: runs_def)
  note qd = quiet_db [OF assms(2) p(2), folded p(1)]
  have la: "loaded tb (ld_db ld) pk a acc" unfolding p(1) by (rule loaded_quiet [OF a p(2)])
  from run_loaded [OF qd(1) la assms(4-9)] show "db_ok tb db1" "db_shows tb db1 = db_shows tb db" "store_ready tb db1 [((pk, a1), acc')]"
    using assms(10) l qd(2) by (auto simp: load_and_run_def)
qed

abbreviation key7 :: pubkey where "key7 \<equiv> replicate 32 7"

definition undelegating :: owned_account where
  "undelegating = sample_persisted 5\<lparr>oa_core := (oa_core (sample_persisted 5))\<lparr>ac_mode := Undelegating\<rparr>\<rparr>"

text \<open>A file with one account that has been published once, so that its second image is the active one.\<close>

definition undelegating_memory :: memory where
  "undelegating_memory =
     (let image = enc_core (oa_core undelegating) @ enc_u32 0 @ enc_u32 0 in enc_u32 1 @ enc_u32 8 @ key7 @ image @ image)"

definition undelegating_db :: "memdb accounts_db" where
  "undelegating_db =
     \<lparr>db_persisted = \<lparr>ps_storage = \<lparr>ms_meta = fresh_meta\<lparr>dm_len := 168 + 256, dm_cursor := 21\<rparr>, ms_mem = undelegating_memory\<rparr>,
        ps_env = \<lparr>md_accounts = [(key7, \<lparr>oo_owner = key_tail (replicate 32 1), oo_offset = 0\<rparr>)],
          md_programs = [(key_tail (replicate 32 1), 0)], md_freelist = []\<rparr>, ps_txn = None\<rparr>,
      db_volatile = empty_volatile\<rparr>"

lemma undelegating_bytes:
  "hdr_sequence undelegating_memory 0 = Some 1" "hdr_space undelegating_memory 0 = Some 8" "length undelegating_memory = 168"
  "load_core undelegating_memory 104 = Some (oa_core undelegating)" "load_u32 undelegating_memory 160 = Some 0"
  "load_u32 undelegating_memory 164 = Some 0" "published undelegating_memory 0 = Some undelegating"
  "borrowed_pubkey undelegating_memory 0 = Some key7" "borrowed_span undelegating_memory 0 = Some 21"
  by code_simp+

lemma undelegating_entry: "entry_ok undelegating_memory key7 \<lparr>oo_owner = key_tail (replicate 32 1), oo_offset = 0\<rparr>"
proof -
  have "buffer_ok undelegating_memory 0 1 8"
    using undelegating_bytes by (simp add: buffer_ok_def image_ok_def image_ptr_cases)
  then show ?thesis unfolding entry_ok_def using undelegating_bytes
    by (intro exI [of _ 1] exI [of _ 8] exI [of _ undelegating]) (simp add: storage_at_def undelegating_def sample_persisted_def)
qed

lemma undelegating_db_ok: "db_ok memdb_tables undelegating_db" "db_shows memdb_tables undelegating_db key7 = Some undelegating"
proof -
  let ?s = "db_persisted undelegating_db"
  have mem: "ps_mem ?s = undelegating_memory" "cursor_of ?s = 21" "ps_env ?s = \<lparr>md_accounts = [(key7, \<lparr>oo_owner = key_tail (replicate 32 1), oo_offset = 0\<rparr>)],
          md_programs = [(key_tail (replicate 32 1), 0)], md_freelist = []\<rparr>"
    by (simp_all add: undelegating_db_def storage_cursor_def)
  have st: "storage_ok (ps_storage ?s)"
    using undelegating_bytes(3) by (simp add: undelegating_db_def storage_ok_mem storage_cursor_def storage_consts)
  have "span_at undelegating_memory 0 = 21" using undelegating_bytes(9) by (simp add: span_at_def storage_at_def)
  then have "layout_ok (ps_mem ?s) (cursor_of ?s) (memdb_tables (ps_env ?s)) None"
    unfolding mem using undelegating_entry undelegating_bytes(3)
    by (auto simp: layout_ok_def memdb_tables_def claims_def all_apart_def program_entries_def ran_def split: if_splits)
  then have p: "pstore_ok memdb_tables ?s" using st by (simp add: pstore_ok_def)
  have v: "visible memdb_tables ?s pk = (if pk = key7 then Some undelegating else None)" for pk
    unfolding mem using undelegating_bytes(7) by (simp add: stored_def memdb_tables_def storage_at_def)
  have "persistent_mode (ac_mode (oa_core undelegating))" by (simp add: undelegating_def persistent_mode_def)
  then have "routed memdb_tables ?s (db_volatile undelegating_db)" using v by (simp add: routed_def) (simp add: undelegating_db_def empty_volatile_def)
  then show "db_ok memdb_tables undelegating_db" using p empty_volatile_ok by (simp add: db_ok_def) (simp add: undelegating_db_def)
  show "db_shows memdb_tables undelegating_db key7 = Some undelegating"
    using v by (simp add: db_shows_def) (simp add: undelegating_db_def empty_volatile_def)
qed

text \<open>The account becomes a mirror of the base chain in the same batch that stores a new account of the same size.\<close>

lemma sample_chain:
  "case load_and_run (memdb_lmdb True) key7 [Patch (Lifecycle Mirrored 0)] undelegating_db of None \<Rightarrow> False | Some (db1, a1) \<Rightarrow>
   case db_store (memdb_lmdb True) good_os [(key7, a1), (replicate 32 8, shared_from_owned (sample_persisted 9))] db1 of
     Some (db2, Inr _) \<Rightarrow> db_shows memdb_tables db2 key7 = None
   | _ \<Rightarrow> False"
  by code_simp

text \<open>The loaded mirror together with the new account satisfies what \<open>store\<close> asks of its callers.\<close>

definition mirrored :: owned_account where
  "mirrored = undelegating\<lparr>oa_core := (oa_core undelegating)\<lparr>ac_mode := Mirrored, ac_slot := 0\<rparr>\<rparr>"

lemma mirrored_run: "spec_run [Patch (Lifecycle Mirrored 0)] (undelegating, 0) = Inr (mirrored, DIRTY_MODE OR DIRTY_SLOT)"
  by (simp add: mirrored_def undelegating_def sample_persisted_def default_owned_def default_core_def validate_transition_def
      spec_lifecycle_def res_bind_def)

lemma mirrored_ok: "owned_ok mirrored" "core_ok (oa_core undelegating)"
  by (simp_all add: owned_ok_def mirrored_def undelegating_def sample_persisted_def core_ok_def default_owned_def)

lemma dirty_lifecycle: "(DIRTY_MODE OR DIRTY_SLOT) AND DIRTY_ALL \<noteq> 0"
  by (simp add: DIRTY_MODE_def DIRTY_SLOT_def DIRTY_ALL_def)

lemma mirrored_ready:
  assumes "load_and_run (memdb_lmdb True) key7 [Patch (Lifecycle Mirrored 0)] undelegating_db = Some (db1, a1)"
  shows "db_ok memdb_tables db1"
    "store_ready memdb_tables db1 [((key7, a1), mirrored), sample_entry 8 (sample_persisted 9)]"
proof -
  note r = load_and_run_ok [OF memdb_ok undelegating_db_ok _ mirrored_run dirty_lifecycle mirrored_ok _ assms]
  show "db_ok memdb_tables db1" using r(1) by simp
  have "store_ready memdb_tables db1 [((key7, a1), mirrored)]" using r(3) by simp
  moreover have "touches_persisted (sample_entry 8 (sample_persisted 9))" by (simp add: touches_persisted_def sample_persistent)
  moreover have "entry_view m b (fst (sample_entry 8 (sample_persisted 9))) (sample_persisted 9)" for m b
    by (simp add: entry_view_def shared_from_owned_def sample_ok)
  moreover have "key7 \<noteq> replicate 32 (8 :: u8)" by simp
  ultimately show "store_ready memdb_tables db1 [((key7, a1), mirrored), sample_entry 8 (sample_persisted 9)]"
    by (simp add: store_ready_def batch_ready_def)
qed

theorem execute_and_commit_witness:
  "\<exists>ld q. loader_load (memdb_lmdb True) key7 (loader_new undelegating_db) = Some (ld, q) \<and>
    db_shows memdb_tables (ld_db ld) key7 = Some undelegating \<and>
    (\<forall>v. q = Inr v \<longrightarrow> (\<exists>a m a' db' r. v = Some a \<and> account_run [Patch (Lifecycle Mirrored 0)] (db_mem (ld_db ld)) a = Some (Inr (m, a')) \<and>
       db_commit (memdb_lmdb True) good_os [(key7, a')] ((ld_db ld)\<lparr>db_persisted := set_mem m (db_persisted (ld_db ld))\<rparr>) = Some (db', r) \<and>
       db_shows memdb_tables db' key7 = (case r of Inr _ \<Rightarrow> Some mirrored | Inl _ \<Rightarrow> Some undelegating)))"
proof -
  have e: "db_entry mirrored = Some mirrored" by (simp add: db_entry_def mirrored_def)
  obtain ld q where l: "loader_load (memdb_lmdb True) key7 (loader_new undelegating_db) = Some (ld, q)"
    "db_shows memdb_tables (ld_db ld) = db_shows memdb_tables undelegating_db"
    "\<And>v. q = Inr v \<Longrightarrow> \<exists>a m a' db' r. v = Some a \<and> account_run [Patch (Lifecycle Mirrored 0)] (db_mem (ld_db ld)) a = Some (Inr (m, a')) \<and>
       (let db1 = (ld_db ld)\<lparr>db_persisted := set_mem m (db_persisted (ld_db ld))\<rparr> in
        db_shows memdb_tables db1 = db_shows memdb_tables undelegating_db \<and> db_commit (memdb_lmdb True) good_os [(key7, a')] db1 = Some (db', r) \<and>
        db_ok memdb_tables db' \<and>
        (case r of
           Inr _ \<Rightarrow> db_shows memdb_tables db' = (db_shows memdb_tables undelegating_db)(key7 := db_entry mirrored) \<and>
             db_transactions db' = db_transactions db1 + 1
         | Inl _ \<Rightarrow> db_shows memdb_tables db' = db_shows memdb_tables undelegating_db \<and> db_transactions db' = db_transactions db1))"
    using execute_and_commit [OF memdb_ok [of True] undelegating_db_ok _ mirrored_run dirty_lifecycle mirrored_ok, of good_os] by auto
  show ?thesis using l(1,2) undelegating_db_ok(2) l(3) e
    by (intro exI [of _ ld] exI [of _ q]) (fastforce simp: Let_def split: sum.splits)
qed

text \<open>
  C33. The condition on reuse is needed even for batches that succeed. Undelegation turns a persisted account into a
  volatile mirror: the persisted pass of \<open>store\<close> frees its span, a later owned entry of the same batch may
  take that span over, and only then does the volatile pass read the mirror through its borrowed view. It finds the image of
  the other account, whose mode is persistent, and drops the entry: \<open>store\<close> reports success and the account is in
  neither backend.
\<close>

theorem successful_store_can_lose_account:
  "\<exists>db db' xs pk acc. db_ok memdb_tables db \<and> store_ready memdb_tables db xs \<and>
     db_store (memdb_lmdb True) good_os (map fst xs) db = Some (db', Inr ()) \<and>
     store_spec xs (db_shows memdb_tables db) pk = Some acc \<and> db_shows memdb_tables db' pk = None"
proof -
  obtain db1 a1 where l: "load_and_run (memdb_lmdb True) key7 [Patch (Lifecycle Mirrored 0)] undelegating_db = Some (db1, a1)"
    using sample_chain by (auto split: option.splits)
  let ?xs = "[((key7, a1), mirrored), sample_entry 8 (sample_persisted 9)]"
  obtain db2 where "db_store (memdb_lmdb True) good_os (map fst ?xs) db1 = Some (db2, Inr ())" "db_shows memdb_tables db2 key7 = None"
    using sample_chain l by (auto split: option.splits prod.splits sum.splits)
  moreover have "store_spec ?xs (db_shows memdb_tables db1) key7 = Some mirrored"
    by (simp add: store_spec_def plan_def db_entry_def mirrored_def)
  ultimately show ?thesis using mirrored_ready [OF l] by blast
qed

end
