(* ===== verification/Spec2Isabelle.thy ===== *)
theory Spec2Isabelle
  imports Sequencer_Props Tx_Sanitize Account_SeqLock Db_Readers Db_Execute
begin

text \<open>
  A verification development of the MagicBlock engine. The engine executes Solana transactions in
  parallel: transactions are parsed in place (\<^verbatim>\<open>solana/transaction-view\<close>), ordered by the accounts
  they lock (\<^verbatim>\<open>processor/src/sequencer/order.rs\<close>), executed on copy-on-write accounts
  (\<^verbatim>\<open>solana/account\<close>) and committed to an account database (\<^verbatim>\<open>accountsdb\<close>) that keeps ER-owned accounts
  in a mapped file with an LMDB index and mirrors of base-chain accounts in memory. The sequencer
  (\<^verbatim>\<open>processor\<close>) admits transactions through the keeper (\<^verbatim>\<open>keeper\<close>), dispatches them to executor
  threads and closes blocks whose hashes chain the signatures.

  \<^bold>\<open>Conventions.\<close> Source paths are relative to \<^verbatim>\<open>src/\<close>. A struct is a record, an enum a datatype, a
  hash map a map. Machine integers are words where the code wraps or stores them and natural
  numbers with the bound written out where the code checks; \<open>usize\<close> is 64 bits. \<open>Result\<close> is a sum with
  the error on the left; an outer \<open>None\<close> stands for a panic or an access out of bounds, so that
  "the result is \<open>Some\<close>" is the memory safety and panic freedom of the code. Mapped memory is a list of bytes
  and every access through a raw pointer is bounds-checked. Third-party code (LMDB, the hash of the
  checksum, the snapshot codec, the iteration order of a hash map, system calls on files) is a parameter with the documented
  behaviour as named hypotheses.

  \<^bold>\<open>Scheduling.\<close> \<open>Ordering\<close> models the ordering table of \<^verbatim>\<open>processor/src/sequencer/order.rs\<close>: tickets, the
  frontier of readers and the last writer of each account, predecessor counters and the release of
  dependents. \<open>Ordering_Inv\<close> proves its invariant, \<open>Ordering_Safety\<close> that conflicting
  transactions never run together and that every registered one becomes ready, and
  \<open>Ordering_Serial\<close> that parallel execution has the effect of the registration order (C1 to C6).

  \<^bold>\<open>Transactions.\<close> \<open>Tx_Bytes\<close> models the byte readers, \<open>Tx_Frames\<close> the frames of each section,
  \<open>Tx_Parse\<close> the parser of legacy, v0 and v1 transactions, \<open>Tx_Sanitize\<close> the sanitization checks and the
  resolved view. The theorems: the compact integer codec is exact (C7), parsing and sanitizing
  never panic (C8, C10), an accepted buffer is the serialization of what its accessors return (C9), what a sanitized
  view guarantees (C11), the writability cache is exact (C12), and the accessors stay in bounds (C13).

  \<^bold>\<open>Accounts.\<close> \<open>Account_Mode\<close> models the 16-bit modes and lifecycle transitions (C14, C15); \<open>Memory\<close> byte
  memory and typed cells; \<open>Account_Borrowed\<close> and \<open>Account_Image\<close> the two-image buffer of the mapped file; \<open>Account_Cow\<close> the
  copy-on-write account and its patches; \<open>Account_Refine\<close> that every mutation refines a pure update through
  the locale \<open>account_update\<close>; \<open>Account_Patch\<close> transactions on an account (C16) and patch sequences (C17);
  \<open>Account_SeqLock\<close> the optimistic reader against a concurrent writer (C18).

  \<^bold>\<open>Account database.\<close> \<open>Db_Readers\<close> is the admission protocol between readers and the compactor as
  interleaved atomic steps (C19, C20); \<open>Db_Volatile\<close> the in-memory store, with its three atomic map
  updates interleaved (C21), batches (C22) and snapshots (C23); \<open>Db_Index\<close> the index over an
  abstract LMDB; \<open>Db_Storage\<close> the mapped file and its allocator (C24); \<open>Db_Store\<close> the persisted store with batches and rollback;
  \<open>Db_Layout\<close> the layout invariant of the file (no two spans overlap) and its steps; \<open>Db_Batch\<close> a
  Hoare calculus for the store's stateful computations; \<open>Db_Memdb\<close> an in-memory implementation of the LMDB interface on which
  the store runs in the witnesses; \<open>Db_Upsert\<close> what a batch does on success and on every error (C25, C26) and why it
  must not reuse a span it has freed (C27); \<open>Db_Query\<close> lookup, program iteration and the checksum (C28 to C30);
  \<open>Db_Accounts\<close> the routing between the two stores (C31) and the loaders; \<open>Db_Execute\<close> an account from load through
  patches to commit (C32), and a batch that reports success and loses an account (C33).

  \<^bold>\<open>Keeper.\<close> \<open>Keeper_Cache\<close> models the expiring caches of \<^verbatim>\<open>keeper/src/cache.rs\<close> and the admission of
  transactions (\<^verbatim>\<open>TransactionsAccessor::append\<close>): through the locale \<open>dedup_cache\<close>, no
  transaction is admitted twice (C34). \<open>Svm_Context\<close> models the execution context of a
  worker with its sysvar cache (\<^verbatim>\<open>processor/src/svm.rs\<close>, \<^verbatim>\<open>solana/program-runtime/src/sysvar_cache.rs\<close>) and
  the keeper at a block boundary (\<^verbatim>\<open>BlocksAccessor::append\<close>, \<^verbatim>\<open>update_sysvars\<close>).

  \<^bold>\<open>Sequencer and executors.\<close> \<open>Executors\<close> is the pool of \<^verbatim>\<open>processor/src/sequencer/pool.rs\<close> with its
  availability word; \<open>Sequencer\<close> the operations of \<^verbatim>\<open>processor/src/sequencer/mod.rs\<close>; \<open>Sequencer_Engine\<close> puts the
  message loop, its drains and the worker loop of \<^verbatim>\<open>processor/src/executor.rs\<close> together in one step
  relation, \<open>engine_step\<close>, whose label is the stream of admitted transactions and applied boundaries. The
  SVM is a parameter: a function of context, request and accounts that reads and writes
  only declared accounts (\<open>world_framed\<close>). \<open>Sequencer_Inv\<close> and \<open>Sequencer_Serial\<close> prove the
  invariant on top of the scheduling theories, \<open>Sequencer_Drain\<close> the ranking function of a drain and the
  hash chain, \<open>Sequencer_Script\<close> runs scripted engines for the witnesses, and \<open>Sequencer_Props\<close> concludes:
  every interleaving is serial execution of the stream (C35), reachable engines neither panic nor
  exceed their bounds (C36), draining terminates (C37), replay reproduces production (C38), but not
  across a restart, because workers never refresh their cached SlotHashes (C39).

  \<^bold>\<open>Bounds.\<close> Loops are structural or have a termination proof. The retry loop of the sequence lock takes a
  schedule of memories as fuel. Owned accounts are assumed to have less than \<open>2^32 - 128\<close> bytes of data, beyond
  which the 32-bit unit count of the layout wraps. A request is submitted only while the ordering table
  has room for its ticket.

  \<^bold>\<open>Not modelled.\<close> The vendored virtual machine (\<^verbatim>\<open>solana/svm\<close>, \<^verbatim>\<open>solana/program-runtime\<close> but for the sysvar
  cache, \<^verbatim>\<open>solana/transaction-context\<close>), which calls an interpreter outside the repository, and
  with it the program cache; the account recency cache, recovery and sealing of the keeper; network, storage and process plumbing (\<^verbatim>\<open>engine\<close>,
  \<^verbatim>\<open>replicator\<close>, \<^verbatim>\<open>ledger\<close>); compaction (\<^verbatim>\<open>accountsdb/src/store/defrag.rs\<close>) and snapshot files; the simulator,
  the builtin programs, metrics and logging; memory orderings weaker than sequential consistency.
\<close>

end
